(* ===== verification/N42_Prelude.thy ===== *)
theory N42_Prelude
  imports Main "HOL-Library.Word" "HOL-Library.AList"
begin

text \<open>
  Shared vocabulary of the development: the machine integers of the Rust sources, the
  saturating and checked operations the sources call on them, the outcome type of a
  fallible call (a value, an error, or a panic), the sequencing of calls that mutate a
  state and may fail, byte encodings of machine integers, and the generic lemmas that the
  component theories share.
\<close>

named_theorems outcome_simps \<open>evaluation of sequenced fallible calls\<close>
named_theorems sat_simps \<open>saturating and checked arithmetic\<close>

section \<open>Machine integers\<close>

type_synonym u8 = "8 word"
type_synonym u16 = "16 word"
type_synonym u32 = "32 word"
type_synonym u64 = "64 word"
type_synonym b256 = "256 word"
type_synonym address = "160 word"
type_synonym bytes = "8 word list"

text \<open>\<open>saturating_add\<close>, \<open>saturating_sub\<close> and \<open>saturating_mul\<close> of the Rust integer types.\<close>

definition saturating_add :: "'a::len word \<Rightarrow> 'a word \<Rightarrow> 'a word" where
  "saturating_add x y = (if unat x + unat y < 2 ^ LENGTH('a) then x + y else - 1)"

definition saturating_sub :: "'a::len word \<Rightarrow> 'a word \<Rightarrow> 'a word" where
  "saturating_sub x y = (if y \<le> x then x - y else 0)"

definition saturating_mul :: "'a::len word \<Rightarrow> 'a word \<Rightarrow> 'a word" where
  "saturating_mul x y = (if unat x * unat y < 2 ^ LENGTH('a) then x * y else - 1)"

lemma unat_bound: "unat (w :: 'a::len word) < 2 ^ LENGTH('a)"
  by (rule unsigned_less)

lemma unat_max_word [simp]: "unat (- 1 :: 'a::len word) = 2 ^ LENGTH('a) - 1"
  by (simp add: unsigned_minus_1_eq_mask mask_eq_exp_minus_1)

lemma unat_ucast_mod:
  "unat (ucast (w :: 'a::len word) :: 'b::len word) = unat w mod 2 ^ LENGTH('b)"
  by (simp add: unsigned_ucast_eq take_bit_eq_mod)

lemma unat_min: "unat (min a (b :: 'a::len word)) = min (unat a) (unat b)"
  by (simp add: min_def word_le_nat_alt)

lemma unat_saturating_add [sat_simps]:
  "unat (saturating_add x (y :: 'a::len word)) = min (unat x + unat y) (2 ^ LENGTH('a) - 1)"
  by (auto simp: saturating_add_def unat_word_ariths)

lemma unat_saturating_sub [sat_simps]:
  "unat (saturating_sub x (y :: 'a::len word)) = unat x - unat y"
  by (auto simp: saturating_sub_def unat_sub word_le_nat_alt)

lemma unat_saturating_mul [sat_simps]:
  "unat (saturating_mul x (y :: 'a::len word)) = min (unat x * unat y) (2 ^ LENGTH('a) - 1)"
  by (auto simp: saturating_mul_def unat_word_ariths)

lemma saturating_add_ge: "x \<le> saturating_add x (y :: 'a::len word)"
proof -
  have "unat x \<le> min (unat x + unat y) (2 ^ LENGTH('a) - 1)"
    using unat_bound [of x] by linarith
  then show ?thesis
    by (simp only: word_le_nat_alt unat_saturating_add)
qed

lemma saturating_add_one_gt: "x < z \<Longrightarrow> x < saturating_add x (1 :: 'a::len word)"
proof -
  assume "x < z"
  then have "unat x < min (unat x + unat (1 :: 'a word)) (2 ^ LENGTH('a) - 1)"
    using unat_bound [of z] by (simp only: word_less_nat_alt unat_1 min_less_iff_conj) linarith
  then show ?thesis
    by (simp only: word_less_nat_alt unat_saturating_add)
qed

lemma le_if_less_saturating_add_one:
  "(x :: 'a::len word) < saturating_add y 1 \<Longrightarrow> x \<le> y"
  by (simp only: word_less_nat_alt word_le_nat_alt unat_saturating_add unat_1)

section \<open>Outcomes of fallible calls\<close>

text \<open>
  A Rust call that returns a \<open>Result\<close> ends with a value, with an error, or by a panic. A
  method on \<open>&mut self\<close> is a function from the state to the state it leaves behind and its
  outcome: an error does not undo the writes made before it.
\<close>

datatype ('e, 'a) outcome = Ok 'a | Err 'e | Panic

fun andthen ::
  "'s \<times> ('e, 'a) outcome \<Rightarrow> ('a \<Rightarrow> 's \<Rightarrow> 's \<times> ('e, 'b) outcome) \<Rightarrow> 's \<times> ('e, 'b) outcome" where
  "andthen (s, Ok a) k = k a s"
| "andthen (s, Err e) k = (s, Err e)"
| "andthen (s, Panic) k = (s, Panic)"

text \<open>\<open>r?\<close> on an outcome that touches no state.\<close>

fun trying ::
  "('e, 'a) outcome \<Rightarrow> 's \<Rightarrow> ('a \<Rightarrow> 's \<times> ('e, 'b) outcome) \<Rightarrow> 's \<times> ('e, 'b) outcome" where
  "trying (Ok a) s k = k a"
| "trying (Err e) s k = (s, Err e)"
| "trying Panic s k = (s, Panic)"

fun bind_outcome :: "('e, 'a) outcome \<Rightarrow> ('a \<Rightarrow> ('e, 'b) outcome) \<Rightarrow> ('e, 'b) outcome" where
  "bind_outcome (Ok a) k = k a"
| "bind_outcome (Err e) k = Err e"
| "bind_outcome Panic k = Panic"

fun is_ok :: "('e, 'a) outcome \<Rightarrow> bool" where
  "is_ok (Ok a) = True"
| "is_ok _ = False"

lemma andthen_cong [fundef_cong]:
  assumes "p = p'" and "\<And>a s. p' = (s, Ok a) \<Longrightarrow> k a s = k' a s"
  shows "andthen p k = andthen p' k'"
  using assms by (cases p'; cases "snd p'") auto

lemma andthen_state_rel:
  assumes "R s (fst p)" and "\<And>a t. p = (t, Ok a) \<Longrightarrow> R t (fst (k a t))"
    and "\<And>x y z. R x y \<Longrightarrow> R y z \<Longrightarrow> R x z"
  shows "R s (fst (andthen p k))"
  using assms by (cases p; cases "snd p") (auto dest: assms(2))

lemma andthen_inv:
  assumes "P (fst p)" and "\<And>a t. p = (t, Ok a) \<Longrightarrow> P t \<Longrightarrow> P (fst (k a t))"
  shows "P (fst (andthen p k))"
  using assms by (cases p; cases "snd p") auto

lemma trying_inv:
  assumes "P s" and "\<And>a. r = Ok a \<Longrightarrow> P (fst (k a))"
  shows "P (fst (trying r s k))"
  using assms by (cases r) auto

lemma andthen_OkE:
  assumes "andthen p k = (t, Ok b)"
  obtains s a where "p = (s, Ok a)" and "k a s = (t, Ok b)"
  using assms by (cases p; cases "snd p") auto

lemma trying_OkE:
  assumes "trying r s k = (t, Ok b)"
  obtains a where "r = Ok a" and "k a = (t, Ok b)"
  using assms by (cases r) auto

lemma bind_outcome_OkE:
  assumes "bind_outcome r k = Ok b"
  obtains a where "r = Ok a" and "k a = Ok b"
  using assms by (cases r) auto

section \<open>Byte encodings\<close>

text \<open>\<open>to_le_bytes\<close> of an unsigned integer and \<open>as_slice\<close> (most significant byte first) of a
  fixed-size byte array held as one word.\<close>

definition le_bytes :: "nat \<Rightarrow> 'a::len word \<Rightarrow> bytes" where
  "le_bytes n w = map (\<lambda>i. ucast (drop_bit (8 * i) w)) [0..<n]"

definition be_bytes :: "nat \<Rightarrow> 'a::len word \<Rightarrow> bytes" where
  "be_bytes n w = rev (le_bytes n w)"

definition ascii :: "string \<Rightarrow> bytes" where
  "ascii s = map (\<lambda>c. of_char c) s"

lemma length_le_bytes [simp]: "length (le_bytes n w) = n"
  by (simp add: le_bytes_def)

lemma length_be_bytes [simp]: "length (be_bytes n w) = n"
  by (simp add: be_bytes_def)

lemma length_ascii [simp]: "length (ascii s) = length s"
  by (simp add: ascii_def)

lemma le_bytes_inject:
  assumes len: "LENGTH('a) \<le> 8 * n"
  shows "le_bytes n (v :: 'a::len word) = le_bytes n w \<longleftrightarrow> v = w"
proof
  assume eq: "le_bytes n v = le_bytes n w"
  show "v = w"
  proof (rule bit_word_eqI)
    fix k assume k: "k < LENGTH('a)"
    then have i: "k div 8 < n" using len by linarith
    from eq have "le_bytes n v ! (k div 8) = le_bytes n w ! (k div 8)" by simp
    then have "bit (ucast (drop_bit (8 * (k div 8)) v) :: u8) (k mod 8)
        = bit (ucast (drop_bit (8 * (k div 8)) w) :: u8) (k mod 8)"
      using i by (simp add: le_bytes_def)
    then show "bit v k = bit w k"
      by (simp add: bit_simps)
  qed
qed simp

lemma be_bytes_inject:
  "LENGTH('a) \<le> 8 * n \<Longrightarrow> be_bytes n (v :: 'a::len word) = be_bytes n w \<longleftrightarrow> v = w"
  by (simp add: be_bytes_def le_bytes_inject)

lemmas le_bytes_u64_inject [simp] = le_bytes_inject [where 'a = 64 and n = 8, simplified]
lemmas be_bytes_b256_inject [simp] = be_bytes_inject [where 'a = 256 and n = 32, simplified]

lemma append_inject_length:
  "length a = length c \<Longrightarrow> a @ b = c @ d \<longleftrightarrow> a = c \<and> b = d"
  by simp

text \<open>\<open>from_le_bytes\<close> of a 64-bit integer and the word of a 32-byte array.\<close>

definition from_le_bytes :: "bytes \<Rightarrow> u64" where
  "from_le_bytes bs = foldr (\<lambda>b acc. ucast b + 256 * acc) bs 0"

definition from_be_bytes :: "bytes \<Rightarrow> b256" where
  "from_be_bytes bs = foldl (\<lambda>acc b. 256 * acc + ucast b) 0 bs"

lemma le_bytes_Suc: "le_bytes (Suc n) w = ucast w # le_bytes n (drop_bit 8 w)"
  by (simp add: le_bytes_def upt_conv_Cons del: upt_Suc)
    (simp add: map_Suc_upt [symmetric] comp_def add.commute del: upt_Suc map_Suc_upt)

lemma join_byte:
  fixes w :: "'a::len word"
  shows "ucast (ucast w :: u8) + 256 * take_bit n (drop_bit 8 w) = take_bit (8 + n) w"
proof -
  let ?hi = "push_bit 8 (take_bit n (drop_bit 8 w))"
  have hi: "256 * take_bit n (drop_bit 8 w) = ?hi" by (simp add: push_bit_eq_mult)
  have lo: "(ucast (ucast w :: u8) :: 'a word) = take_bit 8 w"
    by (rule bit_word_eqI) (auto simp: bit_simps)
  have "and (take_bit 8 w) ?hi = 0" by (rule bit_word_eqI) (auto simp: bit_simps)
  then have "take_bit 8 w + ?hi = or (take_bit 8 w) ?hi" by (rule disjunctive_add_eq_or)
  also have "\<dots> = take_bit (8 + n) w" by (rule bit_word_eqI) (auto simp: bit_simps)
  finally show ?thesis by (simp add: hi lo)
qed

lemma fold_le_bytes:
  "foldr (\<lambda>b acc. ucast b + 256 * acc) (le_bytes n w) 0 = take_bit (8 * n) (w :: 'a::len word)"
proof (induction n arbitrary: w)
  case 0
  show ?case by (simp add: le_bytes_def)
next
  case (Suc n)
  show ?case unfolding le_bytes_Suc by (simp add: Suc join_byte)
qed

lemma from_le_bytes_le_bytes [simp]: "from_le_bytes (le_bytes 8 v) = v"
  unfolding from_le_bytes_def fold_le_bytes by (simp add: take_bit_word_eq_self)

lemma from_be_bytes_be_bytes [simp]: "from_be_bytes (be_bytes 32 h) = h"
proof -
  have "from_be_bytes (be_bytes 32 h) = foldr (\<lambda>b acc. ucast b + 256 * acc) (le_bytes 32 h) 0"
    by (simp add: from_be_bytes_def be_bytes_def foldl_conv_foldr add.commute)
  also have "\<dots> = h" unfolding fold_le_bytes by (simp add: take_bit_word_eq_self)
  finally show ?thesis .
qed

lemma from_le_bytes_zero [simp]: "from_le_bytes (replicate n 0) = 0"
  by (induction n) (simp_all add: from_le_bytes_def)

section \<open>Lists, association lists and finite sets\<close>

text \<open>Positions of the entries that satisfy a predicate, in increasing order.\<close>

definition positions :: "('a \<Rightarrow> bool) \<Rightarrow> 'a list \<Rightarrow> nat list" where
  "positions P xs = map fst (filter (\<lambda>p. P (snd p)) (zip [0..<length xs] xs))"

lemma set_positions: "set (positions P xs) = {i. i < length xs \<and> P (xs ! i)}"
  by (force simp: positions_def set_zip image_iff)

lemma distinct_positions: "distinct (positions P xs)"
  unfolding positions_def
  by (metis distinct_map_filter distinct_upt length_map map_fst_zip map_nth)

lemma length_positions: "length (positions P xs) = length (filter P xs)"
proof -
  have "length (positions P xs) = card {i. i < length xs \<and> P (xs ! i)}"
    using distinct_card [OF distinct_positions [of P xs]] by (simp add: set_positions)
  also have "\<dots> = length (filter P xs)"
    by (simp add: length_filter_conv_card)
  finally show ?thesis .
qed

lemma length_alist_update:
  "length (AList.update k v al) = (if k \<in> fst ` set al then length al else Suc (length al))"
  by (induction al) auto

lemma map_of_tabulate: "map_of (map (\<lambda>k. (k, f k)) ks) k = (if k \<in> set ks then Some (f k) else None)"
  by (induction ks) auto

lemma map_of_None_iff: "map_of al k = None \<longleftrightarrow> k \<notin> fst ` set al"
  by (rule map_of_eq_None_iff)

lemma card_inter_lower:
  assumes "finite U" and "A \<subseteq> U" and "B \<subseteq> U"
  shows "card A + card B \<le> card U + card (A \<inter> B)"
proof -
  have "finite A" and "finite B" using assms by (auto intro: finite_subset)
  then have "card A + card B = card (A \<union> B) + card (A \<inter> B)"
    by (rule card_Un_Int)
  moreover have "card (A \<union> B) \<le> card U"
    using assms by (simp add: card_mono)
  ultimately show ?thesis by linarith
qed

end
