(* ===== verification/N42_Messages.thy ===== *)
theory N42_Messages
  imports N42_Prelude
begin

text \<open>
  The consensus message types of \<^verbatim>\<open>n42-primitives/src/consensus/messages.rs\<close>, the packed
  bitmap codec of its \<^verbatim>\<open>packed_bits\<close> module, and the error types of
  \<^verbatim>\<open>n42-primitives/src/bls/keys.rs\<close> and \<^verbatim>\<open>n42-consensus/src/error.rs\<close>. Keys and signatures
  are the byte strings the sources compare them by; a signer bitmap is a list of bits, the
  first bit being the most significant one of the first byte (\<open>Msb0\<close>).
\<close>

section \<open>Keys, views, certificates\<close>

type_synonym secret_key = bytes
type_synonym public_key = bytes
type_synonym signature = bytes
type_synonym view_number = u64
type_synonym validator_index = u32

record quorum_certificate =
  qc_view :: view_number
  qc_block_hash :: b256
  qc_aggregate_signature :: signature
  qc_signers :: "bool list"

definition signer_count :: "quorum_certificate \<Rightarrow> nat" where
  "signer_count qc = length (filter (\<lambda>b. b) (qc_signers qc))"

record timeout_certificate =
  tc_view :: view_number
  tc_aggregate_signature :: signature
  tc_signers :: "bool list"
  tc_high_qc :: quorum_certificate

section \<open>Messages\<close>

datatype validator_change =
    Add address public_key "string option"
  | Remove address

record proposal =
  p_view :: view_number
  p_block_hash :: b256
  p_justify_qc :: quorum_certificate
  p_proposer :: validator_index
  p_signature :: signature
  p_prepare_qc :: "quorum_certificate option"
  p_tx_root_hash :: "b256 option"
  p_validator_changes :: "validator_change list option"

record vote =
  v_view :: view_number
  v_block_hash :: b256
  v_voter :: validator_index
  v_signature :: signature

record commit_vote =
  cv_view :: view_number
  cv_block_hash :: b256
  cv_voter :: validator_index
  cv_signature :: signature

record timeout_message =
  t_view :: view_number
  t_high_qc :: quorum_certificate
  t_sender :: validator_index
  t_signature :: signature

record new_view =
  nv_view :: view_number
  nv_timeout_cert :: timeout_certificate
  nv_leader :: validator_index
  nv_signature :: signature

record prepare_qc =
  pqc_view :: view_number
  pqc_block_hash :: b256
  pqc_qc :: quorum_certificate

record decide =
  d_view :: view_number
  d_block_hash :: b256
  d_commit_qc :: quorum_certificate
  d_validator_changes_hash :: b256

datatype consensus_message =
    MProposal proposal
  | MVote vote
  | MCommitVote commit_vote
  | MPrepareQC prepare_qc
  | MTimeout timeout_message
  | MNewView new_view
  | MDecide decide

fun message_view_of :: "consensus_message \<Rightarrow> view_number" where
  "message_view_of (MProposal p) = p_view p"
| "message_view_of (MVote v) = v_view v"
| "message_view_of (MCommitVote cv) = cv_view cv"
| "message_view_of (MPrepareQC pqc) = pqc_view pqc"
| "message_view_of (MTimeout t) = t_view t"
| "message_view_of (MNewView nv) = nv_view nv"
| "message_view_of (MDecide d) = d_view d"

section \<open>Packed signer bitmaps\<close>

text \<open>
  \<open>BitVec<u8, Msb0>\<close> stores bit \<open>k\<close> in byte \<open>k div 8\<close> under mask \<open>0x80 >> (k mod 8)\<close>.
  \<open>pack_byte\<close> is one such byte (missing trailing bits are zero), \<open>bits_of_byte\<close> reads it back,
  and \<open>as_raw_slice\<close> / \<open>from_vec\<close> do so for a whole vector.
\<close>

definition pack_byte :: "bool list \<Rightarrow> u8" where
  "pack_byte bs = foldl (\<lambda>acc i. acc + (if i < length bs \<and> bs ! i then 2 ^ (7 - i) else 0)) 0 [0..<8]"

definition bits_of_byte :: "u8 \<Rightarrow> bool list" where
  "bits_of_byte w = map (\<lambda>i. bit w (7 - i)) [0..<8]"

fun as_raw_slice :: "bool list \<Rightarrow> bytes" where
  "as_raw_slice [] = []"
| "as_raw_slice (b # bs) = pack_byte (take 8 (b # bs)) # as_raw_slice (drop 8 (b # bs))"

definition bits_from_vec :: "bytes \<Rightarrow> bool list" where
  "bits_from_vec ws = concat (map bits_of_byte ws)"

definition div_ceil :: "nat \<Rightarrow> nat \<Rightarrow> nat" where
  "div_ceil n d = n div d + (if n mod d = 0 then 0 else 1)"

datatype packed_bits_error = PackedBitsLength nat u16 nat

text \<open>\<open>packed_bits::serialize\<close>: the bit count, truncated to sixteen bits, and the raw bytes.\<close>

definition packed_serialize :: "bool list \<Rightarrow> u16 \<times> bytes" where
  "packed_serialize bv = (word_of_nat (length bv), as_raw_slice bv)"

text \<open>\<open>packed_bits::deserialize\<close>: the byte count must match the bit count; excess bits are cut.\<close>

definition packed_deserialize :: "u16 \<times> bytes \<Rightarrow> packed_bits_error + bool list" where
  "packed_deserialize p = (case p of (bit_count, raw_bytes) \<Rightarrow>
     let needed = div_ceil (unat bit_count) 8 in
     if length raw_bytes \<noteq> needed
     then Inl (PackedBitsLength needed bit_count (length raw_bytes))
     else Inr (take (unat bit_count) (bits_from_vec raw_bytes)))"

section \<open>Errors\<close>

text \<open>\<open>BLST_ERROR\<close> is the status code of the pairing library; zero is success.\<close>

type_synonym blst_error = nat

definition BLST_SUCCESS :: blst_error where "BLST_SUCCESS = 0"
definition BLST_BAD_ENCODING :: blst_error where "BLST_BAD_ENCODING = 1"

datatype bls_error =
    KeyGeneration
  | SigningFailed
  | RandomGenerationFailed
  | VerificationFailed blst_error
  | InvalidPublicKey
  | InvalidSignatureBytes
  | InvalidSecretKey
  | BlsBatchTooLarge nat nat

text \<open>The texts the sources put into \<open>InvalidQC\<close> and \<open>InvalidTC\<close>, one constructor per format string.\<close>

datatype cert_reason =
    SetSizeMismatch u32 u32
  | BitmapLengthMismatch nat nat
  | InsufficientSigners nat nat
  | AggregateVerificationFailed
  | CommitAggregateVerificationFailed
  | BothDomainsFailed
  | NoHighQC
  | SetUnavailable
  | BitmapNotAuthorized nat u32
  | GenesisRejected
  | TcViewNotPrevious u64 u64

datatype consensus_error =
    InvalidSignature view_number u32
  | InvalidProposer view_number u32 u32
  | InsufficientVotes view_number nat nat
  | ViewMismatch view_number view_number
  | DuplicateVote view_number u32
  | InvalidQC view_number cert_reason
  | InvalidTC view_number cert_reason
  | UnknownValidator u32 u32
  | SafetyViolation view_number view_number
  | BlockHashMismatch b256 b256
  | Bls bls_error
  | OutputChannelClosed
  | EpochScheduleEmpty
  | InvalidValidatorSetParams u32 u32 u32
  | LocalValidatorNotInSet u64
  | BatchTooLarge nat nat
  | InsufficientValidators nat nat
  | InsufficientQuorumOverlap nat nat
  | ValidatorAlreadyExists address
  | ValidatorNotFound address
  | ValidatorAlreadyPendingRemoval address
  | EpochTransitionAlreadyStaged
  | TooManyValidatorChanges nat nat
  | EpochsDisabled
  | H2V4ValidatorChangesUnsupported
  | InvalidValidatorPubkey u32
  | VoteLogFsync string

type_synonym 'a consensus_result = "(consensus_error, 'a) outcome"

section \<open>Round trip of the packed bitmap\<close>

lemma length_bits_of_byte [simp]: "length (bits_of_byte w) = 8"
  by (simp add: bits_of_byte_def)

lemma length_bits_from_vec [simp]: "length (bits_from_vec ws) = 8 * length ws"
  by (induction ws) (auto simp: bits_from_vec_def)

lemma bits_of_pack_byte_8:
  "bits_of_byte (pack_byte [a, b, c, d, e, f, g, h]) = [a, b, c, d, e, f, g, h]"
  by (cases a; cases b; cases c; cases d; cases e; cases f; cases g; cases h)
    (simp_all add: bits_of_byte_def pack_byte_def upt_rec)

lemma pack_byte_pad:
  assumes "length bs \<le> 8"
  shows "pack_byte bs = pack_byte (bs @ replicate (8 - length bs) False)"
proof -
  have "(i < length bs \<and> bs ! i) = (i < length (bs @ replicate (8 - length bs) False)
      \<and> (bs @ replicate (8 - length bs) False) ! i)" for i
    using assms by (auto simp: nth_append)
  then show ?thesis by (simp add: pack_byte_def)
qed

lemma list_of_8E:
  assumes "length xs = 8"
  obtains a b c d e f g h where "xs = [a, b, c, d, e, f, g, h]"
  using assms by (auto simp: length_Suc_conv numeral_eq_Suc)

lemma bits_of_pack_byte:
  assumes "length bs \<le> 8"
  shows "bits_of_byte (pack_byte bs) = bs @ replicate (8 - length bs) False"
proof -
  let ?cs = "bs @ replicate (8 - length bs) False"
  have "length ?cs = 8" using assms by simp
  then obtain a b c d e f g h where cs: "?cs = [a, b, c, d, e, f, g, h]"
    by (rule list_of_8E)
  show ?thesis
    using bits_of_pack_byte_8 [of a b c d e f g h] pack_byte_pad [OF assms] cs by simp
qed

lemma length_as_raw_slice: "length (as_raw_slice bs) = div_ceil (length bs) 8"
proof (induction bs rule: as_raw_slice.induct)
  case 1
  show ?case by (simp add: div_ceil_def)
next
  case (2 b bs)
  show ?case
  proof (cases "length bs < 8")
    case True
    then have "drop 8 (b # bs) = []" by simp
    moreover have "div_ceil (Suc (length bs)) 8 = 1"
      using True by (cases "length bs = 7") (auto simp: div_ceil_def)
    ultimately show ?thesis by simp
  next
    case False
    then have len: "length bs = (length bs - 7) + 7" by simp
    obtain m where m: "length bs = m + 7" by (rule that) (rule len)
    have "div_ceil (8 + m) 8 = Suc (div_ceil m 8)"
      by (simp add: div_ceil_def)
    with 2 m show ?thesis by simp
  qed
qed

lemma bits_from_raw_slice: "take (length bs) (bits_from_vec (as_raw_slice bs)) = bs"
proof (induction bs rule: as_raw_slice.induct)
  case 1
  show ?case by (simp add: bits_from_vec_def)
next
  case (2 b bs)
  let ?xs = "b # bs"
  have first: "bits_of_byte (pack_byte (take 8 ?xs))
      = take 8 ?xs @ replicate (8 - length (take 8 ?xs)) False"
    by (rule bits_of_pack_byte) simp
  have rest: "take (length (drop 8 ?xs)) (bits_from_vec (as_raw_slice (drop 8 ?xs))) = drop 8 ?xs"
    by (rule 2)
  have unfold: "bits_from_vec (as_raw_slice ?xs)
      = bits_of_byte (pack_byte (take 8 ?xs)) @ bits_from_vec (as_raw_slice (drop 8 ?xs))"
    by (simp add: bits_from_vec_def)
  show ?case
  proof (cases "length ?xs \<le> 8")
    case True
    then have all: "take 8 ?xs = ?xs" by simp
    show ?thesis
      using bits_of_pack_byte [of ?xs] True by (simp only: unfold all take_append) simp
  next
    case False
    then have len8: "length (take 8 ?xs) = 8" by simp
    then have first8: "bits_of_byte (pack_byte (take 8 ?xs)) = take 8 ?xs"
      using first by simp
    have "take (length ?xs) (bits_from_vec (as_raw_slice ?xs))
        = take 8 ?xs @ take (length (drop 8 ?xs)) (bits_from_vec (as_raw_slice (drop 8 ?xs)))"
      using False len8 by (simp only: unfold first8 take_append length_drop) simp
    also have "\<dots> = ?xs" by (simp only: rest append_take_drop_id)
    finally show ?thesis .
  qed
qed

lemma packed_bits_roundtrip_aux:
  assumes "length bv < 2 ^ 16"
  shows "packed_deserialize (packed_serialize bv) = Inr bv"
proof -
  have "unat (word_of_nat (length bv) :: u16) = length bv"
    using assms by (simp add: unat_of_nat)
  then show ?thesis
    by (simp add: packed_deserialize_def packed_serialize_def length_as_raw_slice
        bits_from_raw_slice)
qed

text \<open>
  C26. A signer bitmap of fewer than 65536 bits survives the packed wire encoding of
  \<^verbatim>\<open>packed_bits\<close>: deserializing what serializing produced gives the bitmap back.
\<close>

theorem packed_bits_roundtrip:
  assumes "length bv < 2 ^ 16"
  shows "packed_deserialize (packed_serialize bv) = Inr bv"
  using assms by (rule packed_bits_roundtrip_aux)

theorem packed_bits_roundtrip_witness:
  "packed_deserialize (packed_serialize [True, False, True]) = Inr [True, False, True]"
  by (rule packed_bits_roundtrip) simp

end
