(* ===== verification/N42_Bls.thy ===== *)
theory N42_Bls
  imports N42_Messages
begin

text \<open>
  The BLS wrappers of \<^verbatim>\<open>n42-primitives/src/bls\<close>. The pairing library (\<open>blst\<close>), the
  entropy source (\<open>getrandom\<close>), the hash function (\<open>blake3\<close>) and the serializer
  (\<open>bincode\<close>) are third-party code: they are the fields of the record \<open>ext_lib\<close>, an argument
  of every definition that calls them. What is modelled here is the code around them: which
  domain tag and which validation flag each entry point passes, the order of the checks of a
  batch, and the fallback that localizes the bad signatures of a failed batch.
\<close>

section \<open>The external libraries\<close>

record ext_lib =
  blst_key_gen :: "bytes \<Rightarrow> secret_key option"
  blst_sk_to_pk :: "secret_key \<Rightarrow> public_key"
  blst_sign :: "secret_key \<Rightarrow> bytes \<Rightarrow> bytes \<Rightarrow> signature"
  blst_pk_validate :: "public_key \<Rightarrow> blst_error"
  blst_verify :: "signature \<Rightarrow> bytes \<Rightarrow> bytes \<Rightarrow> public_key \<Rightarrow> bool \<Rightarrow> blst_error"
  blst_verify_multiple ::
    "bytes list \<Rightarrow> bytes \<Rightarrow> public_key list \<Rightarrow> signature list \<Rightarrow> u64 list \<Rightarrow> blst_error"
  blst_aggregate :: "signature list \<Rightarrow> signature option"
  blst_fast_aggregate_verify :: "signature \<Rightarrow> bytes \<Rightarrow> bytes \<Rightarrow> public_key list \<Rightarrow> blst_error"
  getrandom_u64 :: "nat \<Rightarrow> u64 option"
  blake3 :: "bytes \<Rightarrow> b256"
  bincode_changes :: "validator_change list \<Rightarrow> bytes"

section \<open>Keys (keys.rs)\<close>

definition DST :: bytes where
  "DST = ascii ''BLS_SIG_BLS12381G2_XMD:SHA-256_SSWU_RO_NUL_''"

definition H2_V4_DST :: bytes where
  "H2_V4_DST = ascii ''BLS_SIG_BLS12381G2_XMD:SHA-256_SSWU_RO_POP_''"

definition key_gen :: "ext_lib \<Rightarrow> bytes \<Rightarrow> (bls_error, secret_key) outcome" where
  "key_gen L ikm = (case blst_key_gen L ikm of None \<Rightarrow> Err KeyGeneration | Some sk \<Rightarrow> Ok sk)"

definition bls_public_key :: "ext_lib \<Rightarrow> secret_key \<Rightarrow> public_key" where
  "bls_public_key L sk = blst_sk_to_pk L sk"

definition bls_sign :: "ext_lib \<Rightarrow> secret_key \<Rightarrow> bytes \<Rightarrow> signature" where
  "bls_sign L sk message = blst_sign L sk message DST"

definition bls_sign_h2_v4 :: "ext_lib \<Rightarrow> secret_key \<Rightarrow> bytes \<Rightarrow> signature" where
  "bls_sign_h2_v4 L sk message = blst_sign L sk message H2_V4_DST"

definition bls_validate :: "ext_lib \<Rightarrow> public_key \<Rightarrow> (bls_error, unit) outcome" where
  "bls_validate L pk = (let e = blst_pk_validate L pk in
     if e = BLST_SUCCESS then Ok () else Err (VerificationFailed e))"

definition bls_verify :: "ext_lib \<Rightarrow> public_key \<Rightarrow> bytes \<Rightarrow> signature \<Rightarrow> (bls_error, unit) outcome" where
  "bls_verify L pk message sig = (let result = blst_verify L sig message DST pk True in
     if result \<noteq> BLST_SUCCESS then Err (VerificationFailed result) else Ok ())"

definition bls_verify_prevalidated ::
  "ext_lib \<Rightarrow> public_key \<Rightarrow> bytes \<Rightarrow> signature \<Rightarrow> (bls_error, unit) outcome" where
  "bls_verify_prevalidated L pk message sig = (let result = blst_verify L sig message DST pk False in
     if result \<noteq> BLST_SUCCESS then Err (VerificationFailed result) else Ok ())"

definition bls_verify_h2_v4_prevalidated ::
  "ext_lib \<Rightarrow> public_key \<Rightarrow> bytes \<Rightarrow> signature \<Rightarrow> (bls_error, unit) outcome" where
  "bls_verify_h2_v4_prevalidated L pk message sig =
     (let result = blst_verify L sig message H2_V4_DST pk False in
      if result \<noteq> BLST_SUCCESS then Err (VerificationFailed result) else Ok ())"

section \<open>Aggregation (aggregate.rs)\<close>

definition aggregate :: "ext_lib \<Rightarrow> signature list \<Rightarrow> (bls_error, signature) outcome" where
  "aggregate L signatures =
     (if signatures = [] then Err SigningFailed
      else case blst_aggregate L signatures of None \<Rightarrow> Err SigningFailed | Some agg \<Rightarrow> Ok agg)"

definition verify_aggregate ::
  "ext_lib \<Rightarrow> bytes \<Rightarrow> signature \<Rightarrow> public_key list \<Rightarrow> (bls_error, unit) outcome" where
  "verify_aggregate L message sig pks =
     (let result = blst_fast_aggregate_verify L sig message DST pks in
      if result \<noteq> BLST_SUCCESS then Err (VerificationFailed result) else Ok ())"

definition verify_h2_v4_aggregate ::
  "ext_lib \<Rightarrow> bytes \<Rightarrow> signature \<Rightarrow> public_key list \<Rightarrow> (bls_error, unit) outcome" where
  "verify_h2_v4_aggregate L message sig pks =
     (let result = blst_fast_aggregate_verify L sig message H2_V4_DST pks in
      if result \<noteq> BLST_SUCCESS then Err (VerificationFailed result) else Ok ())"

section \<open>Batch verification (verify.rs)\<close>

definition MAX_BATCH_SIZE :: nat where "MAX_BATCH_SIZE = 10000"

text \<open>A ciphersuite couples the domain tag with the matching single-signature check.\<close>

record ciphersuite =
  suite_dst :: bytes
  suite_verify_one :: "ext_lib \<Rightarrow> public_key \<Rightarrow> bytes \<Rightarrow> signature \<Rightarrow> (bls_error, unit) outcome"

definition NATIVE :: ciphersuite where
  "NATIVE = \<lparr> suite_dst = DST, suite_verify_one = bls_verify \<rparr>"

definition H2_V4 :: ciphersuite where
  "H2_V4 = \<lparr> suite_dst = H2_V4_DST, suite_verify_one = bls_verify_h2_v4_prevalidated \<rparr>"

text \<open>The random scalars of a batch: eight bytes of entropy each, zero replaced by one.\<close>

fun draw_scalars :: "(nat \<Rightarrow> u64 option) \<Rightarrow> nat \<Rightarrow> nat \<Rightarrow> (bls_error, u64 list) outcome" where
  "draw_scalars rnd i 0 = Ok []"
| "draw_scalars rnd i (Suc n) = (case rnd i of
     None \<Rightarrow> Err RandomGenerationFailed
   | Some val \<Rightarrow> bind_outcome (draw_scalars rnd (Suc i) n)
       (\<lambda>rest. Ok ((if val = 0 then 1 else val) # rest)))"

definition batch_verify_with_suite ::
  "ext_lib \<Rightarrow> bytes list \<Rightarrow> signature list \<Rightarrow> public_key list \<Rightarrow> ciphersuite
   \<Rightarrow> (bls_error, unit) outcome" where
  "batch_verify_with_suite L messages signatures public_keys suite =
     (if length messages \<noteq> length signatures \<or> length signatures \<noteq> length public_keys
      then Err (VerificationFailed BLST_BAD_ENCODING)
      else if length messages > MAX_BATCH_SIZE
      then Err (BlsBatchTooLarge (length messages) MAX_BATCH_SIZE)
      else if messages = [] then Ok ()
      else if length messages = 1
      then suite_verify_one suite L (public_keys ! 0) (messages ! 0) (signatures ! 0)
      else bind_outcome (draw_scalars (getrandom_u64 L) 0 (length messages)) (\<lambda>rands.
        let result = blst_verify_multiple L messages (suite_dst suite) public_keys signatures rands in
        if result \<noteq> BLST_SUCCESS then Err (VerificationFailed result) else Ok ()))"

text \<open>The positions whose signature fails its own check (the fallback loop).\<close>

definition bad_indices ::
  "ext_lib \<Rightarrow> bytes list \<Rightarrow> signature list \<Rightarrow> public_key list \<Rightarrow> ciphersuite \<Rightarrow> nat list" where
  "bad_indices L messages signatures public_keys suite =
     filter (\<lambda>i. \<not> is_ok (suite_verify_one suite L (public_keys ! i) (messages ! i) (signatures ! i)))
       [0..<length messages]"

definition batch_verify_with_fallback_suite ::
  "ext_lib \<Rightarrow> bytes list \<Rightarrow> signature list \<Rightarrow> public_key list \<Rightarrow> ciphersuite
   \<Rightarrow> (nat list, unit) outcome" where
  "batch_verify_with_fallback_suite L messages signatures public_keys suite =
     (if length messages \<noteq> length signatures \<or> length signatures \<noteq> length public_keys
      then Err [0..<length messages]
      else if length messages > MAX_BATCH_SIZE then Err [0..<length messages]
      else if messages = [] then Ok ()
      else if is_ok (batch_verify_with_suite L messages signatures public_keys suite) then Ok ()
      else (let bad = bad_indices L messages signatures public_keys suite in
            if bad = [] then Ok () else Err bad))"

definition batch_verify_with_fallback ::
  "ext_lib \<Rightarrow> bytes list \<Rightarrow> signature list \<Rightarrow> public_key list \<Rightarrow> (nat list, unit) outcome" where
  "batch_verify_with_fallback L messages signatures public_keys =
     batch_verify_with_fallback_suite L messages signatures public_keys NATIVE"

definition batch_verify_h2_v4_with_fallback ::
  "ext_lib \<Rightarrow> bytes list \<Rightarrow> signature list \<Rightarrow> public_key list \<Rightarrow> (nat list, unit) outcome" where
  "batch_verify_h2_v4_with_fallback L messages signatures public_keys =
     batch_verify_with_fallback_suite L messages signatures public_keys H2_V4"

text \<open>The positions a caller drops after a batch: \<open>.err().unwrap_or_default()\<close>.\<close>

fun rejected :: "(nat list, unit) outcome \<Rightarrow> nat list" where
  "rejected (Err bad) = bad"
| "rejected _ = []"

section \<open>What a batch accepts\<close>

text \<open>
  The documented contract of the randomized multi-pairing: it succeeds only when every
  signature of the batch verifies (the error probability of the random scalars is
  neglected), and a signature accepted with key validation is accepted without it.
\<close>

definition multi_pairing_sound :: "ext_lib \<Rightarrow> bool" where
  "multi_pairing_sound L \<longleftrightarrow>
     (\<forall>messages dst pks sigs rands.
        blst_verify_multiple L messages dst pks sigs rands = BLST_SUCCESS \<longrightarrow>
        (\<forall>i < length messages.
           blst_verify L (sigs ! i) (messages ! i) dst (pks ! i) False = BLST_SUCCESS))"

definition pk_validation_monotone :: "ext_lib \<Rightarrow> bool" where
  "pk_validation_monotone L \<longleftrightarrow>
     (\<forall>sig message dst pk.
        blst_verify L sig message dst pk True = BLST_SUCCESS \<longrightarrow>
        blst_verify L sig message dst pk False = BLST_SUCCESS)"

lemma suite_verify_one_prevalidated:
  assumes "pk_validation_monotone L" and "suite \<in> {NATIVE, H2_V4}"
    and "suite_verify_one suite L pk message sig = Ok ()"
  shows "blst_verify L sig message (suite_dst suite) pk False = BLST_SUCCESS"
  using assms
  by (auto simp: NATIVE_def H2_V4_def bls_verify_def bls_verify_h2_v4_prevalidated_def
      pk_validation_monotone_def Let_def split: if_splits)

lemma is_ok_unit: "is_ok r \<longleftrightarrow> r = Ok ()"
  by (cases r) auto

lemma batch_verify_with_suite_ok:
  assumes "multi_pairing_sound L" and "pk_validation_monotone L" and "suite \<in> {NATIVE, H2_V4}"
    and "batch_verify_with_suite L messages signatures public_keys suite = Ok ()"
    and "i < length messages"
  shows "blst_verify L (signatures ! i) (messages ! i) (suite_dst suite) (public_keys ! i) False
    = BLST_SUCCESS"
proof (cases "length messages = 1")
  case True
  with assms(5) have "i = 0" by simp
  with True assms show ?thesis
    by (auto simp: batch_verify_with_suite_def split: if_splits
        intro: suite_verify_one_prevalidated)
next
  case False
  with assms(4,5) show ?thesis
    using assms(1) unfolding multi_pairing_sound_def
    by (fastforce simp: batch_verify_with_suite_def Let_def split: if_splits
        elim!: bind_outcome_OkE)
qed

lemma not_rejected_verifies:
  assumes "multi_pairing_sound L" and "pk_validation_monotone L" and "suite \<in> {NATIVE, H2_V4}"
    and "i < length messages"
    and "i \<notin> set (rejected (batch_verify_with_fallback_suite L messages signatures public_keys suite))"
  shows "blst_verify L (signatures ! i) (messages ! i) (suite_dst suite) (public_keys ! i) False
    = BLST_SUCCESS"
proof -
  have len: "length messages = length signatures" "length signatures = length public_keys"
    "length messages \<le> MAX_BATCH_SIZE" "messages \<noteq> []"
    using assms(4,5) by (auto simp: batch_verify_with_fallback_suite_def split: if_splits)
  show ?thesis
  proof (cases "is_ok (batch_verify_with_suite L messages signatures public_keys suite)")
    case True
    with assms show ?thesis
      by (auto simp: is_ok_unit intro: batch_verify_with_suite_ok)
  next
    case False
    with len assms(4,5) have "i \<notin> set (bad_indices L messages signatures public_keys suite)"
      by (auto simp: batch_verify_with_fallback_suite_def Let_def split: if_splits)
    with assms(4) have "is_ok (suite_verify_one suite L (public_keys ! i) (messages ! i) (signatures ! i))"
      by (simp add: bad_indices_def)
    then show ?thesis
      using suite_verify_one_prevalidated [OF assms(2,3)] by (simp add: is_ok_unit)
  qed
qed

section \<open>An instance of the external libraries\<close>

text \<open>
  A concrete library under which the contracts above hold: a signature is the message it signs,
  and an aggregate is accepted for the messages that satisfy \<open>certifiable\<close>. It is used where a
  statement is evaluated on concrete data.
\<close>

definition toy_lib :: "(bytes \<Rightarrow> bool) \<Rightarrow> ext_lib" where
  "toy_lib certifiable = \<lparr> blst_key_gen = (\<lambda>ikm. Some ikm), blst_sk_to_pk = (\<lambda>sk. sk),
     blst_sign = (\<lambda>sk m dst. m), blst_pk_validate = (\<lambda>pk. BLST_SUCCESS),
     blst_verify = (\<lambda>sig m dst pk v. if sig = m then BLST_SUCCESS else BLST_BAD_ENCODING),
     blst_verify_multiple = (\<lambda>ms dst pks sigs rs. if sigs = ms then BLST_SUCCESS else BLST_BAD_ENCODING),
     blst_aggregate = (\<lambda>sigs. case sigs of [] \<Rightarrow> None | x # xs \<Rightarrow> Some x),
     blst_fast_aggregate_verify =
       (\<lambda>sig m dst pks. if certifiable m then BLST_SUCCESS else BLST_BAD_ENCODING),
     getrandom_u64 = (\<lambda>i. Some 7), blake3 = (\<lambda>m. 5), bincode_changes = (\<lambda>cs. []) \<rparr>"

lemma blst_codes_differ [simp]: "BLST_BAD_ENCODING \<noteq> BLST_SUCCESS"
  by (simp add: BLST_SUCCESS_def BLST_BAD_ENCODING_def)

lemma toy_lib_facts [simp]:
  "blst_sk_to_pk (toy_lib P) sk = sk" "blst_key_gen (toy_lib P) ikm = Some ikm"
  "blst_sign (toy_lib P) sk m dst = m" "blst_pk_validate (toy_lib P) pk = BLST_SUCCESS"
  "blst_verify (toy_lib P) sig m dst pk f = BLST_SUCCESS \<longleftrightarrow> sig = m"
  "blst_verify_multiple (toy_lib P) ms dst pks sigs rs = BLST_SUCCESS \<longleftrightarrow> sigs = ms"
  "blst_aggregate (toy_lib P) (x # xs) = Some x"
  "blst_fast_aggregate_verify (toy_lib P) sig m dst pks = BLST_SUCCESS \<longleftrightarrow> P m"
  "blake3 (toy_lib P) m = 5" "bincode_changes (toy_lib P) cs = []"
  by (simp_all add: toy_lib_def)

lemma toy_lib_contracts: "multi_pairing_sound (toy_lib P)" "pk_validation_monotone (toy_lib P)"
  by (simp_all add: multi_pairing_sound_def pk_validation_monotone_def)

end
