(* ===== verification/N42_Signing.thy ===== *)
theory N42_Signing
  imports N42_Bls
begin

text \<open>
  The signed bytes of every consensus message: the chain-bound domains of
  \<^verbatim>\<open>n42-primitives/src/consensus/h2_v4.rs\<close>, the native and gov5-legacy domains of
  \<^verbatim>\<open>n42-consensus/src/protocol/quorum.rs\<close>, and the profile that selects one of the three. The
  lemmas show that the encodings are injective and that the domains of one profile are
  disjoint, which is what every argument from a signature back to its message rests on.
\<close>

section \<open>Chain-bound domains (h2\_v4.rs)\<close>

record h2_v4_chain_identity =
  chain_id :: u64
  genesis_hash :: b256

datatype h2_phase = HProposal | HVote | HCommit | HTimeout | HNewView

fun h2_phase_byte :: "h2_phase \<Rightarrow> u8" where
  "h2_phase_byte HProposal = 1"
| "h2_phase_byte HVote = 2"
| "h2_phase_byte HCommit = 3"
| "h2_phase_byte HTimeout = 4"
| "h2_phase_byte HNewView = 5"

definition h2_base :: "h2_v4_chain_identity \<Rightarrow> h2_phase \<Rightarrow> u64 \<Rightarrow> bytes" where
  "h2_base identity phase view = ascii ''N42H2V4'' @ [h2_phase_byte phase]
     @ le_bytes 8 (chain_id identity) @ be_bytes 32 (genesis_hash identity) @ le_bytes 8 view"

definition h2_v4_proposal_signing_message ::
  "h2_v4_chain_identity \<Rightarrow> u64 \<Rightarrow> b256 \<Rightarrow> b256 \<Rightarrow> bytes" where
  "h2_v4_proposal_signing_message identity view block_hash changes_hash =
     h2_base identity HProposal view @ be_bytes 32 block_hash @ be_bytes 32 changes_hash"

definition h2_v4_vote_signing_message :: "h2_v4_chain_identity \<Rightarrow> u64 \<Rightarrow> b256 \<Rightarrow> bytes" where
  "h2_v4_vote_signing_message identity view block_hash =
     h2_base identity HVote view @ be_bytes 32 block_hash"

definition h2_v4_commit_signing_message ::
  "h2_v4_chain_identity \<Rightarrow> u64 \<Rightarrow> b256 \<Rightarrow> b256 \<Rightarrow> bytes" where
  "h2_v4_commit_signing_message identity view block_hash changes_hash =
     h2_base identity HCommit view @ be_bytes 32 block_hash @ be_bytes 32 changes_hash"

definition h2_v4_timeout_signing_message :: "h2_v4_chain_identity \<Rightarrow> u64 \<Rightarrow> bytes" where
  "h2_v4_timeout_signing_message identity view = h2_base identity HTimeout view"

definition h2_v4_new_view_signing_message :: "h2_v4_chain_identity \<Rightarrow> u64 \<Rightarrow> bytes" where
  "h2_v4_new_view_signing_message identity view = h2_base identity HNewView view"

section \<open>Native and gov5-legacy domains (quorum.rs)\<close>

definition signing_message :: "view_number \<Rightarrow> b256 \<Rightarrow> bytes" where
  "signing_message view block_hash = le_bytes 8 view @ be_bytes 32 block_hash"

definition hash_changes :: "ext_lib \<Rightarrow> validator_change list \<Rightarrow> b256" where
  "hash_changes L changes = (if changes = [] then 0 else blake3 L (bincode_changes L changes))"

definition validator_changes_hash :: "ext_lib \<Rightarrow> validator_change list option \<Rightarrow> b256" where
  "validator_changes_hash L changes = (case changes of
     Some cs \<Rightarrow> if cs \<noteq> [] then blake3 L (bincode_changes L cs) else 0
   | None \<Rightarrow> 0)"

definition proposal_signing_message ::
  "ext_lib \<Rightarrow> view_number \<Rightarrow> b256 \<Rightarrow> validator_change list option \<Rightarrow> bytes" where
  "proposal_signing_message L view block_hash changes =
     le_bytes 8 view @ be_bytes 32 block_hash @ be_bytes 32 (validator_changes_hash L changes)"

definition commit_signing_message :: "view_number \<Rightarrow> b256 \<Rightarrow> b256 \<Rightarrow> bytes" where
  "commit_signing_message view block_hash changes_hash =
     ascii ''commit'' @ le_bytes 8 view @ be_bytes 32 block_hash @ be_bytes 32 changes_hash"

definition timeout_signing_message :: "view_number \<Rightarrow> bytes" where
  "timeout_signing_message view = ascii ''timeout'' @ le_bytes 8 view"

definition newview_signing_message :: "view_number \<Rightarrow> bytes" where
  "newview_signing_message view = ascii ''newview'' @ le_bytes 8 view"

definition gov5_legacy_signing_message :: "view_number \<Rightarrow> b256 \<Rightarrow> bytes" where
  "gov5_legacy_signing_message view block_hash = signing_message view block_hash"

definition gov5_legacy_commit_signing_message :: "view_number \<Rightarrow> b256 \<Rightarrow> bytes" where
  "gov5_legacy_commit_signing_message view block_hash =
     ascii ''commit'' @ le_bytes 8 view @ be_bytes 32 block_hash"

section \<open>The signing profile (quorum.rs)\<close>

datatype signing_profile = Native | H2V4 h2_v4_chain_identity | Gov5Legacy

fun is_gov5 :: "signing_profile \<Rightarrow> bool" where
  "is_gov5 Native = False"
| "is_gov5 (H2V4 identity) = True"
| "is_gov5 Gov5Legacy = True"

fun proposal_message ::
  "ext_lib \<Rightarrow> signing_profile \<Rightarrow> view_number \<Rightarrow> b256 \<Rightarrow> validator_change list option \<Rightarrow> bytes" where
  "proposal_message L Native view block_hash changes =
     proposal_signing_message L view block_hash changes"
| "proposal_message L (H2V4 identity) view block_hash changes =
     h2_v4_proposal_signing_message identity view block_hash 0"
| "proposal_message L Gov5Legacy view block_hash changes =
     gov5_legacy_signing_message view block_hash"

fun vote_message :: "signing_profile \<Rightarrow> view_number \<Rightarrow> b256 \<Rightarrow> bytes" where
  "vote_message Native view block_hash = signing_message view block_hash"
| "vote_message (H2V4 identity) view block_hash = h2_v4_vote_signing_message identity view block_hash"
| "vote_message Gov5Legacy view block_hash = gov5_legacy_signing_message view block_hash"

fun commit_message :: "signing_profile \<Rightarrow> view_number \<Rightarrow> b256 \<Rightarrow> b256 \<Rightarrow> bytes" where
  "commit_message Native view block_hash changes_hash =
     commit_signing_message view block_hash changes_hash"
| "commit_message (H2V4 identity) view block_hash changes_hash =
     h2_v4_commit_signing_message identity view block_hash 0"
| "commit_message Gov5Legacy view block_hash changes_hash =
     gov5_legacy_commit_signing_message view block_hash"

fun timeout_msg_bytes :: "signing_profile \<Rightarrow> view_number \<Rightarrow> bytes" where
  "timeout_msg_bytes Native view = timeout_signing_message view"
| "timeout_msg_bytes Gov5Legacy view = timeout_signing_message view"
| "timeout_msg_bytes (H2V4 identity) view = h2_v4_timeout_signing_message identity view"

fun new_view_msg_bytes :: "signing_profile \<Rightarrow> view_number \<Rightarrow> bytes" where
  "new_view_msg_bytes Native view = newview_signing_message view"
| "new_view_msg_bytes Gov5Legacy view = newview_signing_message view"
| "new_view_msg_bytes (H2V4 identity) view = h2_v4_new_view_signing_message identity view"

fun profile_sign :: "ext_lib \<Rightarrow> signing_profile \<Rightarrow> secret_key \<Rightarrow> bytes \<Rightarrow> signature" where
  "profile_sign L Native sk message = bls_sign L sk message"
| "profile_sign L (H2V4 identity) sk message = bls_sign_h2_v4 L sk message"
| "profile_sign L Gov5Legacy sk message = bls_sign_h2_v4 L sk message"

fun verify_single :: "ext_lib \<Rightarrow> signing_profile \<Rightarrow> public_key \<Rightarrow> bytes \<Rightarrow> signature \<Rightarrow> bool" where
  "verify_single L Native pk message sig = is_ok (bls_verify_prevalidated L pk message sig)"
| "verify_single L (H2V4 identity) pk message sig = is_ok (bls_verify_h2_v4_prevalidated L pk message sig)"
| "verify_single L Gov5Legacy pk message sig = is_ok (bls_verify_h2_v4_prevalidated L pk message sig)"

fun profile_batch_verify ::
  "ext_lib \<Rightarrow> signing_profile \<Rightarrow> bytes list \<Rightarrow> signature list \<Rightarrow> public_key list
   \<Rightarrow> (nat list, unit) outcome" where
  "profile_batch_verify L Native messages signatures public_keys =
     batch_verify_with_fallback L messages signatures public_keys"
| "profile_batch_verify L (H2V4 identity) messages signatures public_keys =
     batch_verify_h2_v4_with_fallback L messages signatures public_keys"
| "profile_batch_verify L Gov5Legacy messages signatures public_keys =
     batch_verify_h2_v4_with_fallback L messages signatures public_keys"

fun profile_verify_aggregate ::
  "ext_lib \<Rightarrow> signing_profile \<Rightarrow> bytes \<Rightarrow> signature \<Rightarrow> public_key list \<Rightarrow> bool" where
  "profile_verify_aggregate L Native message sig pks = is_ok (verify_aggregate L message sig pks)"
| "profile_verify_aggregate L (H2V4 identity) message sig pks =
     is_ok (verify_h2_v4_aggregate L message sig pks)"
| "profile_verify_aggregate L Gov5Legacy message sig pks =
     is_ok (verify_h2_v4_aggregate L message sig pks)"

section \<open>Injectivity and domain separation\<close>

lemma h2_phase_byte_inject [simp]: "h2_phase_byte p = h2_phase_byte q \<longleftrightarrow> p = q"
  by (cases p; cases q) simp_all

lemma length_h2_base [simp]: "length (h2_base identity phase view) = 56"
  by (simp add: h2_base_def)

lemma h2_base_inject [simp]:
  "h2_base i p v = h2_base j q w \<longleftrightarrow>
     p = q \<and> chain_id i = chain_id j \<and> genesis_hash i = genesis_hash j \<and> v = w"
  by (auto simp: h2_base_def)

lemmas signing_defs =
  signing_message_def commit_signing_message_def timeout_signing_message_def
  newview_signing_message_def proposal_signing_message_def gov5_legacy_signing_message_def
  gov5_legacy_commit_signing_message_def h2_v4_proposal_signing_message_def
  h2_v4_vote_signing_message_def h2_v4_commit_signing_message_def
  h2_v4_timeout_signing_message_def h2_v4_new_view_signing_message_def

lemma vote_message_inject [simp]:
  "vote_message pr v b = vote_message pr w c \<longleftrightarrow> v = w \<and> b = c"
  by (cases pr) (auto simp: signing_defs)

lemma commit_message_inject:
  "commit_message pr v b h = commit_message pr w c k \<longleftrightarrow>
     v = w \<and> b = c \<and> (pr = Native \<longrightarrow> h = k)"
  by (cases pr) (auto simp: signing_defs)

lemma timeout_msg_inject [simp]: "timeout_msg_bytes pr v = timeout_msg_bytes pr w \<longleftrightarrow> v = w"
  by (cases pr) (auto simp: signing_defs)

lemma new_view_msg_inject [simp]: "new_view_msg_bytes pr v = new_view_msg_bytes pr w \<longleftrightarrow> v = w"
  by (cases pr) (auto simp: signing_defs)

lemma differ_by_length: "length a \<noteq> length b \<Longrightarrow> a \<noteq> b"
  by auto

lemma vote_neq_commit [simp]: "vote_message pr v b \<noteq> commit_message pr w c k"
  by (cases pr) (auto simp: signing_defs intro!: differ_by_length)

lemma vote_neq_timeout [simp]: "vote_message pr v b \<noteq> timeout_msg_bytes pr w"
  by (cases pr) (auto simp: signing_defs intro!: differ_by_length)

lemma vote_neq_new_view [simp]: "vote_message pr v b \<noteq> new_view_msg_bytes pr w"
  by (cases pr) (auto simp: signing_defs intro!: differ_by_length)

lemma commit_neq_timeout [simp]: "commit_message pr w c k \<noteq> timeout_msg_bytes pr v"
  by (cases pr) (auto simp: signing_defs intro!: differ_by_length)

lemma commit_neq_new_view [simp]: "commit_message pr w c k \<noteq> new_view_msg_bytes pr v"
  by (cases pr) (auto simp: signing_defs intro!: differ_by_length)

lemma timeout_neq_new_view [simp]: "timeout_msg_bytes pr v \<noteq> new_view_msg_bytes pr w"
  by (cases pr) (auto simp: signing_defs ascii_def)

lemma proposal_neq_commit [simp]: "proposal_message L pr v b cs \<noteq> commit_message pr w c k"
  by (cases pr) (auto simp: signing_defs intro!: differ_by_length)

lemma proposal_neq_timeout [simp]: "proposal_message L pr v b cs \<noteq> timeout_msg_bytes pr w"
  by (cases pr) (auto simp: signing_defs intro!: differ_by_length)

lemma proposal_neq_new_view [simp]: "proposal_message L pr v b cs \<noteq> new_view_msg_bytes pr w"
  by (cases pr) (auto simp: signing_defs intro!: differ_by_length)

lemma proposal_eq_vote_iff:
  "proposal_message L pr v b cs = vote_message pr w c \<longleftrightarrow> pr = Gov5Legacy \<and> v = w \<and> b = c"
proof (cases pr)
  case Native
  then show ?thesis by (auto simp: signing_defs dest!: arg_cong [where f = length])
next
  case (H2V4 identity)
  then show ?thesis by (auto simp: signing_defs dest!: arg_cong [where f = length])
next
  case Gov5Legacy
  then show ?thesis by (auto simp: signing_defs)
qed


end
