(* ===== verification/N42_Validators.thy ===== *)
theory N42_Validators
  imports N42_Bls
begin

text \<open>
  The validator set and the leader rotation of \<^verbatim>\<open>n42-consensus/src/validator/set.rs\<close> and
  \<^verbatim>\<open>selection.rs\<close>, with the interface the certificates rely on: any two quorums of a
  well-formed set share a validator that is not faulty.
\<close>

section \<open>Definitions\<close>

record validator_info =
  vi_address :: address
  vi_bls_public_key :: public_key
  vi_p2p_peer_id :: "string option"

record validator_entry =
  ve_address :: address
  ve_public_key :: public_key
  ve_p2p_peer_id :: "string option"

record validator_set =
  validators :: "validator_entry list"
  fault_tolerance :: u32

definition max_fault_tolerance_for_len :: "nat \<Rightarrow> u32" where
  "max_fault_tolerance_for_len len = saturating_sub (word_of_nat len) 1 div 3"

definition validate_params :: "nat \<Rightarrow> u32 \<Rightarrow> unit consensus_result" where
  "validate_params validator_count f =
     (let max_f = max_fault_tolerance_for_len validator_count in
      if f > max_f then Err (InvalidValidatorSetParams (word_of_nat validator_count) f max_f)
      else Ok ())"

text \<open>The loop of \<open>try_new\<close>: every key is validated once, in index order.\<close>

fun validate_entries ::
  "ext_lib \<Rightarrow> nat \<Rightarrow> validator_info list \<Rightarrow> validator_entry list consensus_result" where
  "validate_entries L index [] = Ok []"
| "validate_entries L index (v # vs) =
     (if is_ok (bls_validate L (vi_bls_public_key v))
      then bind_outcome (validate_entries L (Suc index) vs) (\<lambda>entries.
        Ok (\<lparr> ve_address = vi_address v, ve_public_key = vi_bls_public_key v,
              ve_p2p_peer_id = vi_p2p_peer_id v \<rparr> # entries))
      else Err (InvalidValidatorPubkey (word_of_nat index)))"

definition vset_try_new :: "ext_lib \<Rightarrow> validator_info list \<Rightarrow> u32 \<Rightarrow> validator_set consensus_result" where
  "vset_try_new L infos f =
     bind_outcome (validate_params (length infos) f) (\<lambda>_.
       bind_outcome (validate_entries L 0 infos) (\<lambda>entries.
         Ok \<lparr> validators = entries, fault_tolerance = f \<rparr>))"

text \<open>\<open>ValidatorSet::new\<close> panics where \<open>try_new\<close> fails.\<close>

definition vset_new :: "ext_lib \<Rightarrow> validator_info list \<Rightarrow> u32 \<Rightarrow> validator_set consensus_result" where
  "vset_new L infos f = (case vset_try_new L infos f of Ok s \<Rightarrow> Ok s | _ \<Rightarrow> Panic)"

definition vset_len :: "validator_set \<Rightarrow> u32" where
  "vset_len vs = word_of_nat (length (validators vs))"

definition vset_is_empty :: "validator_set \<Rightarrow> bool" where
  "vset_is_empty vs \<longleftrightarrow> validators vs = []"

definition quorum_size :: "validator_set \<Rightarrow> nat" where
  "quorum_size vs = length (validators vs) - unat (fault_tolerance vs)"

definition validator_infos :: "validator_set \<Rightarrow> validator_info list" where
  "validator_infos vs = map (\<lambda>e. \<lparr> vi_address = ve_address e, vi_bls_public_key = ve_public_key e,
     vi_p2p_peer_id = ve_p2p_peer_id e \<rparr>) (validators vs)"

definition get_public_key :: "validator_set \<Rightarrow> u32 \<Rightarrow> public_key consensus_result" where
  "get_public_key vs index =
     (if unat index < length (validators vs) then Ok (ve_public_key (validators vs ! unat index))
      else Err (UnknownValidator index (vset_len vs)))"

definition get_address :: "validator_set \<Rightarrow> u32 \<Rightarrow> address consensus_result" where
  "get_address vs index =
     (if unat index < length (validators vs) then Ok (ve_address (validators vs ! unat index))
      else Err (UnknownValidator index (vset_len vs)))"

text \<open>Position of the first entry that satisfies a predicate (\<open>Iterator::position\<close>).\<close>

fun position_from :: "nat \<Rightarrow> ('a \<Rightarrow> bool) \<Rightarrow> 'a list \<Rightarrow> nat option" where
  "position_from i P [] = None"
| "position_from i P (x # xs) = (if P x then Some i else position_from (Suc i) P xs)"

definition index_of_public_key :: "validator_set \<Rightarrow> public_key \<Rightarrow> u32 option" where
  "index_of_public_key vs pk =
     map_option word_of_nat (position_from 0 (\<lambda>e. ve_public_key e = pk) (validators vs))"

definition vset_contains :: "validator_set \<Rightarrow> u32 \<Rightarrow> bool" where
  "vset_contains vs index \<longleftrightarrow> unat index < length (validators vs)"

definition contains_address :: "validator_set \<Rightarrow> address \<Rightarrow> bool" where
  "contains_address vs addr \<longleftrightarrow> list_ex (\<lambda>v. ve_address v = addr) (validators vs)"

definition all_public_keys :: "validator_set \<Rightarrow> public_key list" where
  "all_public_keys vs = map ve_public_key (validators vs)"

fun public_keys_for_signers :: "validator_set \<Rightarrow> u32 list \<Rightarrow> public_key list consensus_result" where
  "public_keys_for_signers vs [] = Ok []"
| "public_keys_for_signers vs (idx # idxs) =
     bind_outcome (get_public_key vs idx) (\<lambda>pk.
       bind_outcome (public_keys_for_signers vs idxs) (\<lambda>pks. Ok (pk # pks)))"

section \<open>Leader selection (selection.rs)\<close>

text \<open>
  The rotation panics on an empty set (the explicit assertion) and on a set whose length is
  zero as a \<open>u32\<close> (the remainder by zero).
\<close>

definition leader_for_view :: "view_number \<Rightarrow> validator_set \<Rightarrow> u32 consensus_result" where
  "leader_for_view view vs =
     (if vset_is_empty vs then Panic
      else if vset_len vs = 0 then Panic
      else Ok (ucast (view mod ucast (vset_len vs))))"

definition is_leader :: "u32 \<Rightarrow> view_number \<Rightarrow> validator_set \<Rightarrow> bool consensus_result" where
  "is_leader validator_index view vs =
     bind_outcome (leader_for_view view vs) (\<lambda>l. Ok (l = validator_index))"

section \<open>Quorum systems\<close>

text \<open>
  The contract of a family of quorum systems: each well-formed system has finitely many
  members, tolerates a number of faults below a third of them, and every quorum misses at most
  that many members. Two quorums of one system then meet outside any tolerated set of faults.
\<close>

locale quorum_systems =
  fixes wf :: "'s \<Rightarrow> bool"
    and members :: "'s \<Rightarrow> 'v set"
    and tolerance :: "'s \<Rightarrow> nat"
    and quorum :: "'s \<Rightarrow> 'v set \<Rightarrow> bool"
  assumes finite_members: "wf s \<Longrightarrow> finite (members s)"
    and third: "wf s \<Longrightarrow> 3 * tolerance s < card (members s)"
    and quorum_members: "wf s \<Longrightarrow> quorum s Q \<Longrightarrow> Q \<subseteq> members s"
    and quorum_card: "wf s \<Longrightarrow> quorum s Q \<Longrightarrow> card (members s) \<le> card Q + tolerance s"
begin

lemma quorums_overlap:
  assumes "wf s" and "quorum s Q" and "quorum s R"
  shows "tolerance s < card (Q \<inter> R)"
proof -
  have "card Q + card R \<le> card (members s) + card (Q \<inter> R)"
    using assms by (intro card_inter_lower finite_members quorum_members)
  moreover have "card (members s) \<le> card Q + tolerance s"
    and "card (members s) \<le> card R + tolerance s"
    using assms by (auto intro: quorum_card)
  moreover have "3 * tolerance s < card (members s)" using assms(1) by (rule third)
  ultimately show ?thesis by linarith
qed

lemma quorums_share_correct:
  assumes "wf s" and "quorum s Q" and "quorum s R"
    and "finite F" and "card F \<le> tolerance s"
  obtains i where "i \<in> Q" and "i \<in> R" and "i \<notin> F"
proof -
  have "card F < card (Q \<inter> R)"
    using quorums_overlap [OF assms(1-3)] assms(5) by linarith
  then have "\<not> Q \<inter> R \<subseteq> F"
    using assms(4) by (meson card_mono not_less)
  then show thesis using that by blast
qed

lemma quorum_has_correct:
  assumes "wf s" and "quorum s Q" and "finite F" and "card F \<le> tolerance s"
  obtains i where "i \<in> Q" and "i \<notin> F"
  using quorums_share_correct [OF assms(1,2,2) assms(3,4)] that by blast

text \<open>Two values certified by quorums agree when no correct member supports both.\<close>

lemma unique_certified:
  assumes "wf s" and "finite F" and "card F \<le> tolerance s"
    and "quorum s {i \<in> members s. supports i x}" and "quorum s {i \<in> members s. supports i y}"
    and "\<And>i. i \<notin> F \<Longrightarrow> supports i x \<Longrightarrow> supports i y \<Longrightarrow> x = y"
  shows "x = y"
  using quorums_share_correct [OF assms(1,4,5,2,3)] assms(6) by blast

end

section \<open>The validator set is such a family\<close>

definition vset_wf :: "validator_set \<Rightarrow> bool" where
  "vset_wf vs \<longleftrightarrow> validators vs \<noteq> [] \<and> 3 * unat (fault_tolerance vs) < length (validators vs)"

definition vset_members :: "validator_set \<Rightarrow> nat set" where
  "vset_members vs = {..<length (validators vs)}"

definition vset_tolerance :: "validator_set \<Rightarrow> nat" where
  "vset_tolerance vs = unat (fault_tolerance vs)"

definition vset_quorum :: "validator_set \<Rightarrow> nat set \<Rightarrow> bool" where
  "vset_quorum vs Q \<longleftrightarrow> Q \<subseteq> vset_members vs \<and> quorum_size vs \<le> card Q"

interpretation vset: quorum_systems vset_wf vset_members vset_tolerance vset_quorum
  by unfold_locales
    (auto simp: vset_wf_def vset_members_def vset_tolerance_def vset_quorum_def quorum_size_def)

lemma validate_params_ok: "validate_params n f = Ok () \<longleftrightarrow> f \<le> max_fault_tolerance_for_len n"
  by (auto simp: validate_params_def Let_def not_less split: if_splits)

lemma unat_max_fault_tolerance: "unat (max_fault_tolerance_for_len n) = (n mod 2 ^ 32 - 1) div 3"
  by (simp add: max_fault_tolerance_for_len_def unat_div unat_saturating_sub unat_of_nat)

lemma validate_entries_ok:
  "validate_entries L i vs = Ok es \<Longrightarrow>
     length es = length vs \<and> map ve_public_key es = map vi_bls_public_key vs \<and>
     map ve_address es = map vi_address vs \<and> map ve_p2p_peer_id es = map vi_p2p_peer_id vs \<and>
     (\<forall>e \<in> set es. blst_pk_validate L (ve_public_key e) = BLST_SUCCESS)"
proof (induction vs arbitrary: i es)
  case Nil
  then show ?case by simp
next
  case (Cons v vs)
  then show ?case
    by (fastforce simp: bls_validate_def Let_def split: if_splits elim!: bind_outcome_OkE)
qed

lemma vset_try_new_shape:
  assumes "vset_try_new L infos f = Ok vs"
  shows "length (validators vs) = length infos" and "fault_tolerance vs = f"
    and "map ve_public_key (validators vs) = map vi_bls_public_key infos"
    and "map ve_address (validators vs) = map vi_address infos"
    and "map ve_p2p_peer_id (validators vs) = map vi_p2p_peer_id infos"
    and "\<And>e. e \<in> set (validators vs) \<Longrightarrow> blst_pk_validate L (ve_public_key e) = BLST_SUCCESS"
    and "f \<le> max_fault_tolerance_for_len (length infos)"
  using assms
  by (auto simp: vset_try_new_def validate_params_ok elim!: bind_outcome_OkE
      dest!: validate_entries_ok)

lemma vset_try_new_wf:
  assumes new: "vset_try_new L infos f = Ok vs" and ne: "infos \<noteq> []"
  shows "vset_wf vs"
proof -
  have "unat f \<le> (length infos mod 2 ^ 32 - 1) div 3"
    using vset_try_new_shape(7) [OF new] by (simp add: word_le_nat_alt unat_max_fault_tolerance)
  also have "\<dots> \<le> (length infos - 1) div 3"
    by (intro div_le_mono diff_le_mono) simp
  finally have "3 * unat f < length infos"
    using ne by (cases infos) auto
  then show ?thesis
    using vset_try_new_shape(1,2) [OF new] ne by (auto simp: vset_wf_def)
qed

lemma position_from_Some:
  "position_from i P xs = Some j \<Longrightarrow> i \<le> j \<and> j - i < length xs \<and> P (xs ! (j - i))"
proof (induction xs arbitrary: i)
  case Nil
  then show ?case by simp
next
  case (Cons x xs)
  then show ?case
    by (auto split: if_splits dest!: Cons.IH simp: nth_Cons' Suc_diff_le)
qed

lemma position_from_None: "position_from i P xs = None \<longleftrightarrow> (\<forall>x \<in> set xs. \<not> P x)"
  by (induction xs arbitrary: i) auto

lemma index_of_public_key_Some:
  assumes "index_of_public_key vs pk = Some i" and "length (validators vs) < 2 ^ 32"
  shows "get_public_key vs i = Ok pk"
proof -
  obtain j where j: "position_from 0 (\<lambda>e. ve_public_key e = pk) (validators vs) = Some j"
    and i: "i = word_of_nat j"
    using assms(1) by (auto simp: index_of_public_key_def)
  from position_from_Some [OF j] have "j < length (validators vs)"
    and "ve_public_key (validators vs ! j) = pk" by simp_all
  moreover from this(1) assms(2) have "unat i = j" by (simp add: i unat_of_nat)
  ultimately show ?thesis by (simp add: get_public_key_def)
qed

lemma index_of_public_key_nonempty: "index_of_public_key vs pk = Some i \<Longrightarrow> validators vs \<noteq> []"
  by (auto simp: index_of_public_key_def)

lemma leader_for_view_Ok:
  assumes "validators vs \<noteq> []" and "length (validators vs) < 2 ^ 32"
  shows "leader_for_view view vs = Ok (word_of_nat (unat view mod length (validators vs)))"
proof -
  let ?n = "length (validators vs)"
  have n: "unat (vset_len vs) = ?n" using assms(2) by (simp add: vset_len_def unat_of_nat)
  have "0 < ?n" using assms(1) by simp
  then have nz: "vset_len vs \<noteq> 0" using n by auto
  have "unat (ucast (vset_len vs) :: u64) = ?n"
    using n assms(2) by (simp add: unat_ucast_mod)
  then have "(ucast (view mod ucast (vset_len vs)) :: u32) = word_of_nat (unat view mod ?n)"
    by (intro word_unat_eq_iff [THEN iffD2]) (simp add: unat_ucast_mod unat_mod unat_of_nat)
  then show ?thesis
    using nz assms(1) by (simp add: leader_for_view_def vset_is_empty_def)
qed

section \<open>Properties\<close>

text \<open>
  C19. A validator set accepted by the constructor tolerates fewer than a third of its members, holds
  the given keys in order, each one validated, and any two of its quorums share more members than
  the set tolerates as faulty.
\<close>

theorem try_new_quorums_intersect:
  assumes "vset_try_new L infos f = Ok vs" and "infos \<noteq> []"
  shows "3 * unat f < length infos \<and> map ve_public_key (validators vs) = map vi_bls_public_key infos \<and>
    (\<forall>e \<in> set (validators vs). blst_pk_validate L (ve_public_key e) = BLST_SUCCESS) \<and>
    (\<forall>Q R. vset_quorum vs Q \<and> vset_quorum vs R \<longrightarrow> unat f < card (Q \<inter> R))"
proof -
  note shape = vset_try_new_shape [OF assms(1)]
  have wf: "vset_wf vs" using assms by (rule vset_try_new_wf)
  moreover have "unat f < card (Q \<inter> R)" if "vset_quorum vs Q" "vset_quorum vs R" for Q R
    using vset.quorums_overlap [OF wf that] shape(2) by (simp add: vset_tolerance_def)
  ultimately show ?thesis using shape by (auto simp: vset_wf_def)
qed

definition toy_info :: "nat \<Rightarrow> validator_info" where
  "toy_info n = \<lparr> vi_address = word_of_nat n, vi_bls_public_key = [word_of_nat n], vi_p2p_peer_id = None \<rparr>"

definition toy_entry :: "nat \<Rightarrow> validator_entry" where
  "toy_entry n = \<lparr> ve_address = word_of_nat n, ve_public_key = [word_of_nat n], ve_p2p_peer_id = None \<rparr>"

definition four_set :: validator_set where
  "four_set = \<lparr> validators = map toy_entry [0, 1, 2, 3], fault_tolerance = 1 \<rparr>"

lemma four_set_built: "vset_try_new (toy_lib P) (map toy_info [0, 1, 2, 3]) 1 = Ok four_set"
  by (simp add: vset_try_new_def validate_params_def max_fault_tolerance_for_len_def saturating_sub_def
      bls_validate_def toy_info_def toy_entry_def four_set_def Let_def)

theorem try_new_quorums_intersect_witness:
  "vset_try_new (toy_lib (\<lambda>_. True)) (map toy_info [0, 1, 2, 3]) 1 = Ok four_set \<and>
   vset_quorum four_set {0, 1, 2} \<and> vset_quorum four_set {1, 2, 3} \<and> 1 < card ({0, 1, 2} \<inter> {1, 2, 3 :: nat})"
proof -
  have "vset_quorum four_set {0, 1, 2}" "vset_quorum four_set {1, 2, 3}"
    by (auto simp: vset_quorum_def vset_members_def quorum_size_def four_set_def)
  then show ?thesis
    using try_new_quorums_intersect [OF four_set_built [of "\<lambda>_. True"]] four_set_built [of "\<lambda>_. True"] by auto
qed

text \<open>
  C27. Leadership rotates: over as many consecutive views as the set has members, the leader function
  succeeds in every view and every member of the set leads.
\<close>

theorem leader_rotation:
  assumes "validators vs \<noteq> []" and "length (validators vs) < 2 ^ 32"
    and "unat v + length (validators vs) \<le> 2 ^ 64"
  shows "(\<lambda>k. leader_for_view (v + word_of_nat k) vs) ` {..<length (validators vs)}
    = (\<lambda>i. Ok (word_of_nat i)) ` {..<length (validators vs)}"
proof -
  let ?n = "length (validators vs)"
  have n: "0 < ?n" using assms(1) by simp
  have "unat (v + word_of_nat k :: u64) = unat v + k" if "k < ?n" for k
  proof -
    have "k < 2 ^ 64" "unat v + k < 2 ^ 64" using that assms(2,3) by simp_all
    then show ?thesis by (simp add: unat_word_ariths unat_of_nat take_bit_nat_eq_self)
  qed
  then have "(\<lambda>k. leader_for_view (v + word_of_nat k) vs) ` {..<?n}
      = (\<lambda>k. Ok (word_of_nat ((unat v + k) mod ?n))) ` {..<?n}"
    using leader_for_view_Ok [OF assms(1,2)] by (intro image_cong) simp_all
  also have "\<dots> = (\<lambda>i. Ok (word_of_nat i)) ` (\<lambda>k. (unat v + k) mod ?n) ` {..<?n}"
    by (simp add: image_image)
  also have "(\<lambda>k. (unat v + k) mod ?n) ` {..<?n} = {..<?n}"
  proof (intro equalityI subsetI)
    fix i assume i: "i \<in> {..<?n}"
    have "unat v + (i + (?n - unat v mod ?n)) = i + (unat v div ?n + 1) * ?n"
      using n mod_less_divisor [OF n, of "unat v"] div_mult_mod_eq [of "unat v" ?n]
      unfolding distrib_right by linarith
    then have "(unat v + (i + (?n - unat v mod ?n))) mod ?n = i"
      using i by (simp only: mod_mult_self1) simp
    then have "(unat v + (i + (?n - unat v mod ?n)) mod ?n) mod ?n = i"
      by (simp only: mod_add_right_eq)
    then show "i \<in> (\<lambda>k. (unat v + k) mod ?n) ` {..<?n}"
      using n by (intro image_eqI [where x = "(i + (?n - unat v mod ?n)) mod ?n"]) simp_all
  qed (use n in auto)
  finally show ?thesis .
qed

theorem leader_rotation_witness:
  "(\<lambda>k. leader_for_view (7 + word_of_nat k) four_set) ` {..<4} = (\<lambda>i. Ok (word_of_nat i)) ` {..<4}"
proof -
  have "length (validators four_set) = 4" "validators four_set \<noteq> []" by (simp_all add: four_set_def)
  then show ?thesis using leader_rotation [of four_set 7] by simp
qed

end
