(* ===== verification/N42_Quorum.thy ===== *)
theory N42_Quorum
  imports N42_Signing N42_Validators "HOL-Library.Multiset"
begin

text \<open>
  Vote and timeout collection and certificate verification of
  \<^verbatim>\<open>n42-consensus/src/protocol/quorum.rs\<close>. A hash map keyed by validator index is an association
  list in the order the map is iterated; every result below holds for any order. Both
  collectors meet one contract, the locale \<open>collector_contract\<close>: a validator is counted once.
\<close>

section \<open>Vote collector\<close>

record vote_collector =
  vc_view :: view_number
  vc_block_hash :: b256
  vc_votes :: "(u32 \<times> signature) list"
  vc_set_size :: u32
  vc_verified :: "u32 set"

definition vc_new :: "view_number \<Rightarrow> b256 \<Rightarrow> u32 \<Rightarrow> vote_collector" where
  "vc_new view block_hash set_size =
     \<lparr> vc_view = view, vc_block_hash = block_hash, vc_votes = [], vc_set_size = set_size,
       vc_verified = {} \<rparr>"

definition add_vote :: "u32 \<Rightarrow> signature \<Rightarrow> vote_collector \<Rightarrow> vote_collector consensus_result" where
  "add_vote validator_index sig c =
     (if map_of (vc_votes c) validator_index \<noteq> None
      then Err (DuplicateVote (vc_view c) validator_index)
      else Ok (c\<lparr> vc_votes := vc_votes c @ [(validator_index, sig)] \<rparr>))"

definition add_verified_vote ::
  "u32 \<Rightarrow> signature \<Rightarrow> vote_collector \<Rightarrow> vote_collector consensus_result" where
  "add_verified_vote validator_index sig c =
     bind_outcome (add_vote validator_index sig c) (\<lambda>c'.
       Ok (c'\<lparr> vc_verified := insert validator_index (vc_verified c') \<rparr>))"

definition vote_count :: "vote_collector \<Rightarrow> nat" where
  "vote_count c = length (vc_votes c)"

definition vc_has_quorum :: "nat \<Rightarrow> vote_collector \<Rightarrow> bool" where
  "vc_has_quorum q c \<longleftrightarrow> q \<le> length (vc_votes c)"

text \<open>
  The loop over the collected entries: an index outside the set is skipped, an entry the
  caller verified is accepted, an entry of an unknown validator is skipped, and the rest is
  left for the batch. An entry carries a payload (nothing for votes, a certificate for
  timeouts).
\<close>

fun scan_entries ::
  "u32 \<Rightarrow> u32 set \<Rightarrow> validator_set \<Rightarrow> (u32 \<times> signature \<times> 'x) list
   \<Rightarrow> (u32 \<times> signature \<times> 'x) list \<times> (u32 \<times> signature \<times> 'x \<times> public_key) list" where
  "scan_entries set_size verified vs [] = ([], [])"
| "scan_entries set_size verified vs ((idx, sig, x) # es) =
     (let (accepted, unverified) = scan_entries set_size verified vs es in
      if set_size \<le> idx then (accepted, unverified)
      else if idx \<in> verified then ((idx, sig, x) # accepted, unverified)
      else case get_public_key vs idx of
             Ok pk \<Rightarrow> (accepted, (idx, sig, x, pk) # unverified)
           | _ \<Rightarrow> (accepted, unverified))"

text \<open>The survivors of the batch verification of the unverified tail.\<close>

definition batch_survivors ::
  "ext_lib \<Rightarrow> signing_profile \<Rightarrow> bytes \<Rightarrow> (u32 \<times> signature \<times> 'x \<times> public_key) list
   \<Rightarrow> (u32 \<times> signature \<times> 'x) list" where
  "batch_survivors L pr message unverified =
     (if unverified = [] then []
      else let bad = set (rejected (profile_batch_verify L pr
                 (replicate (length unverified) message)
                 (map (\<lambda>(_, sig, _, _). sig) unverified)
                 (map (\<lambda>(_, _, _, pk). pk) unverified)))
           in map (\<lambda>(_, idx, sig, x, _). (idx, sig, x))
                (filter (\<lambda>(pos, _). pos \<notin> bad) (zip [0..<length unverified] unverified)))"

definition accepted_entries ::
  "ext_lib \<Rightarrow> signing_profile \<Rightarrow> bytes \<Rightarrow> u32 \<Rightarrow> u32 set \<Rightarrow> validator_set
   \<Rightarrow> (u32 \<times> signature \<times> 'x) list \<Rightarrow> (u32 \<times> signature \<times> 'x) list" where
  "accepted_entries L pr message set_size verified vs es =
     (let (accepted, unverified) = scan_entries set_size verified vs es in
      accepted @ batch_survivors L pr message unverified)"

text \<open>\<open>signers.set(idx, true)\<close> for every accepted index, on a bitmap of the set's size.\<close>

definition signer_bitmap :: "nat \<Rightarrow> u32 list \<Rightarrow> bool list" where
  "signer_bitmap n idxs = fold (\<lambda>i bv. bv[unat i := True]) idxs (replicate n False)"

definition build_qc_with_profile_message ::
  "ext_lib \<Rightarrow> validator_set \<Rightarrow> bytes \<Rightarrow> signing_profile \<Rightarrow> vote_collector
   \<Rightarrow> quorum_certificate consensus_result" where
  "build_qc_with_profile_message L vs message pr c =
     (if vset_len vs \<noteq> vc_set_size c
      then Err (InvalidQC (vc_view c) (SetSizeMismatch (vc_set_size c) (vset_len vs)))
      else if length (vc_votes c) < quorum_size vs
      then Err (InsufficientVotes (vc_view c) (length (vc_votes c)) (quorum_size vs))
      else let valid = accepted_entries L pr message (vc_set_size c) (vc_verified c) vs
                         (map (\<lambda>(i, sig). (i, sig, ())) (vc_votes c))
           in if length valid < quorum_size vs
              then Err (InsufficientVotes (vc_view c) (length valid) (quorum_size vs))
              else case aggregate L (map (\<lambda>(_, sig, _). sig) valid) of
                     Ok agg \<Rightarrow> Ok \<lparr> qc_view = vc_view c, qc_block_hash = vc_block_hash c,
                                   qc_aggregate_signature = agg,
                                   qc_signers = signer_bitmap (unat (vc_set_size c)) (map fst valid) \<rparr>
                   | Err e \<Rightarrow> Err (Bls e)
                   | Panic \<Rightarrow> Panic)"

definition build_qc_with_message ::
  "ext_lib \<Rightarrow> validator_set \<Rightarrow> bytes \<Rightarrow> vote_collector \<Rightarrow> quorum_certificate consensus_result" where
  "build_qc_with_message L vs message c = build_qc_with_profile_message L vs message Native c"

definition build_qc ::
  "ext_lib \<Rightarrow> validator_set \<Rightarrow> vote_collector \<Rightarrow> quorum_certificate consensus_result" where
  "build_qc L vs c = build_qc_with_message L vs (signing_message (vc_view c) (vc_block_hash c)) c"

section \<open>Timeout collector\<close>

record timeout_collector =
  tc_col_view :: view_number
  tc_timeouts :: "(u32 \<times> signature \<times> quorum_certificate) list"
  tc_set_size :: u32
  tc_verified :: "u32 set"

definition tcol_new :: "view_number \<Rightarrow> u32 \<Rightarrow> timeout_collector" where
  "tcol_new view set_size =
     \<lparr> tc_col_view = view, tc_timeouts = [], tc_set_size = set_size, tc_verified = {} \<rparr>"

definition add_timeout ::
  "u32 \<Rightarrow> signature \<Rightarrow> quorum_certificate \<Rightarrow> timeout_collector \<Rightarrow> timeout_collector consensus_result" where
  "add_timeout validator_index sig high_qc c =
     (if map_of (tc_timeouts c) validator_index \<noteq> None
      then Err (DuplicateVote (tc_col_view c) validator_index)
      else Ok (c\<lparr> tc_timeouts := tc_timeouts c @ [(validator_index, sig, high_qc)] \<rparr>))"

definition add_verified_timeout ::
  "u32 \<Rightarrow> signature \<Rightarrow> quorum_certificate \<Rightarrow> timeout_collector \<Rightarrow> timeout_collector consensus_result" where
  "add_verified_timeout validator_index sig high_qc c =
     bind_outcome (add_timeout validator_index sig high_qc c) (\<lambda>c'.
       Ok (c'\<lparr> tc_verified := insert validator_index (tc_verified c') \<rparr>))"

definition timeout_count :: "timeout_collector \<Rightarrow> nat" where
  "timeout_count c = length (tc_timeouts c)"

definition tcol_has_quorum :: "nat \<Rightarrow> timeout_collector \<Rightarrow> bool" where
  "tcol_has_quorum q c \<longleftrightarrow> q \<le> length (tc_timeouts c)"

text \<open>The first certificate of the highest view, in iteration order.\<close>

definition highest_qc :: "quorum_certificate list \<Rightarrow> quorum_certificate option" where
  "highest_qc qcs = fold (\<lambda>qc best. case best of
       None \<Rightarrow> Some qc
     | Some hq \<Rightarrow> if qc_view qc > qc_view hq then Some qc else best) qcs None"

definition build_tc_with_profile ::
  "ext_lib \<Rightarrow> validator_set \<Rightarrow> signing_profile \<Rightarrow> timeout_collector
   \<Rightarrow> timeout_certificate consensus_result" where
  "build_tc_with_profile L vs pr c =
     (if vset_len vs \<noteq> tc_set_size c
      then Err (InvalidTC (tc_col_view c) (SetSizeMismatch (tc_set_size c) (vset_len vs)))
      else if length (tc_timeouts c) < quorum_size vs
      then Err (InsufficientVotes (tc_col_view c) (length (tc_timeouts c)) (quorum_size vs))
      else let valid = accepted_entries L pr (timeout_msg_bytes pr (tc_col_view c))
                         (tc_set_size c) (tc_verified c) vs (tc_timeouts c)
           in if length valid < quorum_size vs
              then Err (InsufficientVotes (tc_col_view c) (length valid) (quorum_size vs))
              else case aggregate L (map (\<lambda>(_, sig, _). sig) valid) of
                     Ok agg \<Rightarrow> (case highest_qc (map (\<lambda>(_, _, qc). qc) valid) of
                         None \<Rightarrow> Err (InvalidTC (tc_col_view c) NoHighQC)
                       | Some high_qc \<Rightarrow>
                           Ok \<lparr> tc_view = tc_col_view c, tc_aggregate_signature = agg,
                                tc_signers = signer_bitmap (unat (tc_set_size c)) (map fst valid),
                                tc_high_qc = high_qc \<rparr>)
                   | Err e \<Rightarrow> Err (Bls e)
                   | Panic \<Rightarrow> Panic)"

definition build_tc ::
  "ext_lib \<Rightarrow> validator_set \<Rightarrow> timeout_collector \<Rightarrow> timeout_certificate consensus_result" where
  "build_tc L vs c = build_tc_with_profile L vs Native c"

section \<open>Certificate verification\<close>

datatype cert_kind = KindQC | KindTC

fun invalid_error :: "cert_kind \<Rightarrow> view_number \<Rightarrow> cert_reason \<Rightarrow> consensus_error" where
  "invalid_error KindQC view reason = InvalidQC view reason"
| "invalid_error KindTC view reason = InvalidTC view reason"

definition collect_signer_keys ::
  "bool list \<Rightarrow> validator_set \<Rightarrow> nat \<Rightarrow> view_number \<Rightarrow> cert_kind \<Rightarrow> public_key list consensus_result" where
  "collect_signer_keys signers vs q view kind =
     (let expected_len = unat (vset_len vs) in
      if length signers \<noteq> expected_len
      then Err (invalid_error kind view (BitmapLengthMismatch (length signers) expected_len))
      else let count = length (filter (\<lambda>b. b) signers) in
        if count < q then Err (invalid_error kind view (InsufficientSigners count q))
        else public_keys_for_signers vs (map word_of_nat (positions (\<lambda>b. b) signers)))"

definition verify_qc_with_profile ::
  "ext_lib \<Rightarrow> quorum_certificate \<Rightarrow> validator_set \<Rightarrow> signing_profile \<Rightarrow> unit consensus_result" where
  "verify_qc_with_profile L qc vs pr =
     bind_outcome (collect_signer_keys (qc_signers qc) vs (quorum_size vs) (qc_view qc) KindQC) (\<lambda>pks.
       if profile_verify_aggregate L pr (vote_message pr (qc_view qc) (qc_block_hash qc))
            (qc_aggregate_signature qc) pks
       then Ok () else Err (InvalidQC (qc_view qc) AggregateVerificationFailed))"

definition verify_commit_qc_with_profile ::
  "ext_lib \<Rightarrow> quorum_certificate \<Rightarrow> validator_set \<Rightarrow> b256 \<Rightarrow> signing_profile \<Rightarrow> unit consensus_result" where
  "verify_commit_qc_with_profile L qc vs changes_hash pr =
     bind_outcome (collect_signer_keys (qc_signers qc) vs (quorum_size vs) (qc_view qc) KindQC) (\<lambda>pks.
       if profile_verify_aggregate L pr (commit_message pr (qc_view qc) (qc_block_hash qc) changes_hash)
            (qc_aggregate_signature qc) pks
       then Ok () else Err (InvalidQC (qc_view qc) CommitAggregateVerificationFailed))"

definition verify_qc_any_domain_with_profile ::
  "ext_lib \<Rightarrow> quorum_certificate \<Rightarrow> validator_set \<Rightarrow> b256 \<Rightarrow> signing_profile \<Rightarrow> unit consensus_result" where
  "verify_qc_any_domain_with_profile L qc vs changes_hash pr =
     bind_outcome (collect_signer_keys (qc_signers qc) vs (quorum_size vs) (qc_view qc) KindQC) (\<lambda>pks.
       if profile_verify_aggregate L pr (vote_message pr (qc_view qc) (qc_block_hash qc))
            (qc_aggregate_signature qc) pks
       then Ok ()
       else if profile_verify_aggregate L pr
                 (commit_message pr (qc_view qc) (qc_block_hash qc) changes_hash)
                 (qc_aggregate_signature qc) pks
       then Ok () else Err (InvalidQC (qc_view qc) BothDomainsFailed))"

definition verify_tc_with_profile ::
  "ext_lib \<Rightarrow> timeout_certificate \<Rightarrow> validator_set \<Rightarrow> signing_profile \<Rightarrow> unit consensus_result" where
  "verify_tc_with_profile L tc vs pr =
     bind_outcome (collect_signer_keys (tc_signers tc) vs (quorum_size vs) (tc_view tc) KindTC) (\<lambda>pks.
       if profile_verify_aggregate L pr (timeout_msg_bytes pr (tc_view tc))
            (tc_aggregate_signature tc) pks
       then Ok () else Err (InvalidTC (tc_view tc) AggregateVerificationFailed))"

definition verify_qc :: "ext_lib \<Rightarrow> quorum_certificate \<Rightarrow> validator_set \<Rightarrow> unit consensus_result" where
  "verify_qc L qc vs = verify_qc_with_profile L qc vs Native"

definition verify_commit_qc ::
  "ext_lib \<Rightarrow> quorum_certificate \<Rightarrow> validator_set \<Rightarrow> b256 \<Rightarrow> unit consensus_result" where
  "verify_commit_qc L qc vs changes_hash = verify_commit_qc_with_profile L qc vs changes_hash Native"

definition verify_qc_any_domain ::
  "ext_lib \<Rightarrow> quorum_certificate \<Rightarrow> validator_set \<Rightarrow> b256 \<Rightarrow> unit consensus_result" where
  "verify_qc_any_domain L qc vs changes_hash =
     verify_qc_any_domain_with_profile L qc vs changes_hash Native"

definition verify_tc :: "ext_lib \<Rightarrow> timeout_certificate \<Rightarrow> validator_set \<Rightarrow> unit consensus_result" where
  "verify_tc L tc vs = verify_tc_with_profile L tc vs Native"

section \<open>The contract of a collector\<close>

text \<open>
  Both collectors count each validator once: a fresh index is added, a repeated one is
  refused and leaves the collector as it was.
\<close>

locale collector_contract =
  fixes add :: "u32 \<Rightarrow> 'p \<Rightarrow> 'c \<Rightarrow> 'c consensus_result"
    and voters :: "'c \<Rightarrow> u32 set"
    and tally :: "'c \<Rightarrow> nat"
    and col_inv :: "'c \<Rightarrow> bool"
  assumes add_fresh: "col_inv c \<Longrightarrow> i \<notin> voters c \<Longrightarrow>
      \<exists>c'. add i p c = Ok c' \<and> voters c' = insert i (voters c) \<and> col_inv c'"
    and add_known: "col_inv c \<Longrightarrow> i \<in> voters c \<Longrightarrow> \<exists>e. add i p c = Err e"
    and tally_voters: "col_inv c \<Longrightarrow> tally c = card (voters c)"
begin

definition keep :: "u32 \<times> 'p \<Rightarrow> 'c \<Rightarrow> 'c" where
  "keep m c = (case add (fst m) (snd m) c of Ok c' \<Rightarrow> c' | _ \<Rightarrow> c)"

lemma keep_step:
  assumes "col_inv c"
  shows "col_inv (keep m c) \<and> voters (keep m c) = insert (fst m) (voters c)"
proof (cases "fst m \<in> voters c")
  case True
  obtain e where "add (fst m) (snd m) c = Err e"
    using add_known [OF assms True] by blast
  then show ?thesis
    using assms insert_absorb [OF True] by (simp add: keep_def)
next
  case False
  obtain c' where "add (fst m) (snd m) c = Ok c'" and "voters c' = insert (fst m) (voters c)"
    and "col_inv c'"
    using add_fresh [OF assms False] by blast
  then show ?thesis by (simp add: keep_def)
qed

lemma keep_all:
  "col_inv c \<Longrightarrow> col_inv (fold keep ms c) \<and> voters (fold keep ms c) = fst ` set ms \<union> voters c"
proof (induction ms arbitrary: c)
  case Nil
  then show ?case by simp
next
  case (Cons m ms)
  have step: "col_inv (keep m c)" "voters (keep m c) = insert (fst m) (voters c)"
    using keep_step [OF Cons.prems] by simp_all
  show ?case using Cons.IH [OF step(1)] by (simp add: step(2))
qed

text \<open>However often messages are repeated, the tally is the number of distinct senders.\<close>

lemma tally_distinct_senders:
  assumes "col_inv c" and "voters c = {}"
  shows "tally (fold keep ms c) = card (fst ` set ms)"
  using keep_all [OF assms(1), of ms] assms(2) by (simp add: tally_voters)

end

definition vc_voters :: "vote_collector \<Rightarrow> u32 set" where
  "vc_voters c = fst ` set (vc_votes c)"

definition vc_inv :: "vote_collector \<Rightarrow> bool" where
  "vc_inv c \<longleftrightarrow> distinct (map fst (vc_votes c)) \<and> vc_verified c \<subseteq> vc_voters c"

definition tcol_voters :: "timeout_collector \<Rightarrow> u32 set" where
  "tcol_voters c = fst ` set (tc_timeouts c)"

definition tcol_inv :: "timeout_collector \<Rightarrow> bool" where
  "tcol_inv c \<longleftrightarrow> distinct (map fst (tc_timeouts c)) \<and> tc_verified c \<subseteq> tcol_voters c"

lemma card_keys: "distinct (map fst al) \<Longrightarrow> length al = card (fst ` set al)"
  by (metis distinct_card length_map list.set_map)

lemma add_vote_Ok_iff:
  "add_vote i sig c = Ok c' \<longleftrightarrow>
     i \<notin> vc_voters c \<and> c' = c\<lparr> vc_votes := vc_votes c @ [(i, sig)] \<rparr>"
  by (auto simp: add_vote_def vc_voters_def map_of_None_iff)

lemma add_timeout_Ok_iff:
  "add_timeout i sig qc c = Ok c' \<longleftrightarrow>
     i \<notin> tcol_voters c \<and> c' = c\<lparr> tc_timeouts := tc_timeouts c @ [(i, sig, qc)] \<rparr>"
  by (auto simp: add_timeout_def tcol_voters_def map_of_None_iff)

lemma add_verified_vote_Ok_iff:
  "add_verified_vote i sig c = Ok c' \<longleftrightarrow>
     i \<notin> vc_voters c \<and> c' = c\<lparr> vc_votes := vc_votes c @ [(i, sig)],
       vc_verified := insert i (vc_verified c) \<rparr>"
  by (auto simp: add_verified_vote_def add_vote_def vc_voters_def map_of_None_iff)

lemma add_verified_timeout_Ok_iff:
  "add_verified_timeout i sig qc c = Ok c' \<longleftrightarrow>
     i \<notin> tcol_voters c \<and> c' = c\<lparr> tc_timeouts := tc_timeouts c @ [(i, sig, qc)],
       tc_verified := insert i (tc_verified c) \<rparr>"
  by (auto simp: add_verified_timeout_def add_timeout_def tcol_voters_def map_of_None_iff)

lemma add_vote_dup: "i \<in> vc_voters c \<Longrightarrow> add_vote i sig c = Err (DuplicateVote (vc_view c) i)"
  by (auto simp: add_vote_def vc_voters_def map_of_None_iff)

lemma add_timeout_dup:
  "i \<in> tcol_voters c \<Longrightarrow> add_timeout i sig qc c = Err (DuplicateVote (tc_col_view c) i)"
  by (auto simp: add_timeout_def tcol_voters_def map_of_None_iff)

lemma add_verified_vote_dup:
  "i \<in> vc_voters c \<Longrightarrow> add_verified_vote i sig c = Err (DuplicateVote (vc_view c) i)"
  by (simp add: add_verified_vote_def add_vote_dup)

lemma add_verified_timeout_dup:
  "i \<in> tcol_voters c \<Longrightarrow> add_verified_timeout i sig qc c = Err (DuplicateVote (tc_col_view c) i)"
  by (simp add: add_verified_timeout_def add_timeout_dup)

lemma add_verified_vote_fresh:
  assumes "i \<notin> vc_voters c" and "vc_inv c"
  shows "\<exists>c'. add_verified_vote i sig c = Ok c' \<and> vc_voters c' = insert i (vc_voters c) \<and> vc_inv c'"
proof (intro exI conjI)
  let ?c = "c\<lparr> vc_votes := vc_votes c @ [(i, sig)], vc_verified := insert i (vc_verified c) \<rparr>"
  show "add_verified_vote i sig c = Ok ?c"
    using assms(1) by (simp add: add_verified_vote_Ok_iff)
  show voters: "vc_voters ?c = insert i (vc_voters c)"
    by (simp add: vc_voters_def)
  show "vc_inv ?c"
    using assms voters unfolding vc_inv_def by (auto simp: vc_voters_def)
qed

lemma add_verified_timeout_fresh:
  assumes "i \<notin> tcol_voters c" and "tcol_inv c"
  shows "\<exists>c'. add_verified_timeout i sig qc c = Ok c' \<and>
    tcol_voters c' = insert i (tcol_voters c) \<and> tcol_inv c'"
proof (intro exI conjI)
  let ?c = "c\<lparr> tc_timeouts := tc_timeouts c @ [(i, sig, qc)], tc_verified := insert i (tc_verified c) \<rparr>"
  show "add_verified_timeout i sig qc c = Ok ?c"
    using assms(1) by (simp add: add_verified_timeout_Ok_iff)
  show voters: "tcol_voters ?c = insert i (tcol_voters c)"
    by (simp add: tcol_voters_def)
  show "tcol_inv ?c"
    using assms voters unfolding tcol_inv_def by (auto simp: tcol_voters_def)
qed

interpretation votes: collector_contract add_verified_vote vc_voters vote_count vc_inv
proof unfold_locales
  fix c :: vote_collector and i :: u32 and p :: signature
  assume inv: "vc_inv c"
  show "vote_count c = card (vc_voters c)"
    using inv by (simp add: vote_count_def vc_inv_def vc_voters_def card_keys)
  show "\<exists>e. add_verified_vote i p c = Err e" if "i \<in> vc_voters c"
    using that by (simp add: add_verified_vote_dup)
  show "\<exists>c'. add_verified_vote i p c = Ok c' \<and> vc_voters c' = insert i (vc_voters c) \<and> vc_inv c'"
    if "i \<notin> vc_voters c"
    using that inv by (rule add_verified_vote_fresh)
qed

interpretation timeouts: collector_contract
  "\<lambda>i p. add_verified_timeout i (fst p) (snd p)" tcol_voters timeout_count tcol_inv
proof unfold_locales
  fix c :: timeout_collector and i :: u32 and p :: "signature \<times> quorum_certificate"
  assume inv: "tcol_inv c"
  show "timeout_count c = card (tcol_voters c)"
    using inv by (simp add: timeout_count_def tcol_inv_def tcol_voters_def card_keys)
  show "\<exists>e. add_verified_timeout i (fst p) (snd p) c = Err e" if "i \<in> tcol_voters c"
    using that by (simp add: add_verified_timeout_dup)
  show "\<exists>c'. add_verified_timeout i (fst p) (snd p) c = Ok c' \<and>
      tcol_voters c' = insert i (tcol_voters c) \<and> tcol_inv c'"
    if "i \<notin> tcol_voters c"
    using that inv by (rule add_verified_timeout_fresh)
qed

section \<open>What is accepted\<close>

fun profile_dst :: "signing_profile \<Rightarrow> bytes" where
  "profile_dst Native = DST"
| "profile_dst (H2V4 identity) = H2_V4_DST"
| "profile_dst Gov5Legacy = H2_V4_DST"

fun profile_suite :: "signing_profile \<Rightarrow> ciphersuite" where
  "profile_suite Native = NATIVE"
| "profile_suite (H2V4 identity) = H2_V4"
| "profile_suite Gov5Legacy = H2_V4"

lemma verify_single_iff:
  "verify_single L pr pk message sig \<longleftrightarrow>
     blst_verify L sig message (profile_dst pr) pk False = BLST_SUCCESS"
  by (cases pr) (simp_all add: bls_verify_prevalidated_def bls_verify_h2_v4_prevalidated_def Let_def)

lemma profile_verify_aggregate_iff:
  "profile_verify_aggregate L pr message sig pks \<longleftrightarrow>
     blst_fast_aggregate_verify L sig message (profile_dst pr) pks = BLST_SUCCESS"
  by (cases pr) (simp_all add: verify_aggregate_def verify_h2_v4_aggregate_def Let_def)

lemma profile_batch_verify_suite:
  "profile_batch_verify L pr ms ss pks = batch_verify_with_fallback_suite L ms ss pks (profile_suite pr)"
  by (cases pr) (simp_all add: batch_verify_with_fallback_def batch_verify_h2_v4_with_fallback_def)

lemma profile_suite_facts: "profile_suite pr \<in> {NATIVE, H2_V4}" "suite_dst (profile_suite pr) = profile_dst pr"
  by (cases pr; simp add: NATIVE_def H2_V4_def)+

lemma batch_not_rejected_single:
  assumes "multi_pairing_sound L" and "pk_validation_monotone L" and "i < length ms"
    and "i \<notin> set (rejected (profile_batch_verify L pr ms ss pks))"
  shows "verify_single L pr (pks ! i) (ms ! i) (ss ! i)"
  using not_rejected_verifies [OF assms(1,2) profile_suite_facts(1) assms(3)] assms(4)
  by (simp add: verify_single_iff profile_batch_verify_suite profile_suite_facts(2))

abbreviation entry_of :: "u32 \<times> signature \<times> 'x \<times> public_key \<Rightarrow> u32 \<times> signature \<times> 'x" where
  "entry_of u \<equiv> (fst u, fst (snd u), fst (snd (snd u)))"

lemma scan_entries_accepted:
  "e \<in> set (fst (scan_entries n V vs es)) \<Longrightarrow> e \<in> set es \<and> fst e < n \<and> fst e \<in> V"
  by (induction n V vs es rule: scan_entries.induct)
    (auto simp: Let_def split: prod.splits if_splits outcome.splits)

lemma scan_entries_unverified:
  "u \<in> set (snd (scan_entries n V vs es)) \<Longrightarrow>
     entry_of u \<in> set es \<and> fst u < n \<and> fst u \<notin> V \<and> get_public_key vs (fst u) = Ok (snd (snd (snd u)))"
  by (induction n V vs es rule: scan_entries.induct)
    (auto simp: Let_def split: prod.splits if_splits outcome.splits)

lemma scan_entries_distinct:
  "distinct (map fst es) \<Longrightarrow> distinct (map fst (fst (scan_entries n V vs es))) \<and>
     distinct (map fst (snd (scan_entries n V vs es)))"
proof (induction n V vs es rule: scan_entries.induct)
  case (2 n V vs idx sig x es)
  obtain acc unv where s: "scan_entries n V vs es = (acc, unv)" by fastforce
  have fresh: "idx \<notin> fst ` set es" using 2(2) by simp
  have "idx \<notin> fst ` set acc" "idx \<notin> fst ` set unv"
    using fresh scan_entries_accepted [of _ n V vs es] scan_entries_unverified [of _ n V vs es]
    by (force simp: s)+
  moreover have "distinct (map fst acc)" "distinct (map fst unv)"
    using 2 by (simp_all add: s)
  ultimately show ?case by (simp add: s split: outcome.split)
qed simp

lemma in_batch_survivors:
  assumes "e \<in> set (batch_survivors L pr message unv)"
  obtains i where "i < length unv" and "e = entry_of (unv ! i)"
    and "i \<notin> set (rejected (profile_batch_verify L pr (replicate (length unv) message)
           (map (\<lambda>(_, sig, _, _). sig) unv) (map (\<lambda>(_, _, _, pk). pk) unv)))"
proof -
  from assms obtain p where "p \<in> set (zip [0..<length unv] unv)"
    and "fst p \<notin> set (rejected (profile_batch_verify L pr (replicate (length unv) message)
           (map (\<lambda>(_, sig, _, _). sig) unv) (map (\<lambda>(_, _, _, pk). pk) unv)))"
    and "e = entry_of (snd p)"
    by (auto simp: batch_survivors_def Let_def split: if_splits)
  moreover from this(1) have "fst p < length unv" and "snd p = unv ! fst p"
    by (auto simp: set_zip)
  ultimately show thesis using that by metis
qed

lemma batch_survivors_keys:
  "map fst (batch_survivors L pr message unv) =
     map (\<lambda>p. fst (snd p)) (filter (\<lambda>(pos, _). pos \<notin> set (rejected (profile_batch_verify L pr
        (replicate (length unv) message) (map (\<lambda>(_, sig, _, _). sig) unv)
        (map (\<lambda>(_, _, _, pk). pk) unv)))) (zip [0..<length unv] unv))"
  by (auto simp: batch_survivors_def Let_def case_prod_beta comp_def)

lemma batch_survivors_distinct:
  assumes "distinct (map fst unv)"
  shows "distinct (map fst (batch_survivors L pr message unv))"
proof -
  have "map (\<lambda>p. fst (snd p)) (zip [0..<length unv] unv) = map fst unv"
    by (rule nth_equalityI) simp_all
  then show ?thesis
    unfolding batch_survivors_keys using assms by (metis distinct_map_filter)
qed

text \<open>An accepted entry was collected and is in range; either the caller had verified it, or its
  signature verifies under the key of its index.\<close>

lemma accepted_entries_valid:
  assumes "multi_pairing_sound L" and "pk_validation_monotone L"
    and "e \<in> set (accepted_entries L pr message n V vs es)"
  shows "e \<in> set es \<and> fst e < n \<and>
    (fst e \<in> V \<or> (\<exists>pk. get_public_key vs (fst e) = Ok pk \<and> verify_single L pr pk message (fst (snd e))))"
proof -
  obtain acc unv where s: "scan_entries n V vs es = (acc, unv)" by fastforce
  from assms(3) consider "e \<in> set acc" | "e \<in> set (batch_survivors L pr message unv)"
    by (auto simp: accepted_entries_def s)
  then show ?thesis
  proof cases
    case 1
    then show ?thesis using scan_entries_accepted [of e n V vs es] by (simp add: s)
  next
    case 2
    then obtain i where i: "i < length unv" and e: "e = entry_of (unv ! i)"
      and ok: "i \<notin> set (rejected (profile_batch_verify L pr (replicate (length unv) message)
           (map (\<lambda>(_, sig, _, _). sig) unv) (map (\<lambda>(_, _, _, pk). pk) unv)))"
      by (rule in_batch_survivors)
    have "verify_single L pr (snd (snd (snd (unv ! i)))) message (fst (snd (unv ! i)))"
      using batch_not_rejected_single [OF assms(1,2) _ ok] i by (simp add: case_prod_beta)
    moreover have "unv ! i \<in> set (snd (scan_entries n V vs es))" using i by (simp add: s)
    ultimately show ?thesis using scan_entries_unverified e by fastforce
  qed
qed

lemma accepted_entries_distinct:
  assumes "distinct (map fst es)"
  shows "distinct (map fst (accepted_entries L pr message n V vs es))"
proof -
  obtain acc unv where s: "scan_entries n V vs es = (acc, unv)" by fastforce
  have d: "distinct (map fst acc)" "distinct (map fst unv)"
    using scan_entries_distinct [OF assms, of n V vs] by (simp_all add: s)
  have a: "i \<in> V" if "i \<in> fst ` set acc" for i
    using that scan_entries_accepted [of _ n V vs es] by (force simp: s)
  have b: "i \<notin> V" if b1: "i \<in> fst ` set (batch_survivors L pr message unv)" for i
  proof -
    obtain e where "e \<in> set (batch_survivors L pr message unv)" and i: "i = fst e"
      using b1 by blast
    then obtain j where "j < length unv" and "e = entry_of (unv ! j)"
      by (metis in_batch_survivors)
    then have "unv ! j \<in> set (snd (scan_entries n V vs es))" and "i = fst (unv ! j)"
      by (simp_all add: s i)
    then show ?thesis using scan_entries_unverified by metis
  qed
  then have "fst ` set acc \<inter> fst ` set (batch_survivors L pr message unv) = {}"
    using a by blast
  then show ?thesis
    using d(1) batch_survivors_distinct [OF d(2)]
    by (simp add: accepted_entries_def s)
qed

text \<open>When the caller verified every entry, nothing is dropped.\<close>

lemma accepted_entries_all_verified:
  "\<forall>e \<in> set es. fst e < n \<and> fst e \<in> V \<Longrightarrow> accepted_entries L pr message n V vs es = es"
proof -
  assume "\<forall>e \<in> set es. fst e < n \<and> fst e \<in> V"
  then have "scan_entries n V vs es = (es, [])"
    by (induction es) auto
  then show ?thesis by (simp add: accepted_entries_def batch_survivors_def)
qed

section \<open>Signer bitmaps\<close>

lemma fold_set_bits_length: "length (fold (\<lambda>i bv. bv[unat i := True]) idxs bv) = length bv"
  by (induction idxs arbitrary: bv) simp_all

lemma fold_set_bits_nth:
  "j < length bv \<Longrightarrow> fold (\<lambda>i bv. bv[unat i := True]) idxs bv ! j \<longleftrightarrow> bv ! j \<or> j \<in> unat ` set idxs"
proof (induction idxs arbitrary: bv)
  case Nil
  then show ?case by simp
next
  case (Cons i idxs)
  then show ?case by (cases "unat i = j") auto
qed

lemma length_signer_bitmap [simp]: "length (signer_bitmap n idxs) = n"
  by (simp add: signer_bitmap_def fold_set_bits_length)

lemma nth_signer_bitmap: "j < n \<Longrightarrow> signer_bitmap n idxs ! j \<longleftrightarrow> j \<in> unat ` set idxs"
  by (simp add: signer_bitmap_def fold_set_bits_nth)

definition signer_set :: "bool list \<Rightarrow> nat set" where
  "signer_set bv = {i. i < length bv \<and> bv ! i}"

lemma card_signer_set: "card (signer_set bv) = length (filter (\<lambda>b. b) bv)"
  using distinct_card [OF distinct_positions [of "\<lambda>b. b" bv]]
  by (simp add: set_positions length_positions signer_set_def)

lemma signer_set_bitmap:
  "(\<And>i. i \<in> set idxs \<Longrightarrow> unat i < n) \<Longrightarrow> signer_set (signer_bitmap n idxs) = unat ` set idxs"
  by (auto simp: signer_set_def nth_signer_bitmap)

lemma mset_positions_bitmap:
  assumes "distinct idxs" and "\<And>i. i \<in> set idxs \<Longrightarrow> unat i < n"
  shows "mset (positions (\<lambda>b. b) (signer_bitmap n idxs)) = mset (map unat idxs)"
proof -
  have "distinct (map unat idxs)"
    using assms(1) by (simp add: distinct_map inj_on_def word_unat_eq_iff)
  moreover have "set (positions (\<lambda>b. b) (signer_bitmap n idxs)) = set (map unat idxs)"
    using signer_set_bitmap [OF assms(2)] by (simp add: set_positions signer_set_def)
  ultimately show ?thesis
    using distinct_positions set_eq_iff_mset_eq_distinct by blast
qed

section \<open>Signer keys\<close>

definition key_at :: "validator_set \<Rightarrow> nat \<Rightarrow> public_key" where
  "key_at vs i = ve_public_key (validators vs ! i)"

lemma get_public_key_key_at: "get_public_key vs i = Ok pk \<Longrightarrow> pk = key_at vs (unat i)"
  by (simp add: get_public_key_def key_at_def split: if_splits)

lemma unat_vset_len_le: "unat (vset_len vs) \<le> length (validators vs)"
  by (simp add: vset_len_def unat_of_nat)

lemma public_keys_for_signers_in_range:
  "(\<And>i. i \<in> set idxs \<Longrightarrow> unat i < length (validators vs)) \<Longrightarrow>
     public_keys_for_signers vs idxs = Ok (map (\<lambda>i. key_at vs (unat i)) idxs)"
  by (induction idxs) (simp_all add: get_public_key_def key_at_def)

lemma unat_positions:
  assumes "length bv = unat (vset_len vs)" and "i \<in> set (positions (\<lambda>b. b) bv)"
  shows "unat (word_of_nat i :: u32) = i"
proof -
  have "i < 2 ^ 32"
    using assms unat_bound [of "vset_len vs"] by (simp add: set_positions)
  then show ?thesis by (simp add: unat_of_nat)
qed

lemma collect_signer_keys_Ok:
  "collect_signer_keys bv vs q view kind = Ok pks \<longleftrightarrow>
     length bv = unat (vset_len vs) \<and> q \<le> card (signer_set bv) \<and>
     pks = map (key_at vs) (positions (\<lambda>b. b) bv)"
proof (cases "length bv = unat (vset_len vs)")
  case True
  let ?ps = "positions (\<lambda>b. b) bv"
  have "unat i < length (validators vs)" if "i \<in> set (map word_of_nat ?ps)" for i :: u32
    using that unat_positions [OF True] True unat_vset_len_le [of vs] by (auto simp: set_positions)
  then have "public_keys_for_signers vs (map word_of_nat ?ps)
      = Ok (map (\<lambda>i. key_at vs (unat i)) (map word_of_nat ?ps :: u32 list))"
    by (rule public_keys_for_signers_in_range)
  also have "map (\<lambda>i. key_at vs (unat i)) (map word_of_nat ?ps :: u32 list) = map (key_at vs) ?ps"
    using unat_positions [OF True] by simp
  finally show ?thesis
    using True by (auto simp: collect_signer_keys_def card_signer_set Let_def)
next
  case False
  then show ?thesis by (auto simp: collect_signer_keys_def Let_def)
qed

lemma bind_signer_keys_Ok:
  "bind_outcome (collect_signer_keys bv vs q view kind) k = Ok () \<longleftrightarrow>
     length bv = unat (vset_len vs) \<and> q \<le> card (signer_set bv) \<and>
     k (map (key_at vs) (positions (\<lambda>b. b) bv)) = Ok ()"
proof (cases "length bv = unat (vset_len vs) \<and> q \<le> card (signer_set bv)")
  case True
  then have "collect_signer_keys bv vs q view kind = Ok (map (key_at vs) (positions (\<lambda>b. b) bv))"
    by (simp add: collect_signer_keys_Ok)
  with True show ?thesis by simp
next
  case False
  then show ?thesis
    by (auto simp: collect_signer_keys_Ok elim!: bind_outcome_OkE)
qed

text \<open>The signers of an accepted certificate form a quorum of the set.\<close>

lemma signer_set_quorum:
  "length bv = unat (vset_len vs) \<Longrightarrow> quorum_size vs \<le> card (signer_set bv) \<Longrightarrow>
     vset_quorum vs (signer_set bv)"
  using unat_vset_len_le [of vs] by (auto simp: vset_quorum_def vset_members_def signer_set_def)

lemma verify_qc_Ok:
  "verify_qc_with_profile L qc vs pr = Ok () \<longleftrightarrow>
     length (qc_signers qc) = unat (vset_len vs) \<and>
     quorum_size vs \<le> card (signer_set (qc_signers qc)) \<and>
     profile_verify_aggregate L pr (vote_message pr (qc_view qc) (qc_block_hash qc))
       (qc_aggregate_signature qc) (map (key_at vs) (positions (\<lambda>b. b) (qc_signers qc)))"
  by (simp add: verify_qc_with_profile_def bind_signer_keys_Ok)

lemma verify_commit_qc_Ok:
  "verify_commit_qc_with_profile L qc vs ch pr = Ok () \<longleftrightarrow>
     length (qc_signers qc) = unat (vset_len vs) \<and>
     quorum_size vs \<le> card (signer_set (qc_signers qc)) \<and>
     profile_verify_aggregate L pr (commit_message pr (qc_view qc) (qc_block_hash qc) ch)
       (qc_aggregate_signature qc) (map (key_at vs) (positions (\<lambda>b. b) (qc_signers qc)))"
  by (simp add: verify_commit_qc_with_profile_def bind_signer_keys_Ok)

lemma verify_tc_Ok:
  "verify_tc_with_profile L tc vs pr = Ok () \<longleftrightarrow>
     length (tc_signers tc) = unat (vset_len vs) \<and>
     quorum_size vs \<le> card (signer_set (tc_signers tc)) \<and>
     profile_verify_aggregate L pr (timeout_msg_bytes pr (tc_view tc))
       (tc_aggregate_signature tc) (map (key_at vs) (positions (\<lambda>b. b) (tc_signers tc)))"
  by (simp add: verify_tc_with_profile_def bind_signer_keys_Ok)

lemma verify_any_domain_Ok:
  "verify_qc_any_domain_with_profile L qc vs ch pr = Ok () \<longleftrightarrow>
     verify_qc_with_profile L qc vs pr = Ok () \<or> verify_commit_qc_with_profile L qc vs ch pr = Ok ()"
  by (auto simp: verify_qc_any_domain_with_profile_def verify_qc_with_profile_def
      verify_commit_qc_with_profile_def bind_signer_keys_Ok)

lemma verified_quorum:
  "verify_qc_with_profile L qc vs pr = Ok () \<Longrightarrow> vset_quorum vs (signer_set (qc_signers qc))"
  "verify_commit_qc_with_profile L qc vs ch pr = Ok () \<Longrightarrow> vset_quorum vs (signer_set (qc_signers qc))"
  "verify_tc_with_profile L tc vs pr = Ok () \<Longrightarrow> vset_quorum vs (signer_set (tc_signers tc))"
  by (simp_all add: verify_qc_Ok verify_commit_qc_Ok verify_tc_Ok signer_set_quorum)

section \<open>A built certificate verifies\<close>

text \<open>
  The documented contract of aggregation: the aggregate of signatures that verify one by one
  over one message verifies against their keys, in any order. (Key lists that sum to the point
  at infinity are neglected.)
\<close>

definition aggregate_complete :: "ext_lib \<Rightarrow> bool" where
  "aggregate_complete L \<longleftrightarrow>
     (\<forall>dst message pairs agg pks.
        pairs \<noteq> [] \<longrightarrow>
        (\<forall>p \<in> set pairs. blst_verify L (fst p) message dst (snd p) False = BLST_SUCCESS) \<longrightarrow>
        blst_aggregate L (map fst pairs) = Some agg \<longrightarrow> mset pks = mset (map snd pairs) \<longrightarrow>
        blst_fast_aggregate_verify L agg message dst pks = BLST_SUCCESS)"

definition entry_valid :: "ext_lib \<Rightarrow> signing_profile \<Rightarrow> bytes \<Rightarrow> validator_set \<Rightarrow> u32 \<Rightarrow> signature \<Rightarrow> bool" where
  "entry_valid L pr message vs i sig \<longleftrightarrow>
     (case get_public_key vs i of Ok pk \<Rightarrow> verify_single L pr pk message sig | _ \<Rightarrow> False)"

lemma entry_validE:
  assumes "entry_valid L pr message vs i sig"
  obtains "unat i < length (validators vs)" and "verify_single L pr (key_at vs (unat i)) message sig"
  using assms by (auto simp: entry_valid_def get_public_key_def key_at_def split: if_splits)

lemma aggregate_of_entries_verifies:
  assumes "aggregate_complete L" and d: "distinct (map fst valid)"
    and ok: "\<And>e. e \<in> set valid \<Longrightarrow> unat (fst e) < n \<and> entry_valid L pr message vs (fst e) (fst (snd e))"
    and agg: "aggregate L (map (\<lambda>(_, sig, _). sig) valid) = Ok agg"
  shows "profile_verify_aggregate L pr message agg
    (map (key_at vs) (positions (\<lambda>b. b) (signer_bitmap n (map fst valid))))"
proof -
  let ?pairs = "map (\<lambda>e. (fst (snd e), key_at vs (unat (fst e)))) valid"
  have sigs: "map (\<lambda>(_, sig, _). sig) valid = map fst ?pairs" by auto
  have ne: "?pairs \<noteq> []" and a: "blst_aggregate L (map fst ?pairs) = Some agg"
    using agg unfolding sigs aggregate_def by (auto split: if_splits option.splits)
  have "blst_verify L (fst (snd e)) message (profile_dst pr) (key_at vs (unat (fst e))) False = BLST_SUCCESS"
    if "e \<in> set valid" for e
    using ok [OF that] by (rule conjE) (erule entry_validE, simp add: verify_single_iff)
  then have single: "\<forall>p \<in> set ?pairs.
      blst_verify L (fst p) message (profile_dst pr) (snd p) False = BLST_SUCCESS"
    by simp
  have "mset (positions (\<lambda>b. b) (signer_bitmap n (map fst valid))) = mset (map unat (map fst valid))"
    using d ok by (intro mset_positions_bitmap) auto
  then have "mset (map (key_at vs) (positions (\<lambda>b. b) (signer_bitmap n (map fst valid))))
      = mset (map snd ?pairs)"
    by (simp add: comp_def image_mset.compositionality)
  then show ?thesis
    using assms(1) ne single a unfolding aggregate_complete_def profile_verify_aggregate_iff by blast
qed

definition vc_valid :: "ext_lib \<Rightarrow> signing_profile \<Rightarrow> bytes \<Rightarrow> validator_set \<Rightarrow> vote_collector \<Rightarrow> bool" where
  "vc_valid L pr message vs c \<longleftrightarrow>
     (\<forall>(i, sig) \<in> set (vc_votes c). i \<in> vc_verified c \<longrightarrow> entry_valid L pr message vs i sig)"

definition tcol_valid :: "ext_lib \<Rightarrow> signing_profile \<Rightarrow> validator_set \<Rightarrow> timeout_collector \<Rightarrow> bool" where
  "tcol_valid L pr vs c \<longleftrightarrow>
     (\<forall>(i, sig, qc) \<in> set (tc_timeouts c). i \<in> tc_verified c \<longrightarrow>
        entry_valid L pr (timeout_msg_bytes pr (tc_col_view c)) vs i sig)"

text \<open>What a build keeps of the entries: distinct indices in range, each with a valid signature.\<close>

lemma accepted_entries_sound:
  fixes n :: u32
  assumes "multi_pairing_sound L" and "pk_validation_monotone L"
    and "distinct (map fst es)"
    and "\<forall>e \<in> set es. fst e \<in> V \<longrightarrow> entry_valid L pr message vs (fst e) (fst (snd e))"
  defines "valid \<equiv> accepted_entries L pr message n V vs es"
  shows "distinct (map fst valid)"
    and "\<And>e. e \<in> set valid \<Longrightarrow> e \<in> set es"
    and "\<And>e. e \<in> set valid \<Longrightarrow> unat (fst e) < unat n \<and> entry_valid L pr message vs (fst e) (fst (snd e))"
    and "signer_set (signer_bitmap (unat n) (map fst valid)) = unat ` fst ` set valid"
    and "card (signer_set (signer_bitmap (unat n) (map fst valid))) = length valid"
proof -
  show d: "distinct (map fst valid)"
    unfolding valid_def using assms(3) by (rule accepted_entries_distinct)
  note v = accepted_entries_valid [OF assms(1,2), of _ pr message n V vs es, folded valid_def]
  show "e \<in> set es" if "e \<in> set valid" for e using v [OF that] by blast
  show r: "unat (fst e) < unat n \<and> entry_valid L pr message vs (fst e) (fst (snd e))"
    if "e \<in> set valid" for e
    using v [OF that] assms(4) by (auto simp: entry_valid_def word_less_nat_alt)
  show s: "signer_set (signer_bitmap (unat n) (map fst valid)) = unat ` fst ` set valid"
    using r by (subst signer_set_bitmap) auto
  have "inj_on unat (fst ` set valid)" by (simp add: inj_on_def word_unat_eq_iff)
  then show "card (signer_set (signer_bitmap (unat n) (map fst valid))) = length valid"
    using d by (simp add: s card_image card_keys)
qed

lemma aggregate_neq_Panic: "aggregate L sigs \<noteq> Panic"
  by (simp add: aggregate_def split: option.split)

lemma build_qc_Ok:
  assumes "build_qc_with_profile_message L vs message pr c = Ok qc"
  defines "valid \<equiv> accepted_entries L pr message (vc_set_size c) (vc_verified c) vs
    (map (\<lambda>(i, sig). (i, sig, ())) (vc_votes c))"
  shows "vc_set_size c = vset_len vs" and "quorum_size vs \<le> length valid"
    and "qc_view qc = vc_view c" and "qc_block_hash qc = vc_block_hash c"
    and "qc_signers qc = signer_bitmap (unat (vc_set_size c)) (map fst valid)"
    and "aggregate L (map (\<lambda>(_, sig, _). sig) valid) = Ok (qc_aggregate_signature qc)"
  using assms(1) unfolding build_qc_with_profile_message_def Let_def valid_def
  by (auto split: if_splits outcome.splits)

lemma build_qc_sound:
  assumes "multi_pairing_sound L" and "pk_validation_monotone L" and "aggregate_complete L"
    and inv: "vc_inv c" and valid: "vc_valid L pr message vs c"
    and build: "build_qc_with_profile_message L vs message pr c = Ok qc"
  shows "length (qc_signers qc) = unat (vset_len vs)"
    and "quorum_size vs \<le> card (signer_set (qc_signers qc))"
    and "signer_set (qc_signers qc) \<subseteq> unat ` vc_voters c"
    and "profile_verify_aggregate L pr message (qc_aggregate_signature qc)
           (map (key_at vs) (positions (\<lambda>b. b) (qc_signers qc)))"
proof -
  let ?es = "map (\<lambda>(i, sig). (i, sig, ())) (vc_votes c)"
  note b = build_qc_Ok [OF build]
  have d: "distinct (map fst ?es)"
    using inv by (simp add: vc_inv_def comp_def case_prod_beta)
  have e: "\<forall>e \<in> set ?es. fst e \<in> vc_verified c \<longrightarrow> entry_valid L pr message vs (fst e) (fst (snd e))"
    using valid by (auto simp: vc_valid_def)
  note s = accepted_entries_sound [OF assms(1,2) d e, where n = "vc_set_size c"]
  show "length (qc_signers qc) = unat (vset_len vs)" by (simp add: b(1,5))
  show "quorum_size vs \<le> card (signer_set (qc_signers qc))"
    unfolding b(5) s(5) by (rule b(2))
  have "fst ` set (accepted_entries L pr message (vc_set_size c) (vc_verified c) vs ?es) \<subseteq> vc_voters c"
    using s(2) by (force simp: vc_voters_def)
  then show "signer_set (qc_signers qc) \<subseteq> unat ` vc_voters c"
    unfolding b(5) s(4) by (rule image_mono)
  show "profile_verify_aggregate L pr message (qc_aggregate_signature qc)
           (map (key_at vs) (positions (\<lambda>b. b) (qc_signers qc)))"
    unfolding b(5) by (rule aggregate_of_entries_verifies [OF assms(3) s(1,3) b(6)])
qed

lemma highest_qc_fold:
  "\<exists>q. fold (\<lambda>qc best. case best of None \<Rightarrow> Some qc
      | Some hq \<Rightarrow> if qc_view qc > qc_view hq then Some qc else best) qcs (Some q0) = Some q \<and>
     q \<in> insert q0 (set qcs) \<and> (\<forall>x \<in> insert q0 (set qcs). qc_view x \<le> qc_view q)"
proof (induction qcs arbitrary: q0)
  case Nil
  then show ?case by simp
next
  case (Cons x qcs)
  show ?case
  proof (cases "qc_view x > qc_view q0")
    case True
    with Cons.IH [of x] show ?thesis by fastforce
  next
    case False
    with Cons.IH [of q0] show ?thesis by fastforce
  qed
qed

lemma highest_qc_Some:
  assumes "qcs \<noteq> []"
  obtains q where "highest_qc qcs = Some q" and "q \<in> set qcs"
    and "\<And>x. x \<in> set qcs \<Longrightarrow> qc_view x \<le> qc_view q"
proof -
  obtain q0 rest where qcs: "qcs = q0 # rest" using assms by (cases qcs) auto
  from highest_qc_fold [of rest q0] that show thesis
    unfolding highest_qc_def qcs by fastforce
qed

lemma build_tc_Ok:
  assumes "build_tc_with_profile L vs pr c = Ok tc"
  defines "valid \<equiv> accepted_entries L pr (timeout_msg_bytes pr (tc_col_view c)) (tc_set_size c)
    (tc_verified c) vs (tc_timeouts c)"
  shows "tc_set_size c = vset_len vs" and "quorum_size vs \<le> length valid"
    and "tc_view tc = tc_col_view c"
    and "highest_qc (map (\<lambda>(_, _, qc). qc) valid) = Some (tc_high_qc tc)"
    and "tc_signers tc = signer_bitmap (unat (tc_set_size c)) (map fst valid)"
    and "aggregate L (map (\<lambda>(_, sig, _). sig) valid) = Ok (tc_aggregate_signature tc)"
  using assms(1) unfolding build_tc_with_profile_def Let_def valid_def
  by (auto split: if_splits outcome.splits option.splits)

lemma build_tc_sound:
  assumes "multi_pairing_sound L" and "pk_validation_monotone L" and "aggregate_complete L"
    and inv: "tcol_inv c" and valid: "tcol_valid L pr vs c"
    and build: "build_tc_with_profile L vs pr c = Ok tc"
  shows "length (tc_signers tc) = unat (vset_len vs)"
    and "quorum_size vs \<le> card (signer_set (tc_signers tc))"
    and "signer_set (tc_signers tc) \<subseteq> unat ` tcol_voters c"
    and "profile_verify_aggregate L pr (timeout_msg_bytes pr (tc_view tc)) (tc_aggregate_signature tc)
           (map (key_at vs) (positions (\<lambda>b. b) (tc_signers tc)))"
    and "\<exists>i sig. (i, sig, tc_high_qc tc) \<in> set (tc_timeouts c)"
    and "\<And>i sig qc. (i, sig, qc) \<in> set (tc_timeouts c) \<Longrightarrow> unat i \<in> signer_set (tc_signers tc) \<Longrightarrow>
           qc_view qc \<le> qc_view (tc_high_qc tc)"
proof -
  let ?msg = "timeout_msg_bytes pr (tc_col_view c)"
  let ?valid = "accepted_entries L pr ?msg (tc_set_size c) (tc_verified c) vs (tc_timeouts c)"
  note b = build_tc_Ok [OF build]
  have d: "distinct (map fst (tc_timeouts c))" using inv by (simp add: tcol_inv_def)
  have e: "\<forall>e \<in> set (tc_timeouts c). fst e \<in> tc_verified c \<longrightarrow>
      entry_valid L pr ?msg vs (fst e) (fst (snd e))"
    using valid by (auto simp: tcol_valid_def)
  note s = accepted_entries_sound [OF assms(1,2) d e, where n = "tc_set_size c"]
  show "length (tc_signers tc) = unat (vset_len vs)" by (simp add: b(1,5))
  show "quorum_size vs \<le> card (signer_set (tc_signers tc))"
    unfolding b(5) s(5) by (rule b(2))
  have "fst ` set ?valid \<subseteq> tcol_voters c"
    using s(2) by (force simp: tcol_voters_def)
  then show "signer_set (tc_signers tc) \<subseteq> unat ` tcol_voters c"
    unfolding b(5) s(4) by (rule image_mono)
  show "profile_verify_aggregate L pr (timeout_msg_bytes pr (tc_view tc)) (tc_aggregate_signature tc)
           (map (key_at vs) (positions (\<lambda>b. b) (tc_signers tc)))"
    unfolding b(3,5) by (rule aggregate_of_entries_verifies [OF assms(3) s(1,3) b(6)])
  have "map (\<lambda>(_, _, qc). qc) ?valid \<noteq> []" using b(4) by (auto simp: highest_qc_def)
  then obtain q where q: "highest_qc (map (\<lambda>(_, _, qc). qc) ?valid) = Some q"
    and q_in: "q \<in> set (map (\<lambda>(_, _, qc). qc) ?valid)"
    and q_max: "\<And>x. x \<in> set (map (\<lambda>(_, _, qc). qc) ?valid) \<Longrightarrow> qc_view x \<le> qc_view q"
    using highest_qc_Some by blast
  have high: "tc_high_qc tc = q" using b(4) q by simp
  show "\<exists>i sig. (i, sig, tc_high_qc tc) \<in> set (tc_timeouts c)"
    using q_in s(2) by (force simp: high)
  show "qc_view qc \<le> qc_view (tc_high_qc tc)"
    if t: "(i, sig, qc) \<in> set (tc_timeouts c)" and i: "unat i \<in> signer_set (tc_signers tc)" for i sig qc
  proof -
    from i obtain e where ev: "e \<in> set ?valid" and ei: "fst e = i"
      unfolding b(5) s(4) by (auto simp: word_unat_eq_iff)
    have "e = (i, sig, qc)"
      using s(2) [OF ev] t ei d by (metis eq_key_imp_eq_value prod.collapse)
    then show ?thesis using q_max [of qc] ev by (force simp: high)
  qed
qed

text \<open>Completeness: with every entry verified beforehand, a quorum always yields a certificate.\<close>

lemma build_qc_total:
  assumes "vset_len vs = vc_set_size c" and "vc_has_quorum (quorum_size vs) c"
    and "vc_voters c \<subseteq> vc_verified c" and "\<And>i. i \<in> vc_voters c \<Longrightarrow> i < vc_set_size c"
    and "aggregate L (map snd (vc_votes c)) = Ok agg"
  shows "build_qc_with_profile_message L vs message pr c =
    Ok \<lparr> qc_view = vc_view c, qc_block_hash = vc_block_hash c, qc_aggregate_signature = agg,
         qc_signers = signer_bitmap (unat (vc_set_size c)) (map fst (vc_votes c)) \<rparr>"
proof -
  let ?es = "map (\<lambda>(i, sig). (i, sig, ())) (vc_votes c)"
  have "accepted_entries L pr message (vc_set_size c) (vc_verified c) vs ?es = ?es"
    using assms(3,4) by (intro accepted_entries_all_verified) (force simp: vc_voters_def)
  moreover have "map (\<lambda>(_, sig, _). sig) ?es = map snd (vc_votes c)" "map fst ?es = map fst (vc_votes c)"
    by auto
  ultimately show ?thesis
    using assms(1,2,5)
    by (simp add: build_qc_with_profile_message_def Let_def vc_has_quorum_def del: map_map)
qed

section \<open>Properties\<close>

text \<open>
  A collector counts validators, not messages: after any sequence of votes, repeated and
  conflicting ones included, the vote count is the number of distinct voters, and likewise for
  timeouts.
\<close>

lemma collectors_count_validators:
  "vote_count (fold (\<lambda>(i, sig) c. case add_verified_vote i sig c of Ok c' \<Rightarrow> c' | _ \<Rightarrow> c)
      ms (vc_new view b n)) = card (fst ` set ms) \<and>
   timeout_count (fold (\<lambda>(i, sig, qc) c. case add_verified_timeout i sig qc c of Ok c' \<Rightarrow> c' | _ \<Rightarrow> c)
      ts (tcol_new view n)) = card (fst ` set ts)"
proof -
  have "(\<lambda>(i, sig) c. case add_verified_vote i sig c of Ok c' \<Rightarrow> c' | _ \<Rightarrow> c) = votes.keep"
    by (auto simp: votes.keep_def fun_eq_iff)
  moreover have "(\<lambda>(i, sig, qc) c. case add_verified_timeout i sig qc c of Ok c' \<Rightarrow> c' | _ \<Rightarrow> c) = timeouts.keep"
    by (auto simp: timeouts.keep_def fun_eq_iff)
  ultimately show ?thesis
    using votes.tally_distinct_senders [of "vc_new view b n" ms]
      timeouts.tally_distinct_senders [of "tcol_new view n" ts]
    by (simp add: vc_inv_def vc_new_def vc_voters_def tcol_inv_def tcol_new_def tcol_voters_def)
qed

text \<open>
  C9. A certificate built from a collector verifies: it has the collector's view and block, it is
  accepted by the verifier for the message that was collected, and all its signers had voted. The
  votes the collector holds as already verified need to be so; the others are checked by the build.
\<close>

theorem build_qc_verifies:
  assumes "multi_pairing_sound L" and "pk_validation_monotone L" and "aggregate_complete L"
    and "vc_inv c" and "vc_valid L pr message vs c"
    and "build_qc_with_profile_message L vs message pr c = Ok qc"
  shows "qc_view qc = vc_view c \<and> qc_block_hash qc = vc_block_hash c \<and>
    signer_set (qc_signers qc) \<subseteq> unat ` vc_voters c \<and>
    (message = vote_message pr (vc_view c) (vc_block_hash c) \<longrightarrow> verify_qc_with_profile L qc vs pr = Ok ()) \<and>
    (\<forall>ch. message = commit_message pr (vc_view c) (vc_block_hash c) ch \<longrightarrow>
       verify_commit_qc_with_profile L qc vs ch pr = Ok ())"
  using build_qc_sound [OF assms] build_qc_Ok(3,4) [OF assms(6)]
  by (auto simp: verify_qc_Ok verify_commit_qc_Ok)

definition toy_votes :: vote_collector where
  "toy_votes = \<lparr> vc_view = 8, vc_block_hash = 77,
     vc_votes = map (\<lambda>i. (i, vote_message Native 8 77)) [0, 1, 2], vc_set_size = 4, vc_verified = {0, 1, 2} \<rparr>"

lemma toy_aggregate_complete: "aggregate_complete (toy_lib (\<lambda>_. True))"
  by (simp add: aggregate_complete_def)

lemma toy_votes_built:
  "build_qc_with_profile_message (toy_lib P) four_set (vote_message Native 8 77) Native toy_votes =
    Ok \<lparr> qc_view = 8, qc_block_hash = 77, qc_aggregate_signature = vote_message Native 8 77,
         qc_signers = [True, True, True, False] \<rparr>"
proof -
  have "signer_bitmap 4 [0, 1, 2] = [True, True, True, False]" by code_simp
  then show ?thesis
    by (subst build_qc_total [where agg = "vote_message Native 8 77"])
      (auto simp: toy_votes_def four_set_def vset_len_def vc_has_quorum_def quorum_size_def vc_voters_def
        aggregate_def)
qed

lemma toy_votes_valid: "vc_inv toy_votes" "vc_valid (toy_lib P) Native (vote_message Native 8 77) four_set toy_votes"
  by (auto simp: vc_inv_def vc_valid_def toy_votes_def vc_voters_def entry_valid_def get_public_key_def
      four_set_def verify_single_iff)

theorem build_qc_verifies_witness:
  "verify_qc_with_profile (toy_lib (\<lambda>_. True)) \<lparr> qc_view = 8, qc_block_hash = 77,
     qc_aggregate_signature = vote_message Native 8 77, qc_signers = [True, True, True, False] \<rparr>
     four_set Native = Ok ()"
  using build_qc_verifies [OF toy_lib_contracts toy_aggregate_complete toy_votes_valid toy_votes_built]
  by (simp add: toy_votes_def)

text \<open>
  C22. Building succeeds once a quorum has voted: with a quorum of votes that were verified when they
  were added and an aggregation that accepts them, the build returns the certificate with exactly
  the voters' bits set.
\<close>

theorem build_qc_succeeds:
  assumes "vset_len vs = vc_set_size c" and "vc_has_quorum (quorum_size vs) c"
    and "vc_voters c \<subseteq> vc_verified c" and "\<forall>i. i \<in> vc_voters c \<longrightarrow> i < vc_set_size c"
    and "aggregate L (map snd (vc_votes c)) = Ok agg"
  shows "\<exists>qc. build_qc_with_profile_message L vs message pr c = Ok qc \<and>
    qc_aggregate_signature qc = agg \<and> signer_set (qc_signers qc) = unat ` vc_voters c"
proof -
  have "signer_set (signer_bitmap (unat (vc_set_size c)) (map fst (vc_votes c))) = unat ` vc_voters c"
    using assms(4) by (subst signer_set_bitmap) (auto simp: vc_voters_def word_less_nat_alt)
  then show ?thesis using build_qc_total [OF assms(1-3) _ assms(5)] assms(4) by simp
qed

theorem build_qc_succeeds_witness:
  "\<exists>qc. build_qc_with_profile_message (toy_lib (\<lambda>_. True)) four_set (vote_message Native 8 77) Native toy_votes
     = Ok qc \<and> signer_set (qc_signers qc) = {0, 1, 2}"
  using build_qc_succeeds [of four_set toy_votes "toy_lib (\<lambda>_. True)" "vote_message Native 8 77"
      "vote_message Native 8 77" Native]
  by (auto simp: toy_votes_def four_set_def vset_len_def vc_has_quorum_def quorum_size_def vc_voters_def
      aggregate_def)

text \<open>
  C10. A timeout certificate built from a collector verifies for its view, its signers had timed out,
  and its high QC is one of the collected ones with the highest view among the signers' reports.
\<close>

theorem build_tc_verifies:
  assumes "multi_pairing_sound L" and "pk_validation_monotone L" and "aggregate_complete L"
    and "tcol_inv c" and "tcol_valid L pr vs c" and "build_tc_with_profile L vs pr c = Ok tc"
  shows "tc_view tc = tc_col_view c \<and> verify_tc_with_profile L tc vs pr = Ok () \<and>
    signer_set (tc_signers tc) \<subseteq> unat ` tcol_voters c \<and>
    (\<exists>i sig. (i, sig, tc_high_qc tc) \<in> set (tc_timeouts c)) \<and>
    (\<forall>i sig qc. (i, sig, qc) \<in> set (tc_timeouts c) \<and> unat i \<in> signer_set (tc_signers tc) \<longrightarrow>
       qc_view qc \<le> qc_view (tc_high_qc tc))"
  using build_tc_sound [OF assms] build_tc_Ok(3) [OF assms(6)] by (auto simp: verify_tc_Ok)

definition toy_timeouts :: timeout_collector where
  "toy_timeouts = \<lparr> tc_col_view = 8,
     tc_timeouts = map (\<lambda>i. (i, timeout_msg_bytes Native 8,
       \<lparr> qc_view = ucast i, qc_block_hash = 0, qc_aggregate_signature = [], qc_signers = [] \<rparr>)) [0, 1, 2],
     tc_set_size = 4, tc_verified = {0, 1, 2} \<rparr>"

theorem build_tc_verifies_witness:
  "\<exists>tc. build_tc_with_profile (toy_lib (\<lambda>_. True)) four_set Native toy_timeouts = Ok tc \<and>
     verify_tc_with_profile (toy_lib (\<lambda>_. True)) tc four_set Native = Ok () \<and> qc_view (tc_high_qc tc) = 2"
proof -
  have entries: "accepted_entries L pr m 4 {0, 1, 2} four_set (tc_timeouts toy_timeouts) = tc_timeouts toy_timeouts"
    for L pr m by (rule accepted_entries_all_verified) (auto simp: toy_timeouts_def)
  have inv: "tcol_inv toy_timeouts" "tcol_valid (toy_lib (\<lambda>_. True)) Native four_set toy_timeouts"
    by (auto simp: tcol_inv_def tcol_valid_def toy_timeouts_def tcol_voters_def entry_valid_def
        get_public_key_def four_set_def verify_single_iff)
  have "\<exists>tc. build_tc_with_profile (toy_lib (\<lambda>_. True)) four_set Native toy_timeouts = Ok tc \<and>
      qc_view (tc_high_qc tc) = 2"
    using entries unfolding build_tc_with_profile_def
    by (simp add: toy_timeouts_def four_set_def vset_len_def quorum_size_def highest_qc_def aggregate_def Let_def)
  then obtain tc where tc: "build_tc_with_profile (toy_lib (\<lambda>_. True)) four_set Native toy_timeouts = Ok tc"
    "qc_view (tc_high_qc tc) = 2" by blast
  then show ?thesis
    using build_tc_verifies [OF toy_lib_contracts toy_aggregate_complete inv tc(1)] by blast
qed

end
