(* ===== verification/N42_Epoch.thy ===== *)
theory N42_Epoch
  imports N42_Signing N42_Validators
begin

text \<open>
  The epoch manager of \<^verbatim>\<open>n42-consensus/src/validator/epoch.rs\<close>: which validator set a view
  belongs to, how a new set is staged and activated, and the queue of proposed membership
  changes. The history of past sets is a \<open>BTreeMap\<close> and is kept here as an association list in
  ascending epoch order. \<open>u64\<close> additions that the source leaves unchecked wrap, as in a release
  build.
\<close>

section \<open>Definitions\<close>

record epoch_manager =
  epoch_length :: u64
  current_epoch :: u64
  current_set :: validator_set
  next_set :: "validator_set option"
  staged_info :: "(validator_info list \<times> u32) option"
  historical_sets :: "(u64 \<times> validator_set) list"
  max_historical_epochs :: nat
  pending_adds :: "validator_info list"
  pending_removes :: "address list"

definition DEFAULT_MAX_HISTORICAL_EPOCHS :: nat where "DEFAULT_MAX_HISTORICAL_EPOCHS = 32"
definition MAX_HISTORICAL_EPOCHS_LIMIT :: nat where "MAX_HISTORICAL_EPOCHS_LIMIT = 256"
definition MIN_VALIDATOR_COUNT :: nat where "MIN_VALIDATOR_COUNT = 4"

definition clamp_max_historical :: "nat \<Rightarrow> nat" where
  "clamp_max_historical v = max 1 (min v MAX_HISTORICAL_EPOCHS_LIMIT)"

text \<open>Insertion into the ordered map, replacing the value of a key that is present.\<close>

fun btree_insert :: "u64 \<Rightarrow> 'v \<Rightarrow> (u64 \<times> 'v) list \<Rightarrow> (u64 \<times> 'v) list" where
  "btree_insert k v [] = [(k, v)]"
| "btree_insert k v ((k', v') # m) =
     (if k < k' then (k, v) # (k', v') # m
      else if k = k' then (k, v) # m
      else (k', v') # btree_insert k v m)"

text \<open>The trimming loop removes the smallest key while the map exceeds the bound.\<close>

fun trim_to :: "nat \<Rightarrow> (u64 \<times> 'v) list \<Rightarrow> (u64 \<times> 'v) list" where
  "trim_to bound [] = []"
| "trim_to bound (e # m) = (if length (e # m) > bound then trim_to bound m else e # m)"

definition epoch_new :: "validator_set \<Rightarrow> epoch_manager" where
  "epoch_new vs =
     \<lparr> epoch_length = 0, current_epoch = 0, current_set = vs, next_set = None, staged_info = None,
       historical_sets = [], max_historical_epochs = DEFAULT_MAX_HISTORICAL_EPOCHS,
       pending_adds = [], pending_removes = [] \<rparr>"

definition with_epoch_length_and_history :: "validator_set \<Rightarrow> u64 \<Rightarrow> nat \<Rightarrow> epoch_manager" where
  "with_epoch_length_and_history vs len hist =
     \<lparr> epoch_length = len, current_epoch = 0, current_set = vs, next_set = None, staged_info = None,
       historical_sets = [], max_historical_epochs = clamp_max_historical hist,
       pending_adds = [], pending_removes = [] \<rparr>"

definition with_epoch_length :: "validator_set \<Rightarrow> u64 \<Rightarrow> epoch_manager" where
  "with_epoch_length vs len = with_epoch_length_and_history vs len DEFAULT_MAX_HISTORICAL_EPOCHS"

definition from_epoch_with_history :: "validator_set \<Rightarrow> u64 \<Rightarrow> u64 \<Rightarrow> nat \<Rightarrow> epoch_manager" where
  "from_epoch_with_history vs len starting_epoch hist =
     \<lparr> epoch_length = len, current_epoch = starting_epoch, current_set = vs, next_set = None,
       staged_info = None, historical_sets = [], max_historical_epochs = clamp_max_historical hist,
       pending_adds = [], pending_removes = [] \<rparr>"

definition from_epoch :: "validator_set \<Rightarrow> u64 \<Rightarrow> u64 \<Rightarrow> epoch_manager" where
  "from_epoch vs len starting_epoch =
     from_epoch_with_history vs len starting_epoch DEFAULT_MAX_HISTORICAL_EPOCHS"

fun schedule_history ::
  "ext_lib \<Rightarrow> (u64 \<times> validator_info list \<times> u32) list \<Rightarrow> (u64 \<times> validator_set) list
   \<Rightarrow> (u64 \<times> validator_set) list consensus_result" where
  "schedule_history L [] historical = Ok historical"
| "schedule_history L ((epoch, infos, f) # rest) historical =
     bind_outcome (vset_try_new L infos f) (\<lambda>vs.
       schedule_history L rest (btree_insert epoch vs historical))"

definition from_schedule_with_history ::
  "ext_lib \<Rightarrow> u64 \<Rightarrow> (u64 \<times> validator_info list \<times> u32) list \<Rightarrow> nat \<Rightarrow> epoch_manager consensus_result" where
  "from_schedule_with_history L len schedule hist =
     (if schedule = [] then Err EpochScheduleEmpty
      else bind_outcome (schedule_history L (butlast schedule) []) (\<lambda>historical.
        let (epoch, infos, f) = last schedule in
        bind_outcome (vset_try_new L infos f) (\<lambda>vs.
          Ok \<lparr> epoch_length = len, current_epoch = epoch, current_set = vs, next_set = None,
               staged_info = None,
               historical_sets = trim_to (clamp_max_historical hist) historical,
               max_historical_epochs = clamp_max_historical hist,
               pending_adds = [], pending_removes = [] \<rparr>)))"

definition from_schedule ::
  "ext_lib \<Rightarrow> u64 \<Rightarrow> (u64 \<times> validator_info list \<times> u32) list \<Rightarrow> epoch_manager consensus_result" where
  "from_schedule L len schedule =
     from_schedule_with_history L len schedule DEFAULT_MAX_HISTORICAL_EPOCHS"

definition epochs_enabled :: "epoch_manager \<Rightarrow> bool" where
  "epochs_enabled em \<longleftrightarrow> epoch_length em > 0"

definition epoch_for_view :: "u64 \<Rightarrow> epoch_manager \<Rightarrow> u64" where
  "epoch_for_view view em =
     (if epoch_length em = 0 then 0 else saturating_sub view 1 div epoch_length em)"

definition is_epoch_boundary :: "u64 \<Rightarrow> epoch_manager \<Rightarrow> bool" where
  "is_epoch_boundary view em \<longleftrightarrow>
     (if epoch_length em = 0 \<or> view \<le> 1 then False
      else saturating_sub view 1 mod epoch_length em = 0)"

definition validator_set_for_view :: "u64 \<Rightarrow> epoch_manager \<Rightarrow> validator_set" where
  "validator_set_for_view view em =
     (if epoch_length em = 0 then current_set em
      else let epoch = epoch_for_view view em in
        if epoch = current_epoch em then current_set em
        else if epoch = current_epoch em + 1 \<and> next_set em \<noteq> None then the (next_set em)
        else case map_of (historical_sets em) epoch of
               Some vs \<Rightarrow> vs
             | None \<Rightarrow> current_set em)"

definition known_validator_set_for_view :: "u64 \<Rightarrow> epoch_manager \<Rightarrow> validator_set option" where
  "known_validator_set_for_view view em =
     (if epoch_length em = 0 then Some (current_set em)
      else let epoch = epoch_for_view view em in
        if epoch = current_epoch em then Some (current_set em)
        else if epoch = current_epoch em + 1 then next_set em
        else map_of (historical_sets em) epoch)"

definition stage_next_epoch ::
  "ext_lib \<Rightarrow> validator_info list \<Rightarrow> u32 \<Rightarrow> epoch_manager \<Rightarrow> epoch_manager \<times> unit consensus_result" where
  "stage_next_epoch L infos f em =
     trying (vset_try_new L infos f) em (\<lambda>vs.
       (em\<lparr> next_set := Some vs, staged_info := Some (infos, f) \<rparr>, Ok ()))"

definition staged_epoch_info :: "epoch_manager \<Rightarrow> (u64 \<times> validator_info list \<times> u32) option" where
  "staged_epoch_info em = map_option (\<lambda>(infos, f). (current_epoch em + 1, infos, f)) (staged_info em)"

definition trim_historical :: "epoch_manager \<Rightarrow> epoch_manager" where
  "trim_historical em =
     em\<lparr> historical_sets := trim_to (max_historical_epochs em) (historical_sets em) \<rparr>"

definition advance_epoch :: "epoch_manager \<Rightarrow> epoch_manager \<times> bool" where
  "advance_epoch em = (case next_set em of
     None \<Rightarrow> (em, False)
   | Some new_set \<Rightarrow>
       let em = em\<lparr> next_set := None, staged_info := None,
                    historical_sets := btree_insert (current_epoch em) (current_set em) (historical_sets em) \<rparr>;
           em = trim_historical em
       in (em\<lparr> current_epoch := current_epoch em + 1, current_set := new_set \<rparr>, True))"

definition carry_epoch_forward :: "epoch_manager \<Rightarrow> epoch_manager \<times> bool" where
  "carry_epoch_forward em =
     (if next_set em \<noteq> None \<or> epoch_length em = 0 then (em, False)
      else let em = em\<lparr> historical_sets :=
                          btree_insert (current_epoch em) (current_set em) (historical_sets em) \<rparr>;
               em = trim_historical em
           in (em\<lparr> current_epoch := current_epoch em + 1 \<rparr>, True))"

definition historical_epoch_count :: "epoch_manager \<Rightarrow> nat" where
  "historical_epoch_count em = length (historical_sets em)"

definition has_staged_next :: "epoch_manager \<Rightarrow> bool" where
  "has_staged_next em \<longleftrightarrow> next_set em \<noteq> None"

section \<open>Proposed membership changes\<close>

definition check_proposals_allowed :: "epoch_manager \<Rightarrow> unit consensus_result" where
  "check_proposals_allowed em =
     (if epoch_length em = 0 then Err EpochsDisabled
      else if has_staged_next em then Err EpochTransitionAlreadyStaged
      else Ok ())"

definition propose_add_validator ::
  "validator_info \<Rightarrow> epoch_manager \<Rightarrow> epoch_manager \<times> unit consensus_result" where
  "propose_add_validator info em =
     trying (check_proposals_allowed em) em (\<lambda>_.
       let addr = vi_address info in
       if contains_address (current_set em) addr then (em, Err (ValidatorAlreadyExists addr))
       else if list_ex (\<lambda>v. vi_address v = addr) (pending_adds em)
       then (em, Err (ValidatorAlreadyExists addr))
       else (em\<lparr> pending_adds := pending_adds em @ [info] \<rparr>, Ok ()))"

definition propose_remove_validator ::
  "address \<Rightarrow> epoch_manager \<Rightarrow> epoch_manager \<times> unit consensus_result" where
  "propose_remove_validator addr em =
     trying (check_proposals_allowed em) em (\<lambda>_.
       if \<not> contains_address (current_set em) addr then (em, Err (ValidatorNotFound addr))
       else if addr \<in> set (pending_removes em) then (em, Err (ValidatorAlreadyPendingRemoval addr))
       else let future_count = unat (vset_len (current_set em)) + length (pending_adds em)
                  - length (pending_removes em) - 1 in
         if future_count < MIN_VALIDATOR_COUNT
         then (em, Err (InsufficientValidators future_count MIN_VALIDATOR_COUNT))
         else (em\<lparr> pending_removes := pending_removes em @ [addr] \<rparr>, Ok ()))"

definition has_pending_changes :: "epoch_manager \<Rightarrow> bool" where
  "has_pending_changes em \<longleftrightarrow> pending_adds em \<noteq> [] \<or> pending_removes em \<noteq> []"

definition pending_change_count :: "epoch_manager \<Rightarrow> nat" where
  "pending_change_count em = length (pending_adds em) + length (pending_removes em)"

text \<open>\<open>Vec::dedup_by_key\<close>: of consecutive elements with one key the first is kept.\<close>

fun dedup_by_key :: "('a \<Rightarrow> 'k) \<Rightarrow> 'a list \<Rightarrow> 'a list" where
  "dedup_by_key f [] = []"
| "dedup_by_key f [x] = [x]"
| "dedup_by_key f (x # y # xs) =
     (if f x = f y then dedup_by_key f (x # xs) else x # dedup_by_key f (y # xs))"

definition validate_transition :: "validator_info list \<Rightarrow> epoch_manager \<Rightarrow> unit consensus_result" where
  "validate_transition new_validators em =
     (if length new_validators < MIN_VALIDATOR_COUNT
      then Err (InsufficientValidators (length new_validators) MIN_VALIDATOR_COUNT)
      else let new_addrs = set (map vi_address new_validators);
               overlap = length (filter (\<lambda>i. case get_address (current_set em) (word_of_nat i) of
                             Ok addr \<Rightarrow> addr \<in> new_addrs | _ \<Rightarrow> False)
                           [0..<unat (vset_len (current_set em))]);
               required = quorum_size (current_set em)
           in if overlap < required then Err (InsufficientQuorumOverlap overlap required) else Ok ())"

definition new_validator_list :: "epoch_manager \<Rightarrow> validator_info list" where
  "new_validator_list em =
     dedup_by_key vi_address (sort_key vi_address
       (filter (\<lambda>v. vi_address v \<notin> set (pending_removes em)) (validator_infos (current_set em))
        @ pending_adds em))"

definition commit_pending_changes ::
  "ext_lib \<Rightarrow> epoch_manager \<Rightarrow> epoch_manager \<times> unit consensus_result" where
  "commit_pending_changes L em =
     (if \<not> has_pending_changes em then (em, Ok ())
      else let new_validators = new_validator_list em in
        trying (validate_transition new_validators em) em (\<lambda>_.
          let new_f = max_fault_tolerance_for_len (length new_validators) in
          andthen (stage_next_epoch L new_validators new_f em) (\<lambda>_ em.
            (em\<lparr> pending_adds := [], pending_removes := [] \<rparr>, Ok ()))))"

definition pending_changes_for_proposal :: "epoch_manager \<Rightarrow> validator_change list option" where
  "pending_changes_for_proposal em =
     (if \<not> has_pending_changes em then None
      else Some (map (\<lambda>info. Add (vi_address info) (vi_bls_public_key info) (vi_p2p_peer_id info))
                   (pending_adds em)
                 @ map Remove (pending_removes em)))"

definition pending_changes_hash :: "ext_lib \<Rightarrow> epoch_manager \<Rightarrow> b256" where
  "pending_changes_hash L em = (case pending_changes_for_proposal em of
     Some changes \<Rightarrow> if changes \<noteq> [] then hash_changes L changes else 0
   | None \<Rightarrow> 0)"

fun queue_change :: "validator_change \<Rightarrow> epoch_manager \<Rightarrow> epoch_manager" where
  "queue_change (Add address pk peer) em =
     em\<lparr> pending_adds := pending_adds em
          @ [\<lparr> vi_address = address, vi_bls_public_key = pk, vi_p2p_peer_id = peer \<rparr>] \<rparr>"
| "queue_change (Remove address) em = em\<lparr> pending_removes := pending_removes em @ [address] \<rparr>"

definition replace_pending_from_proposal :: "validator_change list \<Rightarrow> epoch_manager \<Rightarrow> epoch_manager" where
  "replace_pending_from_proposal changes em =
     fold queue_change changes (em\<lparr> pending_adds := [], pending_removes := [] \<rparr>)"

definition apply_committed_changes_from_sync ::
  "ext_lib \<Rightarrow> validator_change list \<Rightarrow> epoch_manager \<Rightarrow> epoch_manager \<times> unit consensus_result" where
  "apply_committed_changes_from_sync L changes em =
     commit_pending_changes L (replace_pending_from_proposal changes em)"

definition clear_pending_changes :: "epoch_manager \<Rightarrow> epoch_manager" where
  "clear_pending_changes em =
     (if has_pending_changes em then em\<lparr> pending_adds := [], pending_removes := [] \<rparr> else em)"

definition peek_next_set :: "epoch_manager \<Rightarrow> validator_set option" where
  "peek_next_set em = next_set em"

section \<open>The history of past sets\<close>

lemma keys_btree_insert: "fst ` set (btree_insert k v m) = insert k (fst ` set m)"
  by (induction k v m rule: btree_insert.induct) auto

lemma sorted_btree_insert:
  "sorted_wrt (<) (map fst m) \<Longrightarrow> sorted_wrt (<) (map fst (btree_insert k v m))"
proof (induction k v m rule: btree_insert.induct)
  case (2 k v k' v' m)
  have "\<forall>x \<in> fst ` set m. k' < x" using 2(2) by simp
  then show ?case
    using 2 keys_btree_insert [of k v m] by (auto simp: not_less)
qed simp

lemma map_of_btree_insert:
  "sorted_wrt (<) (map fst m) \<Longrightarrow> map_of (btree_insert k v m) = (map_of m)(k \<mapsto> v)"
  by (induction k v m rule: btree_insert.induct) (auto simp: fun_eq_iff)

lemma trim_to_drop: "trim_to b m = drop (length m - b) m"
proof (induction m)
  case (Cons e m)
  then show ?case by (auto simp: Suc_diff_le)
qed simp

lemma length_trim_to: "length (trim_to b m) \<le> b"
  by (simp add: trim_to_drop)

lemma sorted_wrt_drop': "sorted_wrt P xs \<Longrightarrow> sorted_wrt P (drop n xs)"
  by (metis append_take_drop_id sorted_wrt_append)

lemma sorted_trim_to: "sorted_wrt (<) (map fst m) \<Longrightarrow> sorted_wrt (<) (map fst (trim_to b m))"
  by (simp add: trim_to_drop drop_map [symmetric] sorted_wrt_drop')

text \<open>Trimming keeps the largest keys: an entry survives or is evicted, never replaced.\<close>

lemma map_of_trim_to:
  assumes "sorted_wrt (<) (map fst m)" and "map_of (trim_to b m) k = Some v"
  shows "map_of m k = Some v"
proof -
  have "(k, v) \<in> set m"
    using assms(2) by (metis in_set_dropD map_of_SomeD trim_to_drop)
  moreover have "distinct (map fst m)"
    using assms(1) strict_sorted_iff by blast
  ultimately show ?thesis by simp
qed

lemma trim_to_keeps_max:
  assumes "sorted_wrt (<) (map fst m)" and "(k, v) \<in> set m" and "\<And>j. j \<in> fst ` set m \<Longrightarrow> j \<le> k"
    and "1 \<le> b"
  shows "map_of (trim_to b m) k = Some v"
proof -
  obtain xs ys where m: "m = xs @ (k, v) # ys" using assms(2) by (meson split_list)
  have "ys = []"
  proof (cases ys)
    case (Cons y zs)
    then have "k < fst y" using assms(1) by (simp add: m sorted_wrt_append)
    moreover have "fst y \<le> k" using assms(3) [of "fst y"] by (simp add: m Cons)
    ultimately show ?thesis by simp
  qed
  then have "(k, v) \<in> set (trim_to b m)"
    using assms(4) by (simp add: trim_to_drop m)
  moreover have "distinct (map fst (trim_to b m))"
    using sorted_trim_to [OF assms(1)] strict_sorted_iff by blast
  ultimately show ?thesis by simp
qed

section \<open>Invariant\<close>

text \<open>
  The history is ordered, bounded and older than the current epoch; the active and the staged
  sets tolerate fewer than a third of their members; the staged set and its persisted form are
  present together.
\<close>

definition epoch_inv :: "epoch_manager \<Rightarrow> bool" where
  "epoch_inv em \<longleftrightarrow>
     sorted_wrt (<) (map fst (historical_sets em)) \<and>
     (\<forall>e \<in> fst ` set (historical_sets em). e < current_epoch em) \<and>
     length (historical_sets em) \<le> max_historical_epochs em \<and>
     1 \<le> max_historical_epochs em \<and> max_historical_epochs em \<le> MAX_HISTORICAL_EPOCHS_LIMIT \<and>
     vset_wf (current_set em) \<and>
     (\<forall>vs. next_set em = Some vs \<longrightarrow> vset_wf vs) \<and>
     (next_set em = None \<longleftrightarrow> staged_info em = None)"

lemma clamp_bounds: "1 \<le> clamp_max_historical v" "clamp_max_historical v \<le> MAX_HISTORICAL_EPOCHS_LIMIT"
  by (auto simp: clamp_max_historical_def MAX_HISTORICAL_EPOCHS_LIMIT_def)

lemma with_epoch_length_inv:
  "vset_wf vs \<Longrightarrow> epoch_inv (with_epoch_length_and_history vs len hist)"
  "vset_wf vs \<Longrightarrow> epoch_inv (from_epoch_with_history vs len e hist)"
  "vset_wf vs \<Longrightarrow> epoch_inv (epoch_new vs)"
  using clamp_bounds [of hist]
  by (simp_all add: epoch_inv_def with_epoch_length_and_history_def from_epoch_with_history_def
      epoch_new_def DEFAULT_MAX_HISTORICAL_EPOCHS_def MAX_HISTORICAL_EPOCHS_LIMIT_def)

lemma unat_Suc_word:
  assumes "c \<noteq> (- 1 :: 'a::len word)"
  shows "unat (c + 1) = Suc (unat c)"
proof -
  have "unat c \<noteq> unat (- 1 :: 'a word)" using assms by (simp add: word_unat_eq_iff)
  then have "unat c \<noteq> 2 ^ LENGTH('a) - 1" unfolding unat_max_word .
  then have "Suc (unat c) < 2 ^ LENGTH('a)" using unat_bound [of c] by linarith
  then show ?thesis by (simp add: unat_word_ariths)
qed

definition archive :: "epoch_manager \<Rightarrow> (u64 \<times> validator_set) list" where
  "archive em = trim_to (max_historical_epochs em)
     (btree_insert (current_epoch em) (current_set em) (historical_sets em))"

lemma archive_facts:
  assumes "epoch_inv em"
  shows "sorted_wrt (<) (map fst (archive em))" and "length (archive em) \<le> max_historical_epochs em"
    and "e \<in> fst ` set (archive em) \<Longrightarrow> e \<le> current_epoch em"
    and "map_of (archive em) (current_epoch em) = Some (current_set em)"
    and "e \<noteq> current_epoch em \<Longrightarrow> map_of (archive em) e = Some vs \<Longrightarrow>
           map_of (historical_sets em) e = Some vs"
proof -
  let ?m = "btree_insert (current_epoch em) (current_set em) (historical_sets em)"
  have h: "sorted_wrt (<) (map fst (historical_sets em))" using assms by (simp add: epoch_inv_def)
  have s: "sorted_wrt (<) (map fst ?m)" using h by (rule sorted_btree_insert)
  have le: "j \<le> current_epoch em" if "j \<in> fst ` set ?m" for j
    using that assms by (auto simp: keys_btree_insert epoch_inv_def intro: less_imp_le)
  show "sorted_wrt (<) (map fst (archive em))" unfolding archive_def using s by (rule sorted_trim_to)
  show "length (archive em) \<le> max_historical_epochs em" by (simp add: archive_def length_trim_to)
  show "e \<le> current_epoch em" if "e \<in> fst ` set (archive em)"
    using that le by (auto simp: archive_def trim_to_drop dest!: in_set_dropD)
  have "(current_epoch em, current_set em) \<in> set ?m"
    by (rule map_of_SomeD) (simp add: map_of_btree_insert [OF h])
  then show "map_of (archive em) (current_epoch em) = Some (current_set em)"
    unfolding archive_def using assms le by (intro trim_to_keeps_max [OF s]) (auto simp: epoch_inv_def)
  show "map_of (historical_sets em) e = Some vs"
    if "e \<noteq> current_epoch em" and "map_of (archive em) e = Some vs"
    using map_of_trim_to [OF s, of _ e vs] that by (simp add: archive_def map_of_btree_insert [OF h])
qed

lemma advance_epoch_eq:
  "advance_epoch em = (case next_set em of
     None \<Rightarrow> (em, False)
   | Some vs \<Rightarrow> (em\<lparr> next_set := None, staged_info := None, historical_sets := archive em,
                    current_epoch := current_epoch em + 1, current_set := vs \<rparr>, True))"
  by (simp add: advance_epoch_def archive_def trim_historical_def Let_def split: option.split)

lemma carry_epoch_forward_eq:
  "carry_epoch_forward em =
     (if next_set em \<noteq> None \<or> epoch_length em = 0 then (em, False)
      else (em\<lparr> historical_sets := archive em, current_epoch := current_epoch em + 1 \<rparr>, True))"
  by (simp add: carry_epoch_forward_def archive_def trim_historical_def Let_def)

lemma less_next_epoch: "c \<noteq> (- 1 :: 'a::len word) \<Longrightarrow> x \<le> c \<Longrightarrow> x < c + 1"
  by (simp add: word_le_nat_alt word_less_nat_alt unat_Suc_word)

lemma advance_epoch_inv:
  assumes "epoch_inv em" and "current_epoch em \<noteq> - 1"
  shows "epoch_inv (fst (advance_epoch em))"
proof (cases "next_set em")
  case None
  with assms show ?thesis by (simp add: advance_epoch_eq)
next
  case (Some vs)
  then show ?thesis
    using assms archive_facts(1-3) [OF assms(1)] less_next_epoch [OF assms(2)]
    by (simp add: advance_epoch_eq epoch_inv_def)
qed

lemma carry_epoch_forward_inv:
  assumes "epoch_inv em" and "current_epoch em \<noteq> - 1"
  shows "epoch_inv (fst (carry_epoch_forward em))"
  using assms archive_facts(1-3) [OF assms(1)] less_next_epoch [OF assms(2)]
  by (simp add: carry_epoch_forward_eq epoch_inv_def)

lemma stage_next_epoch_inv:
  assumes "epoch_inv em" and "infos \<noteq> []"
  shows "epoch_inv (fst (stage_next_epoch L infos f em))"
  using assms vset_try_new_wf [of L infos f]
  by (cases "vset_try_new L infos f") (auto simp: stage_next_epoch_def epoch_inv_def)

text \<open>Only the queues of proposed changes are outside the invariant.\<close>

lemma epoch_inv_queues [simp]:
  "epoch_inv (em\<lparr> pending_adds := a \<rparr>) = epoch_inv em"
  "epoch_inv (em\<lparr> pending_removes := r \<rparr>) = epoch_inv em"
  by (simp_all add: epoch_inv_def)

lemma propose_inv:
  "epoch_inv em \<Longrightarrow> epoch_inv (fst (propose_add_validator info em))"
  "epoch_inv em \<Longrightarrow> epoch_inv (fst (propose_remove_validator addr em))"
  "epoch_inv em \<Longrightarrow> epoch_inv (clear_pending_changes em)"
  by (cases "check_proposals_allowed em";
      simp add: propose_add_validator_def propose_remove_validator_def clear_pending_changes_def Let_def)+

fun adds_of :: "validator_change list \<Rightarrow> validator_info list" where
  "adds_of [] = []"
| "adds_of (Add a pk peer # cs) =
     \<lparr> vi_address = a, vi_bls_public_key = pk, vi_p2p_peer_id = peer \<rparr> # adds_of cs"
| "adds_of (Remove a # cs) = adds_of cs"

fun removes_of :: "validator_change list \<Rightarrow> address list" where
  "removes_of [] = []"
| "removes_of (Add a pk peer # cs) = removes_of cs"
| "removes_of (Remove a # cs) = a # removes_of cs"

lemma fold_queue_change:
  "fold queue_change cs em = em\<lparr> pending_adds := pending_adds em @ adds_of cs,
     pending_removes := pending_removes em @ removes_of cs \<rparr>"
proof (induction cs arbitrary: em)
  case Nil
  show ?case by simp
next
  case (Cons c cs)
  then show ?case by (cases c) simp_all
qed

lemma replace_pending_eq:
  "replace_pending_from_proposal cs em = em\<lparr> pending_adds := adds_of cs, pending_removes := removes_of cs \<rparr>"
  by (simp add: replace_pending_from_proposal_def fold_queue_change)

lemma replace_pending_inv: "epoch_inv em \<Longrightarrow> epoch_inv (replace_pending_from_proposal cs em)"
  by (simp add: replace_pending_eq)

lemma commit_pending_staged:
  "has_pending_changes em \<and> validate_transition (new_validator_list em) em = Ok () \<Longrightarrow>
     commit_pending_changes L em =
       andthen (stage_next_epoch L (new_validator_list em)
                  (max_fault_tolerance_for_len (length (new_validator_list em))) em) (\<lambda>_ em.
         (em\<lparr> pending_adds := [], pending_removes := [] \<rparr>, Ok ()))"
  by (simp add: commit_pending_changes_def Let_def)

lemma commit_pending_changes_inv:
  assumes "epoch_inv em"
  shows "epoch_inv (fst (commit_pending_changes L em))"
proof (cases "has_pending_changes em \<and> validate_transition (new_validator_list em) em = Ok ()")
  case True
  then have ne: "new_validator_list em \<noteq> []"
    by (auto simp: validate_transition_def MIN_VALIDATOR_COUNT_def split: if_splits)
  show ?thesis
    unfolding commit_pending_staged [OF True]
    by (rule andthen_inv [where P = epoch_inv]) (simp_all add: stage_next_epoch_inv assms ne)
next
  case False
  then show ?thesis
    using assms by (cases "validate_transition (new_validator_list em) em")
      (auto simp: commit_pending_changes_def Let_def)
qed

section \<open>Looking up the set of a view\<close>

lemma known_set_agrees:
  "known_validator_set_for_view view em = Some vs \<Longrightarrow> validator_set_for_view view em = vs"
  by (auto simp: known_validator_set_for_view_def validator_set_for_view_def Let_def split: if_splits)

lemma epoch_for_view_cong: "epoch_length em' = epoch_length em \<Longrightarrow> epoch_for_view v em' = epoch_for_view v em"
  by (simp add: epoch_for_view_def)

lemma advance_epoch_lookup:
  assumes inv: "epoch_inv em" and adv: "advance_epoch em = (em', True)"
    and e: "epoch_for_view view em \<in> {current_epoch em, current_epoch em + 1}"
    and len: "epoch_length em \<noteq> 0" and bound: "current_epoch em \<noteq> - 1"
  shows "known_validator_set_for_view view em' = known_validator_set_for_view view em"
proof -
  obtain vs where vs: "next_set em = Some vs" and em': "em' = em\<lparr> next_set := None, staged_info := None,
      historical_sets := archive em, current_epoch := current_epoch em + 1, current_set := vs \<rparr>"
    using adv by (auto simp: advance_epoch_eq split: option.splits)
  have ev: "epoch_for_view view em' = epoch_for_view view em"
    by (rule epoch_for_view_cong) (simp add: em')
  have ne: "current_epoch em < current_epoch em + 1" using less_next_epoch [OF bound] by simp
  have ne2: "current_epoch em \<noteq> current_epoch em + 2"
    by simp
  from e show ?thesis
  proof
    assume "epoch_for_view view em = current_epoch em"
    then show ?thesis
      using len ne ne2 archive_facts(4) [OF inv]
      by (simp add: known_validator_set_for_view_def Let_def ev) (simp add: em')
  next
    assume "epoch_for_view view em \<in> {current_epoch em + 1}"
    then show ?thesis
      using len ne by (simp add: known_validator_set_for_view_def Let_def ev) (simp add: em' vs)
  qed
qed

section \<open>Epochs are consecutive ranges of views\<close>

lemma unat_epoch_for_view:
  "epoch_length em \<noteq> 0 \<Longrightarrow> unat (epoch_for_view view em) = (unat view - 1) div unat (epoch_length em)"
  by (simp add: epoch_for_view_def unat_div unat_saturating_sub)

lemma div_eq_range:
  assumes "0 < (l :: nat)"
  shows "m div l = q \<longleftrightarrow> q * l \<le> m \<and> m < (q + 1) * l"
proof
  assume q: "m div l = q"
  have "m = q * l + m mod l" using div_mult_mod_eq [of m l] by (simp only: q)
  moreover have "m mod l < l" using assms by simp
  ultimately show "q * l \<le> m \<and> m < (q + 1) * l" by (simp add: add_mult_distrib)
next
  assume "q * l \<le> m \<and> m < (q + 1) * l"
  then show "m div l = q" by (intro div_nat_eqI) (simp_all add: mult.commute)
qed

lemma epoch_range:
  assumes "epoch_length em \<noteq> 0" and "1 \<le> view"
  shows "unat (epoch_for_view view em) = e \<longleftrightarrow>
    e * unat (epoch_length em) < unat view \<and> unat view \<le> (e + 1) * unat (epoch_length em)"
proof -
  have l: "0 < unat (epoch_length em)" using assms(1) by (simp add: unat_gt_0)
  have v: "1 \<le> unat view" using assms(2) by (simp add: word_le_nat_alt)
  show ?thesis
    unfolding unat_epoch_for_view [OF assms(1)] div_eq_range [OF l] using v by linarith
qed

lemma epoch_boundary_iff:
  assumes "epoch_length em \<noteq> 0" and "1 < view"
  shows "is_epoch_boundary view em \<longleftrightarrow> epoch_for_view view em = epoch_for_view (view - 1) em + 1"
proof -
  let ?l = "unat (epoch_length em)" and ?e = "epoch_for_view (view - 1) em"
  have v: "1 < unat view" using assms(2) by (simp add: word_less_nat_alt)
  have pred: "unat (view - 1) = unat view - 1"
    using assms(2) by (simp add: unat_sub word_le_nat_alt word_less_nat_alt)
  have e: "unat ?e = (unat view - 2) div ?l"
    by (simp add: unat_epoch_for_view [OF assms(1)] pred numeral_2_eq_2)
  have "unat ?e \<le> unat view - 2" unfolding e by (rule div_le_dividend)
  then have "unat ?e \<noteq> unat (- 1 :: u64)"
    unfolding unat_max_word using v unat_bound [of view] by simp
  then have "unat (?e + 1) = Suc (unat ?e)" by (intro unat_Suc_word) auto
  moreover have "(unat view - 1) div ?l = Suc ((unat view - 2) div ?l) \<longleftrightarrow> (unat view - 1) mod ?l = 0"
  proof -
    have "unat view - 1 = Suc (unat view - 2)" using v by simp
    then show ?thesis by (simp add: div_Suc)
  qed
  ultimately have "epoch_for_view view em = ?e + 1 \<longleftrightarrow> (unat view - 1) mod ?l = 0"
    by (simp add: word_unat_eq_iff unat_epoch_for_view [OF assms(1)] pred numeral_2_eq_2)
  also have "\<dots> \<longleftrightarrow> is_epoch_boundary view em"
    using assms by (simp add: is_epoch_boundary_def word_unat_eq_iff unat_mod unat_saturating_sub)
  finally show ?thesis by simp
qed

section \<open>The staged set\<close>

lemma dedup_by_key_Cons:
  "\<exists>ys. dedup_by_key f (x # xs) = x # ys"
  by (induction f "x # xs" arbitrary: x xs rule: dedup_by_key.induct) auto

lemma dedup_by_key_keys: "f ` set (dedup_by_key f xs) = f ` set xs"
  by (induction f xs rule: dedup_by_key.induct) auto

lemma dedup_by_key_sorted:
  "sorted (map f xs) \<Longrightarrow> sorted_wrt (<) (map f (dedup_by_key f xs))"
proof (induction f xs rule: dedup_by_key.induct)
  case (3 f x y xs)
  show ?case
  proof (cases "f x = f y")
    case True
    with 3 show ?thesis by simp
  next
    case False
    have "f x < k" if "k \<in> f ` set (y # xs)" for k
      using 3(3) False that by (force simp: order_le_less)
    then have "\<forall>k \<in> f ` set (dedup_by_key f (y # xs)). f x < k"
      unfolding dedup_by_key_keys by blast
    with 3 False show ?thesis by simp
  qed
qed simp_all

lemma new_validator_list_sorted: "sorted_wrt (<) (map vi_address (new_validator_list em))"
  unfolding new_validator_list_def by (rule dedup_by_key_sorted) simp

lemma new_validator_list_members:
  "vi_address ` set (new_validator_list em) =
     (ve_address ` set (validators (current_set em)) - set (pending_removes em))
     \<union> vi_address ` set (pending_adds em)"
  unfolding new_validator_list_def dedup_by_key_keys by (force simp: validator_infos_def)

definition retained_validators :: "validator_set \<Rightarrow> validator_set \<Rightarrow> nat set" where
  "retained_validators vs vs' = {i. i < length (validators vs) \<and>
     ve_address (validators vs ! i) \<in> ve_address ` set (validators vs')}"

lemma overlap_retained:
  assumes "ve_address ` set (validators vs') = set (map vi_address infos)"
  shows "length (filter (\<lambda>i. case get_address vs (word_of_nat i) of
             Ok addr \<Rightarrow> addr \<in> set (map vi_address infos) | _ \<Rightarrow> False) [0..<unat (vset_len vs)])
    \<le> card (retained_validators vs vs')"
proof -
  let ?P = "\<lambda>i. case get_address vs (word_of_nat i) of
             Ok addr \<Rightarrow> addr \<in> set (map vi_address infos) | _ \<Rightarrow> False"
  let ?is = "filter ?P [0..<unat (vset_len vs)]"
  have "i \<in> retained_validators vs vs'" if "i \<in> set ?is" for i
  proof -
    from that have i: "i < unat (vset_len vs)" and p: "?P i" by simp_all
    then have "unat (word_of_nat i :: u32) = i"
      using unat_bound [of "vset_len vs"] by (simp add: unat_of_nat)
    with i p show ?thesis
      using assms by (auto simp: retained_validators_def get_address_def vset_len_def unat_of_nat split: if_splits)
  qed
  then have "card (set ?is) \<le> card (retained_validators vs vs')"
    by (intro card_mono) (auto simp: retained_validators_def)
  moreover have "card (set ?is) = length ?is" by (rule distinct_card) simp
  ultimately show ?thesis by simp
qed

lemma commit_pending_changes_Ok:
  assumes commit: "commit_pending_changes L em = (em', Ok ())" and pending: "has_pending_changes em"
  obtains vs where "next_set em' = Some vs" and "vset_wf vs"
    and "MIN_VALIDATOR_COUNT \<le> length (validators vs)"
    and "sorted_wrt (<) (map ve_address (validators vs))"
    and "ve_address ` set (validators vs) =
      (ve_address ` set (validators (current_set em)) - set (pending_removes em))
      \<union> vi_address ` set (pending_adds em)"
    and "quorum_size (current_set em) \<le> card (retained_validators (current_set em) vs)"
    and "\<not> has_pending_changes em'" and "current_set em' = current_set em"
    and "current_epoch em' = current_epoch em"
proof -
  let ?nl = "new_validator_list em" and ?f = "max_fault_tolerance_for_len (length (new_validator_list em))"
  have tr: "validate_transition ?nl em = Ok ()"
    using commit pending by (cases "validate_transition ?nl em") (auto simp: commit_pending_changes_def Let_def)
  from commit obtain vs where vs: "vset_try_new L ?nl ?f = Ok vs"
    and em': "em' = em\<lparr> next_set := Some vs, staged_info := Some (?nl, ?f),
      pending_adds := [], pending_removes := [] \<rparr>"
    using pending tr unfolding commit_pending_staged [OF conjI [OF pending tr]] stage_next_epoch_def
    by (cases "vset_try_new L ?nl ?f") auto
  have len: "MIN_VALIDATOR_COUNT \<le> length ?nl"
    and ov: "quorum_size (current_set em) \<le> length (filter (\<lambda>i. case get_address (current_set em) (word_of_nat i) of
             Ok addr \<Rightarrow> addr \<in> set (map vi_address ?nl) | _ \<Rightarrow> False) [0..<unat (vset_len (current_set em))])"
    using tr unfolding validate_transition_def Let_def
    by (simp_all only: not_less [symmetric] outcome.distinct if_cancel split: if_splits) simp_all
  note shape = vset_try_new_shape [OF vs]
  have addrs: "ve_address ` set (validators vs) = set (map vi_address ?nl)"
    using shape(4) by (metis list.set_map)
  show thesis
  proof (rule that)
    show "next_set em' = Some vs" by (simp add: em')
    show "vset_wf vs" by (rule vset_try_new_wf [OF vs]) (use len in \<open>auto simp: MIN_VALIDATOR_COUNT_def\<close>)
    show "MIN_VALIDATOR_COUNT \<le> length (validators vs)" using len shape(1) by simp
    show "sorted_wrt (<) (map ve_address (validators vs))"
      unfolding shape(4) by (rule new_validator_list_sorted)
    show "ve_address ` set (validators vs) =
      (ve_address ` set (validators (current_set em)) - set (pending_removes em))
      \<union> vi_address ` set (pending_adds em)"
      unfolding addrs by (simp add: new_validator_list_members)
    show "quorum_size (current_set em) \<le> card (retained_validators (current_set em) vs)"
      using ov overlap_retained [OF addrs, of "current_set em"] by (rule le_trans)
  qed (simp_all add: em' has_pending_changes_def)
qed

section \<open>The leader and its followers queue the same changes\<close>

lemma adds_removes_of_append:
  "adds_of (cs @ ds) = adds_of cs @ adds_of ds" "removes_of (cs @ ds) = removes_of cs @ removes_of ds"
  by (induction cs rule: adds_of.induct) simp_all

lemma changes_of_adds:
  "adds_of (map (\<lambda>i. Add (vi_address i) (vi_bls_public_key i) (vi_p2p_peer_id i)) as) = as \<and>
   removes_of (map (\<lambda>i. Add (vi_address i) (vi_bls_public_key i) (vi_p2p_peer_id i)) as) = []"
  by (induction as) simp_all

lemma changes_of_removes: "adds_of (map Remove rs) = [] \<and> removes_of (map Remove rs) = rs"
  by (induction rs) simp_all

lemma replace_pending_roundtrip:
  assumes "pending_changes_for_proposal em = Some changes"
  shows "replace_pending_from_proposal changes em' =
    em'\<lparr> pending_adds := pending_adds em, pending_removes := pending_removes em \<rparr>"
  using assms
  by (auto simp: pending_changes_for_proposal_def replace_pending_eq adds_removes_of_append
      changes_of_adds changes_of_removes split: if_splits)

section \<open>Properties\<close>

text \<open>
  C18. The epoch manager keeps its invariant under every operation: the active and the staged set
  tolerate fewer than a third of their members, and the history of past sets is sorted by epoch,
  bounded, and older than the active epoch. The counter must not be at its last value when an epoch
  is entered.
\<close>

theorem epoch_operations_keep_invariant:
  assumes "epoch_inv em"
  shows "(current_epoch em \<noteq> - 1 \<longrightarrow> epoch_inv (fst (advance_epoch em)) \<and> epoch_inv (fst (carry_epoch_forward em))) \<and>
    (infos \<noteq> [] \<longrightarrow> epoch_inv (fst (stage_next_epoch L infos f em))) \<and>
    epoch_inv (fst (propose_add_validator info em)) \<and> epoch_inv (fst (propose_remove_validator addr em)) \<and>
    epoch_inv (clear_pending_changes em) \<and> epoch_inv (replace_pending_from_proposal changes em) \<and>
    epoch_inv (fst (commit_pending_changes L em)) \<and> epoch_inv (fst (apply_committed_changes_from_sync L changes em))"
  using assms advance_epoch_inv carry_epoch_forward_inv stage_next_epoch_inv propose_inv
    replace_pending_inv commit_pending_changes_inv
  by (simp add: apply_committed_changes_from_sync_def)

definition toy_epochs :: epoch_manager where
  "toy_epochs = with_epoch_length_and_history four_set 10 3"

lemma four_set_wf: "vset_wf four_set"
  by (simp add: vset_wf_def four_set_def)

lemma toy_epochs_inv: "epoch_inv toy_epochs"
  unfolding toy_epochs_def by (rule with_epoch_length_inv(1) [OF four_set_wf])

theorem epoch_operations_keep_invariant_witness:
  "epoch_inv (fst (carry_epoch_forward toy_epochs)) \<and> current_epoch (fst (carry_epoch_forward toy_epochs)) = 1"
  using epoch_operations_keep_invariant [OF toy_epochs_inv]
  by (simp add: toy_epochs_def with_epoch_length_and_history_def carry_epoch_forward_eq)

text \<open>
  C17. Entering an epoch does not change which set certifies a view: for every view of the epoch that
  ends and of the one that begins, the lookup returns the same set before and after the switch.
\<close>

theorem epoch_switch_keeps_sets:
  assumes "epoch_inv em" and "advance_epoch em = (em', True)"
    and "epoch_for_view view em \<in> {current_epoch em, current_epoch em + 1}"
    and "epoch_length em \<noteq> 0" and "current_epoch em \<noteq> - 1"
  shows "known_validator_set_for_view view em' = known_validator_set_for_view view em \<and> epoch_inv em' \<and>
    current_epoch em' = current_epoch em + 1 \<and> next_set em = Some (current_set em')"
  using advance_epoch_lookup [OF assms] advance_epoch_inv [OF assms(1,5)] assms(2)
  by (auto simp: advance_epoch_eq split: option.splits)

definition toy_staged :: epoch_manager where
  "toy_staged = toy_epochs\<lparr> next_set := Some four_set, staged_info := Some (map toy_info [0, 1, 2, 3], 1) \<rparr>"

theorem epoch_switch_keeps_sets_witness:
  "known_validator_set_for_view 8 (fst (advance_epoch toy_staged)) = Some four_set"
proof -
  have inv: "epoch_inv toy_staged"
    using toy_epochs_inv four_set_wf by (simp add: toy_staged_def epoch_inv_def)
  have adv: "advance_epoch toy_staged = (fst (advance_epoch toy_staged), True)"
    by (simp add: advance_epoch_eq toy_staged_def)
  have "epoch_for_view 8 toy_staged = 0" by code_simp
  moreover have "known_validator_set_for_view 8 toy_staged = Some four_set" by code_simp
  ultimately show ?thesis
    using epoch_switch_keeps_sets [OF inv adv, of 8]
    by (simp add: toy_staged_def toy_epochs_def with_epoch_length_and_history_def)
qed

text \<open>
  Epochs partition the views: with epochs of \<open>len\<close> views, view \<open>v\<close> lies in epoch \<open>e\<close> exactly
  when \<open>e * len < v \<le> (e + 1) * len\<close>, and a view is a boundary exactly when it opens a new epoch.
\<close>

lemma epochs_partition_views:
  assumes "epoch_length em \<noteq> 0" and "1 < view"
  shows "(unat (epoch_for_view view em) = e) =
      (e * unat (epoch_length em) < unat view \<and> unat view \<le> (e + 1) * unat (epoch_length em)) \<and>
    is_epoch_boundary view em = (epoch_for_view view em = epoch_for_view (view - 1) em + 1)"
proof -
  have "1 \<le> view" using assms(2) by simp
  then show ?thesis using epoch_range [OF assms(1)] epoch_boundary_iff [OF assms] by simp
qed

text \<open>
  C16. A committed membership change is safe to activate: the staged set is sorted by address without
  repetitions, has exactly the members the changes ask for, is large enough, tolerates fewer than a
  third of them, and keeps at least a quorum of the active set's validators.
\<close>

theorem staged_set_overlaps:
  assumes "commit_pending_changes L em = (em', Ok ())" and "has_pending_changes em"
  shows "\<exists>vs. next_set em' = Some vs \<and> vset_wf vs \<and> MIN_VALIDATOR_COUNT \<le> length (validators vs) \<and>
    sorted_wrt (<) (map ve_address (validators vs)) \<and>
    ve_address ` set (validators vs) =
      (ve_address ` set (validators (current_set em)) - set (pending_removes em)) \<union> vi_address ` set (pending_adds em) \<and>
    quorum_size (current_set em) \<le> card (retained_validators (current_set em) vs) \<and>
    \<not> has_pending_changes em' \<and> current_set em' = current_set em"
  using commit_pending_changes_Ok [OF assms] by metis

definition toy_pending :: epoch_manager where
  "toy_pending = toy_epochs\<lparr> pending_adds := [toy_info 4] \<rparr>"

lemma toy_pending_commits: "snd (commit_pending_changes (toy_lib (\<lambda>_. True)) toy_pending) = Ok ()"
  by code_simp

theorem staged_set_overlaps_witness:
  "\<exists>vs. next_set (fst (commit_pending_changes (toy_lib (\<lambda>_. True)) toy_pending)) = Some vs \<and>
     ve_address ` set (validators vs) = {0, 1, 2, 3, 4}"
proof -
  have "commit_pending_changes (toy_lib (\<lambda>_. True)) toy_pending
      = (fst (commit_pending_changes (toy_lib (\<lambda>_. True)) toy_pending), Ok ())"
    using toy_pending_commits by (metis prod.collapse)
  moreover have "has_pending_changes toy_pending" by code_simp
  ultimately have "\<exists>vs. next_set (fst (commit_pending_changes (toy_lib (\<lambda>_. True)) toy_pending)) = Some vs \<and>
     ve_address ` set (validators vs) =
      (ve_address ` set (validators (current_set toy_pending)) - set (pending_removes toy_pending))
        \<union> vi_address ` set (pending_adds toy_pending)"
    using staged_set_overlaps by blast
  moreover have "(ve_address ` set (validators (current_set toy_pending)) - set (pending_removes toy_pending))
        \<union> vi_address ` set (pending_adds toy_pending) = {0, 1, 2, 3, 4}"
    by (auto simp: toy_pending_def toy_epochs_def with_epoch_length_and_history_def four_set_def toy_entry_def toy_info_def)
  ultimately show ?thesis by simp
qed

text \<open>
  C23. The changes a leader puts into a proposal carry its queue faithfully: a follower that adopts
  them holds the leader's pending additions and removals, in order, whatever it held before.
\<close>

theorem pending_changes_roundtrip:
  assumes "pending_changes_for_proposal em = Some changes"
  shows "replace_pending_from_proposal changes em' =
      em'\<lparr> pending_adds := pending_adds em, pending_removes := pending_removes em \<rparr> \<and>
    pending_changes_hash L (replace_pending_from_proposal changes em') = pending_changes_hash L em"
  using replace_pending_roundtrip [OF assms]
  by (simp add: pending_changes_hash_def pending_changes_for_proposal_def has_pending_changes_def)

theorem pending_changes_roundtrip_witness:
  "replace_pending_from_proposal [Add 4 [4] None] toy_epochs = toy_epochs\<lparr> pending_adds := [toy_info 4] \<rparr>"
proof -
  have "pending_changes_for_proposal toy_pending = Some [Add 4 [4] None]" by code_simp
  then show ?thesis
    using pending_changes_roundtrip [of toy_pending "[Add 4 [4] None]" toy_epochs]
    by (simp add: toy_pending_def toy_epochs_def with_epoch_length_and_history_def)
qed

definition seven_epochs :: epoch_manager where
  "seven_epochs = with_epoch_length_and_history
     \<lparr> validators = map toy_entry [0, 1, 2, 3, 4, 5, 6], fault_tolerance = 2 \<rparr> 10 3"


end
