(* ===== verification/N42_Round.thy ===== *)
theory N42_Round
  imports N42_Bls
begin

text \<open>
  The per-view state of \<^verbatim>\<open>n42-consensus/src/protocol/round.rs\<close> and the genesis certificate of
  \<^verbatim>\<open>messages.rs\<close>. The two \<open>debug_assert!\<close> lines of \<open>record_vote\<close> and \<open>record_commit_vote\<close> are
  compiled out of release builds and are not part of the model; the engine calls both
  operations under the guards they assert.
\<close>

section \<open>Definitions\<close>

datatype phase = WaitingForProposal | Voting | PreCommit | Committed | TimedOut

record round_state =
  current_view :: view_number
  phase :: phase
  locked_qc :: quorum_certificate
  last_committed_qc :: quorum_certificate
  consecutive_timeouts :: u32
  last_voted_view :: view_number
  last_commit_voted_view :: view_number

text \<open>\<open>QuorumCertificate::genesis\<close>: view zero, no signers, a dummy signature nobody verifies.\<close>

definition genesis_qc :: "ext_lib \<Rightarrow> quorum_certificate consensus_result" where
  "genesis_qc L = (case key_gen L (replicate 32 1) of
     Ok sk \<Rightarrow> Ok \<lparr> qc_view = 0, qc_block_hash = 0,
                  qc_aggregate_signature = bls_sign L sk (ascii ''genesis''), qc_signers = [] \<rparr>
   | _ \<Rightarrow> Panic)"

definition round_new :: "ext_lib \<Rightarrow> round_state consensus_result" where
  "round_new L = bind_outcome (genesis_qc L) (\<lambda>genesis.
     Ok \<lparr> current_view = 1, phase = WaitingForProposal, locked_qc = genesis,
          last_committed_qc = genesis, consecutive_timeouts = 0, last_voted_view = 0,
          last_commit_voted_view = 0 \<rparr>)"

definition round_from_snapshot ::
  "view_number \<Rightarrow> quorum_certificate \<Rightarrow> quorum_certificate \<Rightarrow> u32 \<Rightarrow> view_number \<Rightarrow> view_number
   \<Rightarrow> round_state" where
  "round_from_snapshot view locked committed timeouts voted commit_voted =
     \<lparr> current_view = view, phase = WaitingForProposal, locked_qc = locked,
       last_committed_qc = committed, consecutive_timeouts = timeouts, last_voted_view = voted,
       last_commit_voted_view = commit_voted \<rparr>"

definition may_vote_in :: "view_number \<Rightarrow> round_state \<Rightarrow> bool" where
  "may_vote_in view r \<longleftrightarrow> view > last_voted_view r"

definition round_record_vote :: "view_number \<Rightarrow> round_state \<Rightarrow> round_state" where
  "round_record_vote view r = r\<lparr> last_voted_view := view \<rparr>"

definition may_commit_vote_in :: "view_number \<Rightarrow> round_state \<Rightarrow> bool" where
  "may_commit_vote_in view r \<longleftrightarrow> view > last_commit_voted_view r"

definition round_record_commit_vote :: "view_number \<Rightarrow> round_state \<Rightarrow> round_state" where
  "round_record_commit_vote view r = r\<lparr> last_commit_voted_view := view \<rparr>"

definition enter_voting :: "round_state \<Rightarrow> round_state" where
  "enter_voting r = r\<lparr> phase := Voting \<rparr>"

definition enter_pre_commit :: "round_state \<Rightarrow> round_state" where
  "enter_pre_commit r = r\<lparr> phase := PreCommit \<rparr>"

definition round_commit :: "quorum_certificate \<Rightarrow> round_state \<Rightarrow> round_state" where
  "round_commit commit_qc r =
     (let r1 = r\<lparr> phase := Committed \<rparr>;
          r2 = (if qc_view commit_qc > qc_view (locked_qc r1) then r1\<lparr> locked_qc := commit_qc \<rparr> else r1);
          r3 = (if qc_view commit_qc \<ge> qc_view (last_committed_qc r2)
                then r2\<lparr> last_committed_qc := commit_qc \<rparr> else r2)
      in r3\<lparr> consecutive_timeouts := 0 \<rparr>)"

definition round_advance_view :: "view_number \<Rightarrow> round_state \<Rightarrow> round_state" where
  "round_advance_view new_view r =
     (if new_view \<le> current_view r then r
      else r\<lparr> current_view := new_view, phase := WaitingForProposal \<rparr>)"

definition round_timeout :: "round_state \<Rightarrow> round_state" where
  "round_timeout r =
     r\<lparr> phase := TimedOut, consecutive_timeouts := saturating_add (consecutive_timeouts r) 1 \<rparr>"

definition reset_consecutive_timeouts :: "round_state \<Rightarrow> round_state" where
  "reset_consecutive_timeouts r = r\<lparr> consecutive_timeouts := 0 \<rparr>"

definition update_locked_qc :: "quorum_certificate \<Rightarrow> round_state \<Rightarrow> round_state" where
  "update_locked_qc qc r =
     (if qc_view qc > qc_view (locked_qc r) then r\<lparr> locked_qc := qc \<rparr> else r)"

definition is_safe_to_vote :: "quorum_certificate \<Rightarrow> round_state \<Rightarrow> bool" where
  "is_safe_to_vote justify_qc r \<longleftrightarrow> qc_view justify_qc \<ge> qc_view (locked_qc r)"

section \<open>Monotonicity\<close>

text \<open>
  \<open>round_le\<close> is the order every operation moves up in: the view, the lock, the last commit and
  the two vote records only grow.
\<close>

definition round_le :: "round_state \<Rightarrow> round_state \<Rightarrow> bool" where
  "round_le r r' \<longleftrightarrow> current_view r \<le> current_view r' \<and>
     qc_view (locked_qc r) \<le> qc_view (locked_qc r') \<and>
     qc_view (last_committed_qc r) \<le> qc_view (last_committed_qc r') \<and>
     last_voted_view r \<le> last_voted_view r' \<and>
     last_commit_voted_view r \<le> last_commit_voted_view r'"

lemma round_le_refl [simp, intro]: "round_le r r"
  by (simp add: round_le_def)

lemma round_le_trans [trans]: "round_le a b \<Longrightarrow> round_le b c \<Longrightarrow> round_le a c"
  unfolding round_le_def by (blast intro: order_trans)

named_theorems round_le_intros \<open>operations of the round state move up\<close>

lemma round_le_enter_voting [round_le_intros]: "round_le r (enter_voting r)"
  by (simp add: round_le_def enter_voting_def)

lemma round_le_enter_pre_commit [round_le_intros]: "round_le r (enter_pre_commit r)"
  by (simp add: round_le_def enter_pre_commit_def)

lemma round_le_commit [round_le_intros]: "round_le r (round_commit qc r)"
  by (auto simp: round_le_def round_commit_def Let_def)

lemma round_le_advance [round_le_intros]: "round_le r (round_advance_view v r)"
  by (auto simp: round_le_def round_advance_view_def)

lemma round_le_timeout [round_le_intros]: "round_le r (round_timeout r)"
  by (simp add: round_le_def round_timeout_def)

lemma round_le_reset [round_le_intros]: "round_le r (reset_consecutive_timeouts r)"
  by (simp add: round_le_def reset_consecutive_timeouts_def)

lemma round_le_update_lock [round_le_intros]: "round_le r (update_locked_qc qc r)"
  by (auto simp: round_le_def update_locked_qc_def)

lemma round_le_record_vote [round_le_intros]:
  "may_vote_in v r \<Longrightarrow> round_le r (round_record_vote v r)"
  by (auto simp: round_le_def may_vote_in_def round_record_vote_def)

lemma round_le_record_commit_vote [round_le_intros]:
  "may_commit_vote_in v r \<Longrightarrow> round_le r (round_record_commit_vote v r)"
  by (auto simp: round_le_def may_commit_vote_in_def round_record_commit_vote_def)

lemma update_locked_qc_ge: "qc_view qc \<le> qc_view (locked_qc (update_locked_qc qc r))"
  by (auto simp: update_locked_qc_def)

lemmas round_defs =
  may_vote_in_def round_record_vote_def may_commit_vote_in_def round_record_commit_vote_def
  enter_voting_def enter_pre_commit_def round_advance_view_def round_timeout_def
  reset_consecutive_timeouts_def update_locked_qc_def is_safe_to_vote_def

end
