(* ===== verification/N42_Pacemaker.thy ===== *)
theory N42_Pacemaker
  imports N42_Prelude
begin

text \<open>
  The view timer of \<^verbatim>\<open>n42-consensus/src/protocol/pacemaker.rs\<close>. A \<open>Duration\<close> is a number of
  nanoseconds and an \<open>Instant\<close> is the number of nanoseconds since an arbitrary origin; the
  current instant is an argument. \<open>as_millis() as u64\<close> truncates to sixty-four bits.
\<close>

section \<open>Definitions\<close>

type_synonym duration = nat
type_synonym instant = nat

definition from_millis :: "u64 \<Rightarrow> duration" where
  "from_millis ms = unat ms * 1000000"

definition as_millis_u64 :: "duration \<Rightarrow> u64" where
  "as_millis_u64 d = word_of_nat (d div 1000000)"

record pacemaker =
  base_timeout :: duration
  max_timeout :: duration
  deadline :: instant
  recent_latencies :: "duration list"
  latency_cursor :: nat

definition LATENCY_WINDOW :: nat where "LATENCY_WINDOW = 20"
definition MAX_BACKOFF_EXPONENT :: u32 where "MAX_BACKOFF_EXPONENT = 63"

definition pacemaker_new :: "instant \<Rightarrow> u64 \<Rightarrow> u64 \<Rightarrow> pacemaker" where
  "pacemaker_new now base_timeout_ms max_timeout_ms =
     \<lparr> base_timeout = from_millis base_timeout_ms, max_timeout = from_millis max_timeout_ms,
       deadline = now + from_millis base_timeout_ms, recent_latencies = [], latency_cursor = 0 \<rparr>"

definition observe_commit_latency :: "duration \<Rightarrow> pacemaker \<Rightarrow> pacemaker" where
  "observe_commit_latency latency p =
     (let p' = (if length (recent_latencies p) < LATENCY_WINDOW
                then p\<lparr> recent_latencies := recent_latencies p @ [latency] \<rparr>
                else p\<lparr> recent_latencies :=
                         (recent_latencies p)[latency_cursor p mod LATENCY_WINDOW := latency] \<rparr>)
      in p'\<lparr> latency_cursor := latency_cursor p' + 1 \<rparr>)"

definition effective_base_timeout :: "pacemaker \<Rightarrow> duration" where
  "effective_base_timeout p =
     (if length (recent_latencies p) < 5 then base_timeout p
      else let sorted_ms = sort (map as_millis_u64 (recent_latencies p));
               p95_idx = min (length sorted_ms * 95 div 100) (length sorted_ms - 1);
               p95_ms = sorted_ms ! p95_idx;
               adaptive_ms = saturating_mul p95_ms 2;
               effective = as_millis_u64 (base_timeout p)
           in from_millis (min (max effective adaptive_ms) (as_millis_u64 (max_timeout p))))"

definition checked_shl_u64 :: "u64 \<Rightarrow> u32 \<Rightarrow> u64 option" where
  "checked_shl_u64 x n = (if n < 64 then Some (push_bit (unat n) x) else None)"

definition timeout_duration :: "u32 \<Rightarrow> pacemaker \<Rightarrow> duration" where
  "timeout_duration timeouts p =
     (let base = effective_base_timeout p;
          expo = min timeouts MAX_BACKOFF_EXPONENT;
          multiplier = (case checked_shl_u64 1 expo of Some m \<Rightarrow> m | None \<Rightarrow> - 1);
          timeout_ms = saturating_mul (as_millis_u64 base) multiplier
      in from_millis (min timeout_ms (as_millis_u64 (max_timeout p))))"

definition reset_for_view :: "instant \<Rightarrow> u32 \<Rightarrow> pacemaker \<Rightarrow> pacemaker" where
  "reset_for_view now timeouts p = p\<lparr> deadline := now + timeout_duration timeouts p \<rparr>"

definition is_timed_out :: "instant \<Rightarrow> pacemaker \<Rightarrow> bool" where
  "is_timed_out now p \<longleftrightarrow> deadline p \<le> now"

definition remaining :: "instant \<Rightarrow> pacemaker \<Rightarrow> duration" where
  "remaining now p = deadline p - now"

definition extend_deadline :: "duration \<Rightarrow> pacemaker \<Rightarrow> pacemaker" where
  "extend_deadline extra p = p\<lparr> deadline := deadline p + extra \<rparr>"

section \<open>Well-formed timers\<close>

definition pacemaker_wf :: "pacemaker \<Rightarrow> bool" where
  "pacemaker_wf p \<longleftrightarrow>
     (\<exists>b m. base_timeout p = from_millis b \<and> max_timeout p = from_millis m) \<and>
     length (recent_latencies p) \<le> LATENCY_WINDOW"

lemma as_millis_from_millis [simp]: "as_millis_u64 (from_millis ms) = ms"
  by (simp add: as_millis_u64_def from_millis_def)

lemma from_millis_mono: "from_millis a \<le> from_millis b \<longleftrightarrow> a \<le> b"
  by (simp add: from_millis_def word_le_nat_alt)

lemma pacemaker_new_wf: "pacemaker_wf (pacemaker_new now b m)"
  by (auto simp: pacemaker_wf_def pacemaker_new_def LATENCY_WINDOW_def)

lemma observe_commit_latency_wf: "pacemaker_wf p \<Longrightarrow> pacemaker_wf (observe_commit_latency d p)"
  by (auto simp: pacemaker_wf_def observe_commit_latency_def Let_def)

lemma reset_for_view_wf: "pacemaker_wf p \<Longrightarrow> pacemaker_wf (reset_for_view now n p)"
  by (simp add: pacemaker_wf_def reset_for_view_def)

lemma extend_deadline_wf: "pacemaker_wf p \<Longrightarrow> pacemaker_wf (extend_deadline d p)"
  by (simp add: pacemaker_wf_def extend_deadline_def)

lemma effective_base_millis:
  assumes "pacemaker_wf p"
  obtains b where "effective_base_timeout p = from_millis b"
proof (cases "length (recent_latencies p) < 5")
  case True
  then show ?thesis
    using assms that by (auto simp: pacemaker_wf_def effective_base_timeout_def)
next
  case False
  then show ?thesis
    by (intro that) (simp only: effective_base_timeout_def Let_def if_False)
qed

lemma effective_base_bounds:
  assumes "pacemaker_wf p" and "base_timeout p \<le> max_timeout p"
  shows "base_timeout p \<le> effective_base_timeout p" and "effective_base_timeout p \<le> max_timeout p"
  using assms
  by (auto simp: pacemaker_wf_def effective_base_timeout_def Let_def from_millis_mono)

lemma backoff_multiplier:
  "(case checked_shl_u64 1 (min n MAX_BACKOFF_EXPONENT) of Some m \<Rightarrow> m | None \<Rightarrow> - 1)
   = 2 ^ min (unat n) 63"
proof -
  have u: "unat (min n MAX_BACKOFF_EXPONENT) = min (unat n) 63"
    by (auto simp: MAX_BACKOFF_EXPONENT_def min_def word_le_nat_alt)
  then have "min n MAX_BACKOFF_EXPONENT < 64"
    by (simp add: word_less_nat_alt)
  then show ?thesis by (simp add: checked_shl_u64_def u push_bit_eq_mult)
qed

text \<open>The exponential backoff in exact arithmetic: no step of the computation wraps.\<close>

lemma timeout_duration_exact:
  assumes "pacemaker_wf p"
  shows "timeout_duration n p
    = min (effective_base_timeout p * 2 ^ min (unat n) 63) (max_timeout p)"
proof -
  obtain b where b: "effective_base_timeout p = from_millis b"
    using assms by (rule effective_base_millis)
  obtain m where m: "max_timeout p = from_millis m"
    using assms by (auto simp: pacemaker_wf_def)
  define e where "e = min (unat n) 63"
  have pow: "unat (2 ^ e :: u64) = 2 ^ e"
  proof -
    have "(2::nat) ^ e < 2 ^ 64" by (rule power_strict_increasing) (simp_all add: e_def)
    then have "unat (word_of_nat (2 ^ e) :: u64) = 2 ^ e"
      by (subst unat_of_nat) (simp del: of_nat_power)
    then show ?thesis by simp
  qed
  have "unat (min (saturating_mul b (2 ^ e)) m) = min (min (unat b * 2 ^ e) (2 ^ 64 - 1)) (unat m)"
    by (simp only: unat_min unat_saturating_mul pow) simp
  also have "\<dots> = min (unat b * 2 ^ e) (unat m)"
    using unat_bound [of m] by simp
  finally have ms: "unat (min (saturating_mul b (2 ^ e)) m) = min (unat b * 2 ^ e) (unat m)" .
  have "timeout_duration n p = from_millis (min (saturating_mul b (2 ^ e)) m)"
    by (simp add: timeout_duration_def backoff_multiplier b m Let_def e_def)
  also have "\<dots> = min (unat b * 2 ^ e) (unat m) * 1000000"
    by (simp only: from_millis_def ms)
  also have "\<dots> = min (effective_base_timeout p * 2 ^ e) (max_timeout p)"
    by (simp add: b m from_millis_def min_def)
  finally show ?thesis by (simp only: e_def)
qed

section \<open>Properties\<close>

text \<open>
  C24. The view timeout after \<open>n\<close> consecutive timeouts is exactly the effective base doubled \<open>n\<close>
  times (at most 63 doublings) and capped at the configured maximum, with no wrap-around on the way;
  it never falls as \<open>n\<close> grows, and with a base within the maximum it lies between the two.
\<close>

theorem timeout_backoff_exact:
  assumes "pacemaker_wf p" and "base_timeout p \<le> max_timeout p"
  shows "timeout_duration n p = min (effective_base_timeout p * 2 ^ min (unat n) 63) (max_timeout p) \<and>
    (m \<le> n \<longrightarrow> timeout_duration m p \<le> timeout_duration n p) \<and>
    base_timeout p \<le> timeout_duration n p \<and> timeout_duration n p \<le> max_timeout p"
proof -
  note exact = timeout_duration_exact [OF assms(1)]
  have grow: "effective_base_timeout p * 2 ^ a \<le> effective_base_timeout p * 2 ^ b" if "a \<le> b" for a b
    using that by (intro mult_left_mono power_increasing) simp_all
  have "timeout_duration m p \<le> timeout_duration n p" if "m \<le> n"
    unfolding exact by (rule min.mono [OF grow]) (use that in \<open>auto simp: word_le_nat_alt\<close>)
  moreover have "base_timeout p \<le> timeout_duration n p"
    using effective_base_bounds [OF assms] order_trans [OF _ grow [of 0 "min (unat n) 63"]] by (simp add: exact)
  ultimately show ?thesis by (simp add: exact)
qed

theorem timeout_backoff_exact_witness:
  "timeout_duration 2 (pacemaker_new 0 1000 60000) = 4 * 1000 * 1000000"
  using timeout_backoff_exact [OF pacemaker_new_wf, of 0 1000 60000 2]
  by (simp add: pacemaker_new_def effective_base_timeout_def from_millis_def)

end
