(* ===== verification/N42_BoundedFifo.thy ===== *)
theory N42_BoundedFifo
  imports N42_Prelude
begin

text \<open>
  The bounded map with insertion-order eviction of
  \<^verbatim>\<open>n42-consensus/src/protocol/bounded_fifo.rs\<close>: a hash map for lookups and a parallel queue of
  the keys in insertion order. The contract it offers to the engine is the locale
  \<open>fifo_cache\<close>: an abstract list of entries, oldest first.
\<close>

section \<open>Definitions\<close>

record ('k, 'v) bounded_fifo_map =
  bf_map :: "('k \<times> 'v) list"
  bf_order :: "'k list"
  bf_capacity :: nat

definition bf_new :: "nat \<Rightarrow> ('k, 'v) bounded_fifo_map" where
  "bf_new capacity = \<lparr> bf_map = [], bf_order = [], bf_capacity = capacity \<rparr>"

text \<open>The miss case of \<open>insert\<close>: evict the oldest key when full, then queue the new one.\<close>

definition bf_make_room :: "'k \<Rightarrow> ('k, 'v) bounded_fifo_map \<Rightarrow> ('k, 'v) bounded_fifo_map" where
  "bf_make_room key b =
     (let b' = (if bf_capacity b \<le> length (bf_map b)
                then (case bf_order b of
                        [] \<Rightarrow> b
                      | oldest # rest \<Rightarrow> b\<lparr> bf_order := rest, bf_map := AList.delete oldest (bf_map b) \<rparr>)
                else b)
      in b'\<lparr> bf_order := bf_order b' @ [key] \<rparr>)"

definition bf_insert ::
  "'k \<Rightarrow> 'v \<Rightarrow> ('k, 'v) bounded_fifo_map \<Rightarrow> ('k, 'v) bounded_fifo_map" where
  "bf_insert key value b =
     (let b' = (if map_of (bf_map b) key = None then bf_make_room key b else b)
      in b'\<lparr> bf_map := AList.update key value (bf_map b') \<rparr>)"

definition bf_get :: "('k, 'v) bounded_fifo_map \<Rightarrow> 'k \<Rightarrow> 'v option" where
  "bf_get b key = map_of (bf_map b) key"

definition bf_remove ::
  "'k \<Rightarrow> ('k, 'v) bounded_fifo_map \<Rightarrow> ('k, 'v) bounded_fifo_map \<times> 'v option" where
  "bf_remove key b = (case map_of (bf_map b) key of
     None \<Rightarrow> (b, None)
   | Some v \<Rightarrow> (b\<lparr> bf_map := AList.delete key (bf_map b), bf_order := remove1 key (bf_order b) \<rparr>,
       Some v))"

section \<open>The contract: a bounded first-in first-out cache\<close>

text \<open>The specification on the list of entries, oldest first.\<close>

definition fifo_insert :: "nat \<Rightarrow> 'k \<Rightarrow> 'v \<Rightarrow> ('k \<times> 'v) list \<Rightarrow> ('k \<times> 'v) list" where
  "fifo_insert cap k v es =
     (if k \<in> fst ` set es then map (\<lambda>(k', v'). (k', if k' = k then v else v')) es
      else (if cap \<le> length es then tl es else es) @ [(k, v)])"

lemma map_of_overwrite:
  "map_of (map (\<lambda>(k', v'). (k', if k' = k then v else v')) es) j
   = (if j = k then map_option (\<lambda>_. v) (map_of es k) else map_of es j)"
  by (induction es) auto

lemma map_of_filter_keys:
  "map_of (filter (\<lambda>e. fst e \<noteq> k) es) j = (if j = k then None else map_of es j)"
  by (induction es) auto

lemma keys_overwrite [simp]:
  "map fst (map (\<lambda>(k', v'). (k', if k' = k then v else v')) es) = map fst es"
  by (induction es) auto

lemma map_of_fifo_insert_same: "map_of (fifo_insert cap k v es) k = Some v"
proof (cases "k \<in> fst ` set es")
  case True
  then obtain w where "map_of es k = Some w"
    by (metis map_of_eq_None_iff not_None_eq)
  with True show ?thesis by (simp add: fifo_insert_def map_of_overwrite)
next
  case False
  then have "map_of es k = None" and "map_of (tl es) k = None"
    by (cases es; simp add: map_of_eq_None_iff)+
  with False show ?thesis by (simp add: fifo_insert_def map_add_def)
qed

lemma map_of_fifo_insert_other:
  assumes "j \<noteq> k" and "map_of (fifo_insert cap k v es) j = Some w"
  shows "map_of es j = Some w \<or> (\<exists>u. es \<noteq> [] \<and> hd es = (j, u))"
  using assms
  by (cases es) (auto simp: fifo_insert_def map_of_overwrite map_add_def split: if_splits option.splits)

text \<open>\<open>young n k v es\<close>: the entry is present and at most \<open>n\<close> entries are younger than it.\<close>

definition young :: "nat \<Rightarrow> 'k \<Rightarrow> 'v \<Rightarrow> ('k \<times> 'v) list \<Rightarrow> bool" where
  "young n k v es \<longleftrightarrow> (\<exists>xs ys. es = xs @ (k, v) # ys \<and> length ys \<le> n)"

lemma young_map_of: "distinct (map fst es) \<Longrightarrow> young n k v es \<Longrightarrow> map_of es k = Some v"
  by (auto simp: young_def map_add_def map_of_eq_None_iff split: option.splits)

lemma young_fresh: "k \<notin> fst ` set es \<Longrightarrow> young 0 k v (fifo_insert cap k v es)"
  by (auto simp: young_def fifo_insert_def)

lemma young_step:
  assumes "young n k v es" and "j \<noteq> k" and "Suc n < cap"
  shows "young (Suc n) k v (fifo_insert cap j w es)"
proof -
  obtain xs ys where es: "es = xs @ (k, v) # ys" and n: "length ys \<le> n"
    using assms(1) by (auto simp: young_def)
  show ?thesis
  proof (cases "j \<in> fst ` set es")
    case True
    let ?f = "\<lambda>(k', v'). (k', if k' = j then w else v')"
    have "fifo_insert cap j w es = map ?f xs @ (k, v) # map ?f ys"
      using True assms(2) by (simp add: fifo_insert_def es)
    then show ?thesis using n by (force simp: young_def)
  next
    case False
    have "xs \<noteq> []" if "cap \<le> length es"
      using that n assms(3) by (auto simp: es)
    then have "fifo_insert cap j w es
        = (if cap \<le> length es then tl xs else xs) @ (k, v) # (ys @ [(j, w)])"
      using False by (auto simp: fifo_insert_def es)
    then show ?thesis using n unfolding young_def by (metis Suc_le_mono length_append_singleton)
  qed
qed

locale fifo_cache =
  fixes insert_entry :: "'k \<Rightarrow> 'v \<Rightarrow> 'c \<Rightarrow> 'c"
    and remove_entry :: "'k \<Rightarrow> 'c \<Rightarrow> 'c"
    and lookup :: "'c \<Rightarrow> 'k \<Rightarrow> 'v option"
    and capacity :: "'c \<Rightarrow> nat"
    and entries :: "'c \<Rightarrow> ('k \<times> 'v) list"
    and inv :: "'c \<Rightarrow> bool"
  assumes entries_insert: "inv c \<Longrightarrow> entries (insert_entry k v c) = fifo_insert (capacity c) k v (entries c)"
    and entries_remove: "inv c \<Longrightarrow> entries (remove_entry k c) = filter (\<lambda>e. fst e \<noteq> k) (entries c)"
    and lookup_entries: "inv c \<Longrightarrow> lookup c k = map_of (entries c) k"
    and distinct_entries: "inv c \<Longrightarrow> distinct (map fst (entries c))"
    and entries_bound: "inv c \<Longrightarrow> length (entries c) \<le> capacity c"
    and inv_insert: "inv c \<Longrightarrow> inv (insert_entry k v c)"
    and inv_remove: "inv c \<Longrightarrow> inv (remove_entry k c)"
    and capacity_insert: "capacity (insert_entry k v c) = capacity c"
    and capacity_pos: "inv c \<Longrightarrow> 0 < capacity c"
begin

lemma lookup_insert_same: "inv c \<Longrightarrow> lookup (insert_entry k v c) k = Some v"
  by (simp add: lookup_entries inv_insert entries_insert map_of_fifo_insert_same)

lemma lookup_remove: "inv c \<Longrightarrow> lookup (remove_entry k c) j = (if j = k then None else lookup c j)"
  by (auto simp: lookup_entries inv_remove entries_remove map_of_filter_keys)

text \<open>An entry survives every insertion of other keys until the cache has turned over.\<close>

lemma young_inserts:
  assumes "inv c" and "young n k v (entries c)" and "k \<notin> fst ` set js"
    and "n + length js < capacity c"
  shows "young (n + length js) k v (entries (fold (\<lambda>(j, w). insert_entry j w) js c))
    \<and> inv (fold (\<lambda>(j, w). insert_entry j w) js c)"
  using assms
proof (induction js arbitrary: n c)
  case Nil
  then show ?case by simp
next
  case (Cons e js)
  obtain j w where e: "e = (j, w)" by (cases e)
  have "young (Suc n) k v (entries (insert_entry j w c))"
    using Cons.prems by (auto simp: e entries_insert intro: young_step)
  moreover have "inv (insert_entry j w c)" using Cons.prems(1) by (rule inv_insert)
  ultimately show ?case
    using Cons.IH [of "insert_entry j w c" "Suc n"] Cons.prems(3,4)
    by (simp add: e capacity_insert)
qed

lemma retained:
  assumes "inv c" and "lookup c k = None" and "k \<notin> fst ` set js" and "length js < capacity c"
  shows "lookup (fold (\<lambda>(j, w). insert_entry j w) js (insert_entry k v c)) k = Some v"
proof -
  have "young 0 k v (entries (insert_entry k v c))"
    using assms(1,2) by (simp add: entries_insert lookup_entries map_of_eq_None_iff young_fresh)
  then have "young (0 + length js) k v
      (entries (fold (\<lambda>(j, w). insert_entry j w) js (insert_entry k v c)))
    \<and> inv (fold (\<lambda>(j, w). insert_entry j w) js (insert_entry k v c))"
    using assms by (intro young_inserts) (auto simp: capacity_insert inv_insert)
  then show ?thesis
    by (metis lookup_entries distinct_entries young_map_of)
qed

end

section \<open>The map of the source meets the contract\<close>

definition bf_inv :: "('k, 'v) bounded_fifo_map \<Rightarrow> bool" where
  "bf_inv b \<longleftrightarrow> distinct (bf_order b) \<and> distinct (map fst (bf_map b)) \<and>
     set (bf_order b) = fst ` set (bf_map b) \<and> length (bf_map b) \<le> bf_capacity b \<and>
     0 < bf_capacity b"

definition bf_entries :: "('k, 'v) bounded_fifo_map \<Rightarrow> ('k \<times> 'v) list" where
  "bf_entries b = map (\<lambda>k. (k, the (map_of (bf_map b) k))) (bf_order b)"

lemma bf_new_inv: "0 < n \<Longrightarrow> bf_inv (bf_new n)"
  by (simp add: bf_inv_def bf_new_def)

lemma bf_length_order: "bf_inv b \<Longrightarrow> length (bf_order b) = length (bf_map b)"
  unfolding bf_inv_def by (metis distinct_card length_map set_map)

lemma bf_keys_entries [simp]: "map fst (bf_entries b) = bf_order b"
  by (simp add: bf_entries_def comp_def)

lemma bf_order_dom: "bf_inv b \<Longrightarrow> k \<in> set (bf_order b) \<longleftrightarrow> map_of (bf_map b) k \<noteq> None"
  by (simp add: bf_inv_def map_of_eq_None_iff)

lemma bf_map_of_entries: "bf_inv b \<Longrightarrow> map_of (bf_entries b) k = map_of (bf_map b) k"
  by (cases "map_of (bf_map b) k") (simp_all add: bf_entries_def map_of_tabulate bf_order_dom)

lemma bf_entries_cong:
  assumes "bf_order b = bf_order c" and "\<And>k. k \<in> set (bf_order c) \<Longrightarrow> map_of (bf_map b) k = map_of (bf_map c) k"
  shows "bf_entries b = bf_entries c"
  using assms by (simp add: bf_entries_def)

lemma keys_delete: "fst ` set (AList.delete x al) = fst ` set al - {x}"
  by (simp flip: set_map add: delete_keys)

lemma distinct_keys_delete: "distinct (map fst al) \<Longrightarrow> distinct (map fst (AList.delete x al))"
  by (simp add: delete_keys distinct_removeAll)

lemma length_delete_less: "x \<in> fst ` set al \<Longrightarrow> length (AList.delete x al) < length al"
  by (auto simp: AList.delete_eq intro!: length_filter_less)

text \<open>Making room: the two cases, and what they have in common.\<close>

lemma bf_make_room_free:
  "length (bf_map b) < bf_capacity b \<Longrightarrow> bf_make_room k b = b\<lparr> bf_order := bf_order b @ [k] \<rparr>"
  by (simp add: bf_make_room_def)

lemma bf_make_room_full:
  "bf_capacity b \<le> length (bf_map b) \<Longrightarrow> bf_order b = old # rest \<Longrightarrow>
   bf_make_room k b = b\<lparr> bf_order := rest @ [k], bf_map := AList.delete old (bf_map b) \<rparr>"
  by (simp add: bf_make_room_def)

lemma bf_fullE:
  assumes "bf_inv b" and "bf_capacity b \<le> length (bf_map b)"
  obtains old rest where "bf_order b = old # rest" and "old \<in> fst ` set (bf_map b)"
    and "old \<notin> set rest"
proof -
  have "bf_order b \<noteq> []"
    using assms bf_length_order [OF assms(1)] by (auto simp: bf_inv_def)
  then obtain old rest where "bf_order b = old # rest" by (cases "bf_order b") auto
  with assms(1) that show thesis by (auto simp: bf_inv_def)
qed

lemma bf_make_room_shape:
  assumes "bf_inv b" and "map_of (bf_map b) k = None"
  shows "distinct (bf_order (bf_make_room k b)) \<and>
    distinct (map fst (bf_map (bf_make_room k b))) \<and>
    set (bf_order (bf_make_room k b)) = insert k (fst ` set (bf_map (bf_make_room k b))) \<and>
    k \<notin> fst ` set (bf_map (bf_make_room k b)) \<and>
    length (bf_map (bf_make_room k b)) < bf_capacity b \<and>
    bf_capacity (bf_make_room k b) = bf_capacity b"
proof (cases "bf_capacity b \<le> length (bf_map b)")
  case True
  obtain old rest where o: "bf_order b = old # rest" "old \<in> fst ` set (bf_map b)" "old \<notin> set rest"
    using bf_fullE [OF assms(1) True] .
  have "length (AList.delete old (bf_map b)) < length (bf_map b)"
    using o(2) by (rule length_delete_less)
  with o assms show ?thesis
    by (auto simp: bf_make_room_full [OF True o(1)] bf_inv_def map_of_eq_None_iff keys_delete
        distinct_keys_delete)
next
  case False
  with assms show ?thesis
    by (auto simp: bf_make_room_free bf_inv_def map_of_eq_None_iff)
qed

lemma bf_insert_inv:
  assumes "bf_inv b"
  shows "bf_inv (bf_insert k v b)"
proof (cases "map_of (bf_map b) k")
  case None
  with bf_make_room_shape [OF assms None] assms show ?thesis
    by (auto simp: bf_insert_def bf_inv_def Let_def length_alist_update dom_update distinct_update
        update_keys map_of_eq_None_iff)
next
  case (Some w)
  then have "k \<in> fst ` set (bf_map b)" by (force dest: map_of_SomeD)
  with Some assms show ?thesis
    by (auto simp: bf_insert_def bf_inv_def Let_def length_alist_update distinct_update
        dom_update)
qed

lemma bf_entries_keys: "bf_inv b \<Longrightarrow> k \<in> fst ` set (bf_entries b) \<longleftrightarrow> map_of (bf_map b) k \<noteq> None"
  by (simp flip: set_map add: bf_order_dom)

lemma length_bf_entries: "bf_inv b \<Longrightarrow> length (bf_entries b) = length (bf_map b)"
  by (simp add: bf_entries_def bf_length_order)

lemma bf_insert_entries_miss:
  assumes inv: "bf_inv b" and miss: "map_of (bf_map b) k = None"
  shows "bf_entries (bf_insert k v b)
    = (if bf_capacity b \<le> length (bf_entries b) then tl (bf_entries b) else bf_entries b) @ [(k, v)]"
proof -
  have k: "k \<notin> set (bf_order b)" using inv miss by (simp add: bf_order_dom)
  show ?thesis
  proof (cases "bf_capacity b \<le> length (bf_map b)")
    case True
    obtain old rest where o: "bf_order b = old # rest" "old \<notin> set rest"
      using bf_fullE [OF inv True] by metis
    have len: "length (bf_map b) = Suc (length rest)"
      using bf_length_order [OF inv] o(1) by simp
    have "map_of (AList.delete old (bf_map b)) x = map_of (bf_map b) x" if "x \<in> set rest" for x
      using that o(2) by (auto simp: delete_conv')
    with k True miss len o show ?thesis
      by (auto simp: bf_insert_def bf_make_room_full [OF True o(1)] bf_entries_def update_conv'
          Let_def)
  next
    case False
    with k miss show ?thesis
      by (auto simp: bf_insert_def bf_make_room_free bf_entries_def update_conv' Let_def
          bf_length_order [OF inv])
  qed
qed

lemma bf_insert_entries:
  assumes "bf_inv b"
  shows "bf_entries (bf_insert k v b) = fifo_insert (bf_capacity b) k v (bf_entries b)"
proof (cases "map_of (bf_map b) k")
  case None
  with assms show ?thesis
    by (simp add: bf_insert_entries_miss fifo_insert_def bf_entries_keys)
next
  case (Some w)
  then have "bf_entries (bf_insert k v b)
      = map (\<lambda>(k', v'). (k', if k' = k then v else v')) (bf_entries b)"
    by (auto simp: bf_insert_def bf_entries_def update_conv')
  with Some assms show ?thesis
    by (simp add: fifo_insert_def bf_entries_keys)
qed

lemma bf_remove_inv: "bf_inv b \<Longrightarrow> bf_inv (fst (bf_remove k b))"
  by (auto simp: bf_remove_def bf_inv_def keys_delete distinct_keys_delete set_remove1_eq
      intro: le_trans [OF length_delete_le] split: option.splits)

lemma bf_remove_entries:
  assumes "bf_inv b"
  shows "bf_entries (fst (bf_remove k b)) = filter (\<lambda>e. fst e \<noteq> k) (bf_entries b)"
proof (cases "map_of (bf_map b) k")
  case None
  then have "k \<notin> set (bf_order b)" using assms by (simp add: bf_order_dom)
  with None show ?thesis
    by (simp add: bf_remove_def bf_entries_def filter_map comp_def)
      (metis (mono_tags, lifting) filter_True)
next
  case (Some w)
  have "remove1 k (bf_order b) = filter (\<lambda>x. x \<noteq> k) (bf_order b)"
    using assms by (simp add: bf_inv_def distinct_remove1_removeAll removeAll_filter_not_eq)
      (auto intro: filter_cong)
  then show ?thesis
    by (simp add: bf_remove_def bf_entries_def filter_map comp_def Some delete_conv')
qed

interpretation bounded_fifo: fifo_cache bf_insert "\<lambda>k b. fst (bf_remove k b)" bf_get bf_capacity
  bf_entries bf_inv
proof (unfold_locales, goal_cases)
  case (1 c k v) then show ?case by (rule bf_insert_entries)
next
  case (2 c k) then show ?case by (rule bf_remove_entries)
next
  case (3 c k) then show ?case by (simp add: bf_get_def bf_map_of_entries)
next
  case (4 c) then show ?case by (simp add: bf_inv_def)
next
  case (5 c) then show ?case by (simp add: length_bf_entries bf_inv_def)
next
  case (6 c k v) then show ?case by (rule bf_insert_inv)
next
  case (7 c k) then show ?case by (rule bf_remove_inv)
next
  case (8 k v c) show ?case
    by (simp add: bf_insert_def bf_make_room_def Let_def split: list.splits)
next
  case (9 c) then show ?case by (simp add: bf_inv_def)
qed

section \<open>Properties\<close>

text \<open>
  C21. The bounded map with its separate order queue implements a list of entries, oldest first:
  inserting is the list insertion that overwrites in place and drops the oldest entry when full,
  removing deletes the entry, looking up finds it, the entries never exceed the capacity, and both
  operations keep the queue and the map consistent.
\<close>

theorem bounded_fifo_refines:
  assumes "bf_inv b"
  shows "bf_entries (bf_insert k v b) = fifo_insert (bf_capacity b) k v (bf_entries b) \<and>
    bf_entries (fst (bf_remove k b)) = filter (\<lambda>e. fst e \<noteq> k) (bf_entries b) \<and>
    bf_get b j = map_of (bf_entries b) j \<and> length (bf_entries b) \<le> bf_capacity b \<and>
    bf_inv (bf_insert k v b) \<and> bf_inv (fst (bf_remove k b))"
  using bounded_fifo.entries_insert [OF assms] bounded_fifo.entries_remove [OF assms]
    bounded_fifo.lookup_entries [OF assms] bounded_fifo.entries_bound [OF assms]
    bounded_fifo.inv_insert [OF assms] bounded_fifo.inv_remove [OF assms] by simp_all

theorem bounded_fifo_refines_witness:
  "bf_entries (bf_insert (3 :: nat) True (bf_insert 2 False (bf_insert 1 True (bf_new 2)))) = [(2, False), (3, True)]"
proof -
  have i: "bf_inv (bf_insert 2 False (bf_insert (1 :: nat) True (bf_new 2)))"
    by (intro bf_insert_inv bf_new_inv) simp
  have "bf_entries (bf_insert 3 True (bf_insert 2 False (bf_insert 1 True (bf_new 2)))) = fifo_insert 2 3 True
      (bf_entries (bf_insert 2 False (bf_insert (1 :: nat) True (bf_new 2))))"
    using bounded_fifo_refines [OF i, of 3 True] by (simp add: bounded_fifo.capacity_insert bf_new_def)
  also have "\<dots> = [(2, False), (3, True)]" by code_simp
  finally show ?thesis .
qed

text \<open>
  An entry stays available until as many other keys as the capacity have been inserted after it:
  the cached hash of a proposal survives any smaller number of later proposals.
\<close>

lemma bounded_fifo_retains:
  assumes "bf_inv b" and "bf_get b k = None" and "k \<notin> fst ` set later" and "length later < bf_capacity b"
  shows "bf_get (fold (\<lambda>(j, w). bf_insert j w) later (bf_insert k v b)) k = Some v"
  using assms by (rule bounded_fifo.retained)

end
