(* ===== verification/N42_EngineState.thy ===== *)
theory N42_EngineState
  imports N42_Quorum N42_Epoch N42_Round N42_Pacemaker N42_BoundedFifo
begin

text \<open>
  The state of the consensus engine of \<^verbatim>\<open>n42-consensus/src/protocol/state_machine.rs\<close>, its
  constructors, and the helpers every handler uses. Three parts of the environment are in the
  state so that every call has a definite result: the output channel (a script of the results
  of the next sends), the vote log of \<^verbatim>\<open>vote_log.rs\<close> (a script of the results of the next
  durable writes) and the clock (a script of elapsed times). \<open>trace\<close> is a history variable: the
  signatures made, the records made durable and the outputs delivered, in order.
\<close>

section \<open>Types\<close>

record view_timing =
  view_start :: instant
  proposal_sent :: "instant option"
  proposal_received :: "instant option"
  vote_sent :: "instant option"
  prepare_qc_formed :: "instant option"
  commit_vote_sent :: "instant option"
  commit_qc_formed :: "instant option"
  prepare_vote_count :: u32
  commit_vote_count :: u32

definition view_timing_new :: "instant \<Rightarrow> view_timing" where
  "view_timing_new t =
     \<lparr> view_start = t, proposal_sent = None, proposal_received = None, vote_sent = None,
       prepare_qc_formed = None, commit_vote_sent = None, commit_qc_formed = None,
       prepare_vote_count = 0, commit_vote_count = 0 \<rparr>"

definition FUTURE_VIEW_WINDOW :: u64 where "FUTURE_VIEW_WINDOW = 50"
definition MAX_FUTURE_MESSAGES :: nat where "MAX_FUTURE_MESSAGES = 256"

datatype consensus_event =
    EvMessage consensus_message
  | BlockReady b256 "b256 option"
  | BlockImported b256
  | BlockImportedWithParent b256 b256

datatype vote_proof =
    ProofVote u32
  | ProofCommitVote u32 b256

fun proof_signer :: "vote_proof \<Rightarrow> u32" where
  "proof_signer (ProofVote signer) = signer"
| "proof_signer (ProofCommitVote signer changes_hash) = signer"

datatype engine_output =
    BroadcastMessage consensus_message
  | SendToValidator u32 consensus_message
  | ExecuteBlock b256
  | BlockCommitted view_number b256 quorum_certificate "validator_change list option"
  | CommittedBlockValidatorChangesRecovered view_number b256 "validator_change list"
  | ViewChanged view_number
  | SyncRequired view_number view_number
  | EquivocationDetected view_number u32 b256 b256
  | EpochTransition u64 u32

record pending_proposal =
  pp_view :: view_number
  pp_block_hash :: b256
  pp_justify_block :: b256

datatype send_result = Sent | ChannelFull | ChannelClosed

datatype log_entry =
    LogVote view_number
  | LogCommitVote view_number
  | LogLock quorum_certificate

datatype effect =
    Signed bytes
  | Logged log_entry
  | LogFailed log_entry
  | Delivered engine_output
  | Accepted proposal

record engine =
  my_index :: u32
  secret_key :: secret_key
  local_public_key :: public_key
  epoch_manager :: epoch_manager
  signing_profile :: signing_profile
  round_state :: round_state
  pacemaker :: pacemaker
  vote_collector :: "vote_collector option"
  commit_collector :: "vote_collector option"
  timeout_collector :: "timeout_collector option"
  future_timeout_collectors :: "(view_number \<times> timeout_collector) list"
  prepare_qc :: "quorum_certificate option"
  previous_prepare_qc :: "quorum_certificate option"
  pending_proposal :: "pending_proposal option"
  imported_blocks :: "b256 set"
  imported_parents :: "b256 \<rightharpoonup> b256"
  imported_block_fifo :: "b256 list"
  equivocation_tracker :: "u32 \<rightharpoonup> b256"
  commit_equivocation_tracker :: "u32 \<rightharpoonup> b256"
  proposal_equivocation_tracker :: "u32 \<rightharpoonup> b256 \<times> b256"
  future_msg_buffer :: "(view_number \<times> consensus_message) list"
  view_timing :: view_timing
  last_committed_timing :: "view_timing option"
  pending_tx_roots :: "(b256, b256) bounded_fifo_map"
  pending_changes_hashes :: "(b256, b256) bounded_fifo_map"
  out_script :: "send_result list"
  log_script :: "consensus_error option list"
  now :: instant
  ticks :: "duration list"
  trace :: "effect list"

type_synonym 'a engine_result = "engine \<times> 'a consensus_result"

section \<open>Environment\<close>

text \<open>\<open>Instant::now()\<close>: the clock moves by the next elapsed time and is read.\<close>

definition tick :: "engine \<Rightarrow> engine" where
  "tick s = (case ticks s of [] \<Rightarrow> s | d # ds \<Rightarrow> s\<lparr> now := now s + d, ticks := ds \<rparr>)"

definition stamp :: "(instant \<Rightarrow> view_timing \<Rightarrow> view_timing) \<Rightarrow> engine \<Rightarrow> engine" where
  "stamp f s = (let s = tick s in s\<lparr> view_timing := f (now s) (view_timing s) \<rparr>)"

definition reset_pacemaker :: "engine \<Rightarrow> engine" where
  "reset_pacemaker s = (let s = tick s in
     s\<lparr> pacemaker := reset_for_view (now s) (consecutive_timeouts (round_state s)) (pacemaker s) \<rparr>)"

text \<open>
  \<open>emit\<close>: one attempt and at most three retries while the channel is full. A closed channel
  and a channel that stays full end with the same error.
\<close>

definition MAX_OUTPUT_SEND_RETRIES :: nat where "MAX_OUTPUT_SEND_RETRIES = 3"

fun emit_attempts :: "nat \<Rightarrow> engine_output \<Rightarrow> engine \<Rightarrow> unit engine_result" where
  "emit_attempts 0 out s = (s, Err OutputChannelClosed)"
| "emit_attempts (Suc n) out s = (case out_script s of
     [] \<Rightarrow> (s\<lparr> trace := trace s @ [Delivered out] \<rparr>, Ok ())
   | Sent # rs \<Rightarrow> (s\<lparr> out_script := rs, trace := trace s @ [Delivered out] \<rparr>, Ok ())
   | ChannelClosed # rs \<Rightarrow> (s\<lparr> out_script := rs \<rparr>, Err OutputChannelClosed)
   | ChannelFull # rs \<Rightarrow> emit_attempts n out (s\<lparr> out_script := rs \<rparr>))"

definition emit :: "engine_output \<Rightarrow> engine \<Rightarrow> unit engine_result" where
  "emit out s = emit_attempts (Suc MAX_OUTPUT_SEND_RETRIES) out s"

text \<open>A durable write of the vote log; after an error the entry may or may not have reached the disk.\<close>

definition vote_log_write :: "log_entry \<Rightarrow> engine \<Rightarrow> unit engine_result" where
  "vote_log_write e s = (case log_script s of
     [] \<Rightarrow> (s\<lparr> trace := trace s @ [Logged e] \<rparr>, Ok ())
   | None # rs \<Rightarrow> (s\<lparr> log_script := rs, trace := trace s @ [Logged e] \<rparr>, Ok ())
   | Some err # rs \<Rightarrow> (s\<lparr> log_script := rs, trace := trace s @ [LogFailed e] \<rparr>, Err err))"

text \<open>\<open>self.signing_profile.sign(&self.secret_key, message)\<close>.\<close>

definition sign_with :: "ext_lib \<Rightarrow> bytes \<Rightarrow> engine \<Rightarrow> engine \<times> signature" where
  "sign_with L message s =
     (s\<lparr> trace := trace s @ [Signed message] \<rparr>,
      profile_sign L (signing_profile s) (secret_key s) message)"

text \<open>A remark in the history: the proposal passed every check of the voting rule.\<close>

definition note_accepted :: "proposal \<Rightarrow> engine \<Rightarrow> engine" where
  "note_accepted p s = s\<lparr> trace := trace s @ [Accepted p] \<rparr>"

text \<open>Updates of one component of the state.\<close>

definition upd_round :: "(round_state \<Rightarrow> round_state) \<Rightarrow> engine \<Rightarrow> engine" where
  "upd_round f s = s\<lparr> round_state := f (round_state s) \<rparr>"

definition upd_epochs :: "(epoch_manager \<Rightarrow> epoch_manager) \<Rightarrow> engine \<Rightarrow> engine" where
  "upd_epochs f s = s\<lparr> epoch_manager := f (epoch_manager s) \<rparr>"

definition on_epochs ::
  "(epoch_manager \<Rightarrow> epoch_manager \<times> 'a consensus_result) \<Rightarrow> engine \<Rightarrow> 'a engine_result" where
  "on_epochs f s = (case f (epoch_manager s) of (em, r) \<Rightarrow> (s\<lparr> epoch_manager := em \<rparr>, r))"

section \<open>Accessors\<close>

abbreviation view_of :: "engine \<Rightarrow> view_number" where
  "view_of s \<equiv> current_view (round_state s)"

definition set_for_view :: "view_number \<Rightarrow> engine \<Rightarrow> validator_set" where
  "set_for_view view s = validator_set_for_view view (epoch_manager s)"

definition resolve_qc_validator_set :: "quorum_certificate \<Rightarrow> engine \<Rightarrow> validator_set consensus_result" where
  "resolve_qc_validator_set qc s =
     (case known_validator_set_for_view (qc_view qc) (epoch_manager s) of
        None \<Rightarrow> Err (InvalidQC (qc_view qc) SetUnavailable)
      | Some authorized \<Rightarrow>
          if unat (vset_len authorized) \<noteq> length (qc_signers qc)
          then Err (InvalidQC (qc_view qc)
                 (BitmapNotAuthorized (length (qc_signers qc)) (vset_len authorized)))
          else Ok authorized)"

definition leader_index_for_view :: "view_number \<Rightarrow> engine \<Rightarrow> u32 consensus_result" where
  "leader_index_for_view view s = leader_for_view view (set_for_view view s)"

definition local_validator_index_for_view :: "view_number \<Rightarrow> engine \<Rightarrow> u32 option" where
  "local_validator_index_for_view view s =
     index_of_public_key (set_for_view view s) (local_public_key s)"

definition is_local_validator_active_for_view :: "view_number \<Rightarrow> engine \<Rightarrow> bool" where
  "is_local_validator_active_for_view view s \<longleftrightarrow> local_validator_index_for_view view s \<noteq> None"

text \<open>The leader is looked up only when the local key is in the set, so this never panics on
  a set that is empty.\<close>

definition is_leader_for_view :: "view_number \<Rightarrow> engine \<Rightarrow> bool consensus_result" where
  "is_leader_for_view view s = (case local_validator_index_for_view view s of
     None \<Rightarrow> Ok False
   | Some index \<Rightarrow> bind_outcome (leader_index_for_view view s) (\<lambda>l. Ok (index = l)))"

definition is_current_leader :: "engine \<Rightarrow> bool consensus_result" where
  "is_current_leader s = is_leader_for_view (view_of s) s"

definition cached_changes_hash :: "b256 \<Rightarrow> engine \<Rightarrow> b256" where
  "cached_changes_hash block_hash s = (case bf_get (pending_changes_hashes s) block_hash of
     Some h \<Rightarrow> h | None \<Rightarrow> 0)"

definition verify_qc_any_domain_or_known ::
  "ext_lib \<Rightarrow> quorum_certificate \<Rightarrow> engine \<Rightarrow> unit consensus_result" where
  "verify_qc_any_domain_or_known L qc s =
     (if qc = locked_qc (round_state s) \<or> qc = last_committed_qc (round_state s) then Ok ()
      else let changes_hash = cached_changes_hash (qc_block_hash qc) s in
        bind_outcome (resolve_qc_validator_set qc s) (\<lambda>vs.
          verify_qc_any_domain_with_profile L qc vs changes_hash (signing_profile s)))"

definition sync_local_validator_index :: "engine \<Rightarrow> engine \<times> u32 option" where
  "sync_local_validator_index s =
     (let new_index = index_of_public_key (current_set (epoch_manager s)) (local_public_key s) in
      case new_index of
        Some idx \<Rightarrow> (if idx \<noteq> my_index s then s\<lparr> my_index := idx \<rparr> else s, new_index)
      | None \<Rightarrow> (s, new_index))"

section \<open>Constructors\<close>

text \<open>The environment an engine is started in.\<close>

record environment =
  env_out :: "send_result list"
  env_log :: "consensus_error option list"
  env_now :: instant
  env_ticks :: "duration list"

definition engine_from ::
  "ext_lib \<Rightarrow> u32 \<Rightarrow> secret_key \<Rightarrow> epoch_manager \<Rightarrow> round_state \<Rightarrow> u64 \<Rightarrow> u64 \<Rightarrow> environment \<Rightarrow> engine" where
  "engine_from L index sk em rs base_timeout_ms max_timeout_ms env =
     (let s = \<lparr> my_index = index, secret_key = sk, local_public_key = bls_public_key L sk,
                epoch_manager = em, signing_profile = Native, round_state = rs,
                pacemaker = pacemaker_new (env_now env) base_timeout_ms max_timeout_ms,
                vote_collector = None, commit_collector = None, timeout_collector = None,
                future_timeout_collectors = [], prepare_qc = None, previous_prepare_qc = None,
                pending_proposal = None, imported_blocks = {}, imported_parents = Map.empty,
                imported_block_fifo = [], equivocation_tracker = Map.empty,
                commit_equivocation_tracker = Map.empty, proposal_equivocation_tracker = Map.empty,
                future_msg_buffer = [], view_timing = view_timing_new (env_now env),
                last_committed_timing = None, pending_tx_roots = bf_new 64,
                pending_changes_hashes = bf_new 64, out_script = env_out env,
                log_script = env_log env, now = env_now env, ticks = env_ticks env, trace = [] \<rparr>;
          s = tick s;
          s = s\<lparr> pacemaker := pacemaker_new (now s) base_timeout_ms max_timeout_ms \<rparr>;
          s = tick s
      in s\<lparr> view_timing := view_timing_new (now s) \<rparr>)"

definition with_epoch_manager_and_vote_log ::
  "ext_lib \<Rightarrow> u32 \<Rightarrow> secret_key \<Rightarrow> epoch_manager \<Rightarrow> u64 \<Rightarrow> u64 \<Rightarrow> environment
   \<Rightarrow> engine consensus_result" where
  "with_epoch_manager_and_vote_log L index sk em base_timeout_ms max_timeout_ms env =
     bind_outcome (round_new L) (\<lambda>rs.
       Ok (engine_from L index sk em rs base_timeout_ms max_timeout_ms env))"

text \<open>The no-op vote log never fails.\<close>

definition with_epoch_manager ::
  "ext_lib \<Rightarrow> u32 \<Rightarrow> secret_key \<Rightarrow> epoch_manager \<Rightarrow> u64 \<Rightarrow> u64 \<Rightarrow> environment
   \<Rightarrow> engine consensus_result" where
  "with_epoch_manager L index sk em base_timeout_ms max_timeout_ms env =
     with_epoch_manager_and_vote_log L index sk em base_timeout_ms max_timeout_ms
       (env\<lparr> env_log := [] \<rparr>)"

definition engine_new ::
  "ext_lib \<Rightarrow> u32 \<Rightarrow> secret_key \<Rightarrow> validator_set \<Rightarrow> u64 \<Rightarrow> u64 \<Rightarrow> environment
   \<Rightarrow> engine consensus_result" where
  "engine_new L index sk vs base_timeout_ms max_timeout_ms env =
     with_epoch_manager L index sk (epoch_new vs) base_timeout_ms max_timeout_ms env"

definition MAX_RECOVERED_CONSECUTIVE_TIMEOUTS :: u32 where
  "MAX_RECOVERED_CONSECUTIVE_TIMEOUTS = 128"

definition with_recovered_state_and_vote_log ::
  "ext_lib \<Rightarrow> u32 \<Rightarrow> secret_key \<Rightarrow> epoch_manager \<Rightarrow> u64 \<Rightarrow> u64 \<Rightarrow> environment
   \<Rightarrow> view_number \<Rightarrow> quorum_certificate \<Rightarrow> quorum_certificate \<Rightarrow> u32 \<Rightarrow> view_number \<Rightarrow> view_number
   \<Rightarrow> engine" where
  "with_recovered_state_and_vote_log L index sk em base_timeout_ms max_timeout_ms env
     view locked committed timeouts voted commit_voted =
     engine_from L index sk em
       (round_from_snapshot view locked committed (min timeouts MAX_RECOVERED_CONSECUTIVE_TIMEOUTS)
          voted commit_voted)
       base_timeout_ms max_timeout_ms env"

definition with_recovered_state ::
  "ext_lib \<Rightarrow> u32 \<Rightarrow> secret_key \<Rightarrow> epoch_manager \<Rightarrow> u64 \<Rightarrow> u64 \<Rightarrow> environment
   \<Rightarrow> view_number \<Rightarrow> quorum_certificate \<Rightarrow> quorum_certificate \<Rightarrow> u32 \<Rightarrow> view_number \<Rightarrow> engine" where
  "with_recovered_state L index sk em base_timeout_ms max_timeout_ms env view locked committed
     timeouts voted =
     with_recovered_state_and_vote_log L index sk em base_timeout_ms max_timeout_ms
       (env\<lparr> env_log := [] \<rparr>) view locked committed timeouts voted voted"

definition enable_h2_v4_signing :: "h2_v4_chain_identity \<Rightarrow> engine \<Rightarrow> engine" where
  "enable_h2_v4_signing identity s = s\<lparr> signing_profile := H2V4 identity \<rparr>"

definition enable_gov5_legacy_signing :: "engine \<Rightarrow> engine" where
  "enable_gov5_legacy_signing s = s\<lparr> signing_profile := Gov5Legacy \<rparr>"

section \<open>Properties\<close>

text \<open>The outcomes of the sends that let an output through: at most three full channels, then room.\<close>

definition delivers :: "send_result list \<Rightarrow> bool" where
  "delivers script =
     (length (takeWhile ((=) ChannelFull) script) \<le> MAX_OUTPUT_SEND_RETRIES \<and>
      (case dropWhile ((=) ChannelFull) script of [] \<Rightarrow> True | r # _ \<Rightarrow> r = Sent))"

lemma emit_attempts_exact:
  "emit_attempts n out s =
     (let fulls = length (takeWhile ((=) ChannelFull) (out_script s)); rest = dropWhile ((=) ChannelFull) (out_script s) in
      if n \<le> fulls then (s\<lparr> out_script := drop n (out_script s) \<rparr>, Err OutputChannelClosed)
      else if (case rest of [] \<Rightarrow> True | r # _ \<Rightarrow> r = Sent)
      then (s\<lparr> out_script := tl rest, trace := trace s @ [Delivered out] \<rparr>, Ok ())
      else (s\<lparr> out_script := tl rest \<rparr>, Err OutputChannelClosed))"
proof (induction n arbitrary: s)
  case (Suc n)
  show ?case
  proof (cases "out_script s")
    case (Cons r rs)
    show ?thesis
    proof (cases r)
      case ChannelFull
      have "emit_attempts (Suc n) out s = emit_attempts n out (s\<lparr> out_script := rs \<rparr>)"
        by (simp add: Cons ChannelFull)
      then show ?thesis unfolding Suc.IH by (simp add: Cons ChannelFull Let_def)
    qed (simp_all add: Cons)
  qed simp
qed simp

text \<open>
  C28. An output is delivered exactly once or not at all: the send is tried four times while the
  channel is full, succeeds as soon as there is room, and otherwise reports the channel as closed
  with nothing delivered; the rest of the engine's state is untouched.
\<close>

theorem emit_delivers_or_fails:
  "\<exists>rest. emit out s =
     (if delivers (out_script s) then (s\<lparr> out_script := rest, trace := trace s @ [Delivered out] \<rparr>, Ok ())
      else (s\<lparr> out_script := rest \<rparr>, Err OutputChannelClosed))"
  unfolding emit_def emit_attempts_exact delivers_def Let_def by (auto simp: not_less_eq_eq)

end
