(* ===== verification/N42_Voting.thy ===== *)
theory N42_Voting
  imports N42_EngineState
begin

text \<open>
  The handlers of \<^verbatim>\<open>n42-consensus/src/protocol/voting.rs\<close>. A handler that moves to another view
  takes \<open>advance_to_view\<close> as its argument \<open>adv\<close>; the recursion between the two is closed in
  \<^verbatim>\<open>N42_Engine\<close>.
\<close>

definition check_equivocation ::
  "(u32 \<rightharpoonup> b256) \<Rightarrow> u32 \<Rightarrow> b256 \<Rightarrow> (u32 \<rightharpoonup> b256) \<times> (b256 \<times> b256) option" where
  "check_equivocation tracker voter block_hash = (case tracker voter of
     Some prev \<Rightarrow> (tracker, if prev \<noteq> block_hash then Some (prev, block_hash) else None)
   | None \<Rightarrow> (tracker(voter \<mapsto> block_hash), None))"

text \<open>Forming the CommitQC: commit, stage what was signed, announce, move to the next view.\<close>

definition try_form_commit_qc ::
  "ext_lib \<Rightarrow> (view_number \<Rightarrow> engine \<Rightarrow> unit engine_result) \<Rightarrow> engine \<Rightarrow> unit engine_result" where
  "try_form_commit_qc L adv s =
     (let view = view_of s; view_set = set_for_view view s in
      case commit_collector s of
        None \<Rightarrow> (s, Ok ())
      | Some collector \<Rightarrow>
          if \<not> vc_has_quorum (quorum_size view_set) collector then (s, Ok ())
          else
            let block_hash = vc_block_hash collector;
                changes_hash = cached_changes_hash block_hash s;
                commit_msg = commit_message (signing_profile s) view block_hash changes_hash
            in trying (build_qc_with_profile_message L view_set commit_msg (signing_profile s) collector) s
              (\<lambda>commit_qc.
                let s = stamp (\<lambda>t vt. vt\<lparr> commit_qc_formed := Some t,
                                          commit_vote_count := word_of_nat (vote_count collector) \<rparr>) s;
                    s = upd_round (round_commit commit_qc) s;
                    changes_hash = cached_changes_hash block_hash s
                in andthen
                    (if changes_hash \<noteq> 0 \<and> pending_changes_hash L (epoch_manager s) = changes_hash
                     then (let changes = pending_changes_for_proposal (epoch_manager s) in
                           andthen (on_epochs (commit_pending_changes L) s) (\<lambda>_ s. (s, Ok changes)))
                     else (s, Ok None))
                    (\<lambda>committed_changes s.
                      andthen (emit (BroadcastMessage (MDecide
                          \<lparr> d_view = view, d_block_hash = block_hash, d_commit_qc = commit_qc,
                            d_validator_changes_hash = changes_hash \<rparr>)) s) (\<lambda>_ s.
                        let s = s\<lparr> pending_tx_roots := fst (bf_remove block_hash (pending_tx_roots s)) \<rparr> in
                        andthen (emit (BlockCommitted view block_hash commit_qc committed_changes) s) (\<lambda>_ s.
                          andthen (adv (saturating_add view 1) s) (\<lambda>_ s.
                            emit (ViewChanged (view_of s)) s))))))"

text \<open>
  The leader's own commit vote (the tail of \<open>try_form_prepare_qc\<close>): the lock and the view are
  made durable before the vote is signed. The result says whether a vote was cast.
\<close>

definition leader_commit_vote :: "ext_lib \<Rightarrow> view_number \<Rightarrow> b256 \<Rightarrow> engine \<Rightarrow> bool engine_result" where
  "leader_commit_vote L view block_hash s =
     (if \<not> may_commit_vote_in view (round_state s) then (s, Ok False)
      else andthen (vote_log_write (LogLock (locked_qc (round_state s))) s) (\<lambda>_ s.
        let s = upd_round (round_record_commit_vote view) s in
        andthen (vote_log_write (LogCommitVote view) s) (\<lambda>_ s.
          let changes_hash = cached_changes_hash block_hash s;
              commit_msg = commit_message (signing_profile s) view block_hash changes_hash;
              (s, commit_sig) = sign_with L commit_msg s
          in case commit_collector s of
               None \<Rightarrow> (s, Ok True)
             | Some c \<Rightarrow> trying (add_verified_vote (my_index s) commit_sig c) s
                 (\<lambda>c'. (s\<lparr> commit_collector := Some c' \<rparr>, Ok True)))))"

text \<open>
  Forming the PrepareQC: lock it, broadcast it, and cast the leader's own commit vote; the answer
  tells whether the attempt to form a CommitQC follows.
\<close>

definition form_prepare_qc :: "ext_lib \<Rightarrow> engine \<Rightarrow> bool engine_result" where
  "form_prepare_qc L s =
     (let view = view_of s; view_set = set_for_view view s in
      case vote_collector s of
        None \<Rightarrow> (s, Ok False)
      | Some collector \<Rightarrow>
          if \<not> vc_has_quorum (quorum_size view_set) collector \<or> prepare_qc s \<noteq> None then (s, Ok False)
          else
            let msg = vote_message (signing_profile s) view (vc_block_hash collector)
            in trying (build_qc_with_profile_message L view_set msg (signing_profile s) collector) s
              (\<lambda>qc.
                let s = stamp (\<lambda>t vt. vt\<lparr> prepare_qc_formed := Some t,
                                          prepare_vote_count := word_of_nat (vote_count collector) \<rparr>) s;
                    s = s\<lparr> prepare_qc := Some qc \<rparr>;
                    s = upd_round enter_pre_commit s;
                    s = upd_round (update_locked_qc qc) s;
                    block_hash = qc_block_hash qc
                in andthen (emit (BroadcastMessage (MPrepareQC
                       \<lparr> pqc_view = view, pqc_block_hash = block_hash, pqc_qc = qc \<rparr>)) s) (\<lambda>_ s.
                     leader_commit_vote L view block_hash s)))"

definition try_form_prepare_qc ::
  "ext_lib \<Rightarrow> (view_number \<Rightarrow> engine \<Rightarrow> unit engine_result) \<Rightarrow> engine \<Rightarrow> unit engine_result" where
  "try_form_prepare_qc L adv s =
     andthen (form_prepare_qc L s) (\<lambda>voted s.
       if voted then try_form_commit_qc L adv s else (s, Ok ()))"

definition process_vote_inner ::
  "ext_lib \<Rightarrow> (view_number \<Rightarrow> engine \<Rightarrow> unit engine_result) \<Rightarrow> vote \<Rightarrow> bool \<Rightarrow> engine
   \<Rightarrow> unit engine_result" where
  "process_vote_inner L adv vote signature_verified s =
     (let view = view_of s in
      if v_view vote \<noteq> view then (s, Err (ViewMismatch view (v_view vote)))
      else trying (is_current_leader s) s (\<lambda>leader.
        if \<not> leader then (s, Ok ())
        else trying
          (if signature_verified then Ok ()
           else bind_outcome (get_public_key (set_for_view view s) (v_voter vote)) (\<lambda>pk.
             if verify_single L (signing_profile s) pk
                  (vote_message (signing_profile s) view (v_block_hash vote)) (v_signature vote)
             then Ok () else Err (InvalidSignature view (v_voter vote)))) s (\<lambda>_.
          let (tracker, conflict) =
                check_equivocation (equivocation_tracker s) (v_voter vote) (v_block_hash vote);
              s = s\<lparr> equivocation_tracker := tracker \<rparr>
          in case conflict of
               Some (h1, h2) \<Rightarrow> andthen (emit (EquivocationDetected view (v_voter vote) h1 h2) s)
                 (\<lambda>_ s. (s, Ok ()))
             | None \<Rightarrow> (case vote_collector s of
                 None \<Rightarrow> (s, Ok ())
               | Some collector \<Rightarrow>
                   if v_block_hash vote \<noteq> vc_block_hash collector then (s, Ok ())
                   else case add_verified_vote (v_voter vote) (v_signature vote) collector of
                     Ok c \<Rightarrow> try_form_prepare_qc L adv (s\<lparr> vote_collector := Some c \<rparr>)
                   | Err (DuplicateVote _ _) \<Rightarrow> (s, Ok ())
                   | Err e \<Rightarrow> (s, Err e)
                   | Panic \<Rightarrow> (s, Panic)))))"

definition process_vote where
  "process_vote L adv vote s = process_vote_inner L adv vote False s"

definition process_verified_vote where
  "process_verified_vote L adv vote s = process_vote_inner L adv vote True s"

definition process_commit_vote_inner ::
  "ext_lib \<Rightarrow> (view_number \<Rightarrow> engine \<Rightarrow> unit engine_result) \<Rightarrow> commit_vote \<Rightarrow> bool \<Rightarrow> engine
   \<Rightarrow> unit engine_result" where
  "process_commit_vote_inner L adv cv signature_verified s =
     (let view = view_of s in
      if cv_view cv \<noteq> view then (s, Err (ViewMismatch view (cv_view cv)))
      else trying (is_current_leader s) s (\<lambda>leader.
        if \<not> leader then (s, Ok ())
        else trying
          (if signature_verified then Ok ()
           else bind_outcome (get_public_key (set_for_view view s) (cv_voter cv)) (\<lambda>pk.
             if verify_single L (signing_profile s) pk
                  (commit_message (signing_profile s) view (cv_block_hash cv)
                     (cached_changes_hash (cv_block_hash cv) s)) (cv_signature cv)
             then Ok () else Err (InvalidSignature view (cv_voter cv)))) s (\<lambda>_.
          let (tracker, conflict) =
                check_equivocation (commit_equivocation_tracker s) (cv_voter cv) (cv_block_hash cv);
              s = s\<lparr> commit_equivocation_tracker := tracker \<rparr>
          in case conflict of
               Some (h1, h2) \<Rightarrow> andthen (emit (EquivocationDetected view (cv_voter cv) h1 h2) s)
                 (\<lambda>_ s. (s, Ok ()))
             | None \<Rightarrow> (case commit_collector s of
                 None \<Rightarrow> (s, Ok ())
               | Some collector \<Rightarrow>
                   if cv_block_hash cv \<noteq> vc_block_hash collector then (s, Ok ())
                   else case add_verified_vote (cv_voter cv) (cv_signature cv) collector of
                     Ok c \<Rightarrow> try_form_commit_qc L adv (s\<lparr> commit_collector := Some c \<rparr>)
                   | Err (DuplicateVote _ _) \<Rightarrow> (s, Ok ())
                   | Err e \<Rightarrow> (s, Err e)
                   | Panic \<Rightarrow> (s, Panic)))))"

definition process_commit_vote where
  "process_commit_vote L adv cv s = process_commit_vote_inner L adv cv False s"

definition process_verified_commit_vote where
  "process_verified_commit_vote L adv cv s = process_commit_vote_inner L adv cv True s"

end
