(* ===== verification/N42_Proposal.thy ===== *)
theory N42_Proposal
  imports N42_Voting
begin

text \<open>
  The handlers of \<^verbatim>\<open>n42-consensus/src/protocol/proposal.rs\<close>: proposing, voting on a proposal,
  committing to a PrepareQC, and the cache of imported blocks that releases a deferred vote.
\<close>

definition MAX_IMPORTED_BLOCKS :: nat where "MAX_IMPORTED_BLOCKS = 64"
definition MAX_CHANGES_PER_PROPOSAL :: nat where "MAX_CHANGES_PER_PROPOSAL = 4"

definition carries_changes :: "validator_change list option \<Rightarrow> bool" where
  "carries_changes changes = (case changes of Some cs \<Rightarrow> cs \<noteq> [] | None \<Rightarrow> False)"

text \<open>A late proposal for the block that was committed last: its changes are staged after all.\<close>

definition recover_late_committed_proposal ::
  "ext_lib \<Rightarrow> proposal \<Rightarrow> engine \<Rightarrow> bool engine_result" where
  "recover_late_committed_proposal L p s =
     (case p_validator_changes p of
        None \<Rightarrow> (s, Ok False)
      | Some changes \<Rightarrow>
          if changes = [] then (s, Ok False)
          else if p_view p \<ge> view_of s then (s, Ok False)
          else let last_committed = last_committed_qc (round_state s) in
            if qc_view last_committed \<noteq> p_view p \<or> qc_block_hash last_committed \<noteq> p_block_hash p
            then (s, Ok False)
            else let expected_hash = cached_changes_hash (p_block_hash p) s in
              if expected_hash = 0 then (s, Ok False)
              else if hash_changes L changes \<noteq> expected_hash then (s, Ok False)
              else if current_epoch (epoch_manager s) \<noteq> epoch_for_view (p_view p) (epoch_manager s)
                      \<or> has_staged_next (epoch_manager s)
              then (s, Ok False)
              else let view_set = set_for_view (p_view p) s in
                trying (leader_for_view (p_view p) view_set) s (\<lambda>expected_leader.
                  if p_proposer p \<noteq> expected_leader then (s, Ok False)
                  else case get_public_key view_set (p_proposer p) of
                    Ok pk \<Rightarrow>
                      if \<not> verify_single L (signing_profile s) pk
                            (proposal_message L (signing_profile s) (p_view p) (p_block_hash p)
                               (p_validator_changes p)) (p_signature p)
                      then (s, Ok False)
                      else
                        let s = upd_epochs (replace_pending_from_proposal changes) s in
                        andthen (on_epochs (commit_pending_changes L) s) (\<lambda>_ s.
                          andthen (emit (CommittedBlockValidatorChangesRecovered
                              (p_view p) (p_block_hash p) changes) s) (\<lambda>_ s. (s, Ok True)))
                  | _ \<Rightarrow> (s, Ok False)))"

text \<open>
  The leader proposes a block and votes for it (\<open>on_block_ready\<close> up to the broadcast). The
  result says whether the proposal was broadcast.
\<close>

definition propose_block ::
  "ext_lib \<Rightarrow> b256 \<Rightarrow> b256 option \<Rightarrow> engine \<Rightarrow> bool engine_result" where
  "propose_block L block_hash tx_root_hash s =
     (let view = view_of s in
      trying (is_current_leader s) s (\<lambda>leader.
        if \<not> leader then (s, Ok False)
        else if phase (round_state s) \<noteq> WaitingForProposal then (s, Ok False)
        else
          let justify_qc = locked_qc (round_state s);
              piggybacked_qc = previous_prepare_qc s;
              s = s\<lparr> previous_prepare_qc := None \<rparr>;
              validator_changes = pending_changes_for_proposal (epoch_manager s)
          in if is_gov5 (signing_profile s) \<and> carries_changes validator_changes
             then (s, Err H2V4ValidatorChangesUnsupported)
             else
               let changes_hash = (case validator_changes of
                       Some changes \<Rightarrow> hash_changes L changes | None \<Rightarrow> 0);
                   s = s\<lparr> pending_changes_hashes :=
                            bf_insert block_hash changes_hash (pending_changes_hashes s) \<rparr>;
                   prop_msg = proposal_message L (signing_profile s) view block_hash validator_changes;
                   (s, sig) = sign_with L prop_msg s;
                   vote_msg = vote_message (signing_profile s) view block_hash;
                   proposer = (case local_validator_index_for_view view s of
                       Some i \<Rightarrow> i | None \<Rightarrow> my_index s);
                   p = \<lparr> p_view = view, p_block_hash = block_hash, p_justify_qc = justify_qc,
                         p_proposer = proposer, p_signature = sig, p_prepare_qc = piggybacked_qc,
                         p_tx_root_hash = tx_root_hash, p_validator_changes = validator_changes \<rparr>;
                   view_set_len = vset_len (set_for_view view s);
                   s = s\<lparr> vote_collector := Some (vc_new view block_hash view_set_len) \<rparr>;
                   s = s\<lparr> commit_collector := Some (vc_new view block_hash view_set_len) \<rparr>;
                   s = upd_round enter_voting s
               in if \<not> may_vote_in view (round_state s) then (s, Ok False)
                  else
                    let s = note_accepted p s;
                        s = upd_round (round_record_vote view) s in
                    andthen (vote_log_write (LogVote view) s) (\<lambda>_ s.
                      let (s, leader_vote_sig) = sign_with L vote_msg s in
                      andthen
                        (case vote_collector s of
                           None \<Rightarrow> (s, Ok ())
                         | Some c \<Rightarrow> trying (add_verified_vote (my_index s) leader_vote_sig c) s
                             (\<lambda>c'. (s\<lparr> vote_collector := Some c' \<rparr>, Ok ())))
                        (\<lambda>_ s.
                          let s = stamp (\<lambda>t vt. vt\<lparr> proposal_sent := Some t \<rparr>) s in
                          andthen (emit (BroadcastMessage (MProposal p)) s) (\<lambda>_ s. (s, Ok True))))))"

definition on_block_ready ::
  "ext_lib \<Rightarrow> (view_number \<Rightarrow> engine \<Rightarrow> unit engine_result) \<Rightarrow> b256 \<Rightarrow> b256 option \<Rightarrow> engine
   \<Rightarrow> unit engine_result" where
  "on_block_ready L adv block_hash tx_root_hash s =
     andthen (propose_block L block_hash tx_root_hash s) (\<lambda>sent s.
       if sent then try_form_prepare_qc L adv s else (s, Ok ()))"

text \<open>The round-one vote: recorded and made durable before it is signed.\<close>

definition send_vote :: "ext_lib \<Rightarrow> view_number \<Rightarrow> b256 \<Rightarrow> engine \<Rightarrow> unit engine_result" where
  "send_vote L view block_hash s =
     (if \<not> is_local_validator_active_for_view view s then (s, Ok ())
      else if \<not> may_vote_in view (round_state s) then (s, Ok ())
      else
        let s = upd_round (round_record_vote view) s in
        andthen (vote_log_write (LogVote view) s) (\<lambda>_ s.
          trying (leader_index_for_view view s) s (\<lambda>leader.
            let (s, vote_sig) = sign_with L (vote_message (signing_profile s) view block_hash) s;
                v = \<lparr> v_view = view, v_block_hash = block_hash, v_voter = my_index s,
                      v_signature = vote_sig \<rparr>;
                s = stamp (\<lambda>t vt. vt\<lparr> vote_sent := Some t \<rparr>) s
            in emit (SendToValidator leader (MVote v)) s)))"

definition extends_justify :: "b256 \<Rightarrow> engine \<Rightarrow> bool" where
  "extends_justify block_hash s = (case pending_proposal s of
     None \<Rightarrow> True
   | Some pending \<Rightarrow>
       if pp_justify_block pending = 0 then True
       else case imported_parents s block_hash of
         None \<Rightarrow> True
       | Some parent \<Rightarrow>
           if parent = 0 then True else parent = pp_justify_block pending)"

text \<open>The checks of a proposal before anything but the equivocation tracker changes.\<close>

definition check_proposal :: "ext_lib \<Rightarrow> proposal \<Rightarrow> engine \<Rightarrow> bytes consensus_result" where
  "check_proposal L p s =
     (let view = view_of s in
      if p_view p \<noteq> view then Err (ViewMismatch view (p_view p))
      else let view_set = set_for_view view s in
        bind_outcome (leader_for_view view view_set) (\<lambda>expected_leader.
          if p_proposer p \<noteq> expected_leader
          then Err (InvalidProposer view expected_leader (p_proposer p))
          else bind_outcome (get_public_key view_set (p_proposer p)) (\<lambda>pk.
            if is_gov5 (signing_profile s) \<and> carries_changes (p_validator_changes p)
            then Err H2V4ValidatorChangesUnsupported
            else let prop_msg = proposal_message L (signing_profile s) view (p_block_hash p)
                                  (p_validator_changes p) in
              if \<not> verify_single L (signing_profile s) pk prop_msg (p_signature p)
              then Err (InvalidSignature view (p_proposer p))
              else Ok prop_msg)))"

text \<open>The piggybacked PrepareQC raises the lock when it verifies and is ignored otherwise.\<close>

definition absorb_piggybacked_qc :: "ext_lib \<Rightarrow> quorum_certificate option \<Rightarrow> engine \<Rightarrow> engine" where
  "absorb_piggybacked_qc L qco s = (case qco of
     None \<Rightarrow> s
   | Some qc \<Rightarrow>
       (case bind_outcome (resolve_qc_validator_set qc s)
               (\<lambda>set. verify_qc_with_profile L qc set (signing_profile s)) of
          Ok _ \<Rightarrow> upd_round (update_locked_qc qc) s
        | _ \<Rightarrow> s))"

text \<open>The accepted part of a proposal: changes, caches, phase, and the vote itself.\<close>

definition accept_proposal :: "ext_lib \<Rightarrow> proposal \<Rightarrow> engine \<Rightarrow> unit engine_result" where
  "accept_proposal L p s =
     (let view = view_of s in
      andthen
        (if carries_changes (p_validator_changes p)
         then let changes = the (p_validator_changes p) in
           if length changes > MAX_CHANGES_PER_PROPOSAL
           then (s, Err (TooManyValidatorChanges (length changes) MAX_CHANGES_PER_PROPOSAL))
           else (upd_epochs (replace_pending_from_proposal changes) s, Ok (hash_changes L changes))
         else (s, Ok 0))
        (\<lambda>changes_hash s.
          let s = s\<lparr> pending_changes_hashes :=
                      bf_insert (p_block_hash p) changes_hash (pending_changes_hashes s) \<rparr>;
              s = (case p_tx_root_hash p of
                     Some tx_root \<Rightarrow>
                       s\<lparr> pending_tx_roots := bf_insert (p_block_hash p) tx_root (pending_tx_roots s) \<rparr>
                   | None \<Rightarrow> s);
              s = upd_round enter_voting s;
              s = stamp (\<lambda>t vt. vt\<lparr> proposal_received := Some t \<rparr>) s
          in andthen (emit (ExecuteBlock (p_block_hash p)) s) (\<lambda>_ s.
            if is_gov5 (signing_profile s)
            then let s = s\<lparr> pending_proposal := Some
                             \<lparr> pp_view = view, pp_block_hash = p_block_hash p,
                               pp_justify_block = qc_block_hash (p_justify_qc p) \<rparr> \<rparr> in
              if p_block_hash p \<in> imported_blocks s
              then if \<not> extends_justify (p_block_hash p) s then (s, Ok ())
                   else send_vote L view (p_block_hash p) s
              else (s, Ok ())
            else send_vote L view (p_block_hash p) s)))"

text \<open>Certificates of a tracked proposal: verify the justification, apply the voting rule, lock.\<close>

definition process_tracked_proposal :: "ext_lib \<Rightarrow> proposal \<Rightarrow> engine \<Rightarrow> unit engine_result" where
  "process_tracked_proposal L p s =
     trying (if qc_view (p_justify_qc p) > 0 then verify_qc_any_domain_or_known L (p_justify_qc p) s
             else Ok ()) s (\<lambda>_.
       if \<not> is_safe_to_vote (p_justify_qc p) (round_state s)
       then (s, Err (SafetyViolation (qc_view (p_justify_qc p)) (qc_view (locked_qc (round_state s)))))
       else
         let s = note_accepted p s;
             s = upd_round (update_locked_qc (p_justify_qc p)) s;
             s = absorb_piggybacked_qc L (p_prepare_qc p) s
         in accept_proposal L p s)"

definition process_proposal :: "ext_lib \<Rightarrow> proposal \<Rightarrow> engine \<Rightarrow> unit engine_result" where
  "process_proposal L p s =
     (let view = view_of s in
      trying (check_proposal L p s) s (\<lambda>prop_msg.
        let commitment = blake3 L prop_msg in
        case proposal_equivocation_tracker s (p_proposer p) of
          Some (previous_commitment, previous_block_hash) \<Rightarrow>
            if previous_commitment \<noteq> commitment
            then let (hash1, hash2) =
                       (if previous_block_hash \<noteq> p_block_hash p
                        then (previous_block_hash, p_block_hash p)
                        else (previous_commitment, commitment))
                 in andthen (emit (EquivocationDetected view (p_proposer p) hash1 hash2) s)
                      (\<lambda>_ s. (s, Ok ()))
            else process_tracked_proposal L p s
        | None \<Rightarrow> process_tracked_proposal L p
            (s\<lparr> proposal_equivocation_tracker :=
                  (proposal_equivocation_tracker s)(p_proposer p \<mapsto> (commitment, p_block_hash p)) \<rparr>)))"

text \<open>The round-two vote on a verified PrepareQC: lock, make the lock and the view durable, sign.\<close>

definition process_prepare_qc :: "ext_lib \<Rightarrow> prepare_qc \<Rightarrow> engine \<Rightarrow> unit engine_result" where
  "process_prepare_qc L pqc s =
     (let view = view_of s in
      if pqc_view pqc \<noteq> view then (s, Err (ViewMismatch view (pqc_view pqc)))
      else if qc_view (pqc_qc pqc) \<noteq> pqc_view pqc
      then (s, Err (ViewMismatch (pqc_view pqc) (qc_view (pqc_qc pqc))))
      else if qc_block_hash (pqc_qc pqc) \<noteq> pqc_block_hash pqc
      then (s, Err (BlockHashMismatch (pqc_block_hash pqc) (qc_block_hash (pqc_qc pqc))))
      else trying (resolve_qc_validator_set (pqc_qc pqc) s) s (\<lambda>qc_set.
        trying (verify_qc_with_profile L (pqc_qc pqc) qc_set (signing_profile s)) s (\<lambda>_.
          let s = upd_round (update_locked_qc (pqc_qc pqc)) s;
              s = upd_round enter_pre_commit s
          in if \<not> is_local_validator_active_for_view view s then (s, Ok ())
             else if \<not> may_commit_vote_in view (round_state s) then (s, Ok ())
             else andthen (vote_log_write (LogLock (locked_qc (round_state s))) s) (\<lambda>_ s.
               let s = upd_round (round_record_commit_vote view) s in
               andthen (vote_log_write (LogCommitVote view) s) (\<lambda>_ s.
                 let changes_hash = cached_changes_hash (pqc_block_hash pqc) s;
                     commit_msg = commit_message (signing_profile s) view (pqc_block_hash pqc) changes_hash;
                     (s, commit_sig) = sign_with L commit_msg s
                 in trying (leader_index_for_view view s) s (\<lambda>leader.
                   let cv = \<lparr> cv_view = view, cv_block_hash = pqc_block_hash pqc,
                              cv_voter = my_index s, cv_signature = commit_sig \<rparr>;
                       s = stamp (\<lambda>t vt. vt\<lparr> commit_vote_sent := Some t \<rparr>) s
                   in emit (SendToValidator leader (MCommitVote cv)) s))))))"

section \<open>Imported blocks\<close>

text \<open>The eviction loop: a hash the deferred vote waits for is moved to the back.\<close>

fun evict_loop :: "nat \<Rightarrow> engine \<Rightarrow> engine" where
  "evict_loop 0 s = s"
| "evict_loop (Suc n) s = (case imported_block_fifo s of
     [] \<Rightarrow> s
   | oldest # rest \<Rightarrow>
       if Some oldest = map_option pp_block_hash (pending_proposal s)
       then evict_loop n (s\<lparr> imported_block_fifo := rest @ [oldest] \<rparr>)
       else s\<lparr> imported_block_fifo := rest, imported_blocks := imported_blocks s - {oldest},
               imported_parents := (imported_parents s)(oldest := None) \<rparr>)"

definition evict_oldest_imported_block :: "engine \<Rightarrow> engine" where
  "evict_oldest_imported_block s = evict_loop (length (imported_block_fifo s)) s"

definition record_import :: "b256 \<Rightarrow> b256 option \<Rightarrow> engine \<Rightarrow> engine" where
  "record_import block_hash parent_hash s =
     (let s = (if block_hash \<notin> imported_blocks s
               then let s = s\<lparr> imported_blocks := insert block_hash (imported_blocks s) \<rparr>;
                        s = (if length (imported_block_fifo s) \<ge> MAX_IMPORTED_BLOCKS
                             then evict_oldest_imported_block s else s)
                    in s\<lparr> imported_block_fifo := imported_block_fifo s @ [block_hash] \<rparr>
               else s)
      in if block_hash \<in> imported_blocks s
         then (case parent_hash of
                 Some parent \<Rightarrow> s\<lparr> imported_parents := (imported_parents s)(block_hash \<mapsto> parent) \<rparr>
               | None \<Rightarrow> s)
         else s\<lparr> imported_parents := (imported_parents s)(block_hash := None) \<rparr>)"

definition on_block_imported ::
  "ext_lib \<Rightarrow> b256 \<Rightarrow> b256 option \<Rightarrow> engine \<Rightarrow> unit engine_result" where
  "on_block_imported L block_hash parent_hash s =
     (let s = record_import block_hash parent_hash s in
      case pending_proposal s of
        None \<Rightarrow> (s, Ok ())
      | Some pending \<Rightarrow>
          if is_gov5 (signing_profile s) \<and> pp_view pending = view_of s
             \<and> pp_block_hash pending = block_hash \<and> may_vote_in (pp_view pending) (round_state s)
          then if \<not> extends_justify block_hash s then (s, Ok ())
               else send_vote L (pp_view pending) block_hash s
          else (s, Ok ()))"

end
