(* ===== verification/N42_Timeout.thy ===== *)
theory N42_Timeout
  imports N42_Proposal
begin

text \<open>
  The handlers of \<^verbatim>\<open>n42-consensus/src/protocol/timeout.rs\<close> and
  \<^verbatim>\<open>n42-consensus/src/protocol/decision.rs\<close>: timeouts, timeout certificates, NewView messages and
  decisions. As in \<^verbatim>\<open>N42_Voting\<close>, \<open>adv\<close> is \<open>advance_to_view\<close>.
\<close>

section \<open>Decisions (decision.rs)\<close>

definition SYNC_GAP_THRESHOLD :: u64 where "SYNC_GAP_THRESHOLD = 3"

text \<open>The checks of a Decide message; nothing changes before they all pass.\<close>

definition check_decide :: "ext_lib \<Rightarrow> decide \<Rightarrow> engine \<Rightarrow> unit consensus_result" where
  "check_decide L d s =
     bind_outcome (resolve_qc_validator_set (d_commit_qc d) s) (\<lambda>commit_set.
       if signer_count (d_commit_qc d) < quorum_size commit_set
       then Err (InsufficientVotes (d_view d) (signer_count (d_commit_qc d)) (quorum_size commit_set))
       else if qc_view (d_commit_qc d) \<noteq> d_view d
       then Err (ViewMismatch (d_view d) (qc_view (d_commit_qc d)))
       else if qc_block_hash (d_commit_qc d) \<noteq> d_block_hash d
       then Err (BlockHashMismatch (d_block_hash d) (qc_block_hash (d_commit_qc d)))
       else verify_commit_qc_with_profile L (d_commit_qc d) commit_set
              (d_validator_changes_hash d) (signing_profile s))"

text \<open>Only changes whose hash the CommitQC signed are staged.\<close>

definition stage_decided_changes ::
  "ext_lib \<Rightarrow> decide \<Rightarrow> engine \<Rightarrow> validator_change list option engine_result" where
  "stage_decided_changes L d s =
     (if d_validator_changes_hash d \<noteq> 0
      then if pending_changes_hash L (epoch_manager s) = d_validator_changes_hash d
           then let changes = pending_changes_for_proposal (epoch_manager s) in
             andthen (on_epochs (commit_pending_changes L) s) (\<lambda>_ s. (s, Ok changes))
           else andthen (emit (SyncRequired (saturating_sub (d_view d) 1) (d_view d)) s)
             (\<lambda>_ s. (s, Ok None))
      else (s, Ok None))"

definition process_decide ::
  "ext_lib \<Rightarrow> (view_number \<Rightarrow> engine \<Rightarrow> unit engine_result) \<Rightarrow> decide \<Rightarrow> engine \<Rightarrow> unit engine_result" where
  "process_decide L adv d s =
     (let current = view_of s in
      if d_view d < current then (s, Ok ())
      else trying (check_decide L d s) s (\<lambda>_.
        let s = s\<lparr> pending_changes_hashes :=
                    bf_insert (d_block_hash d) (d_validator_changes_hash d) (pending_changes_hashes s) \<rparr>
        in andthen
            (if d_view d > current + SYNC_GAP_THRESHOLD
             then emit (SyncRequired current (d_view d)) s else (s, Ok ()))
            (\<lambda>_ s.
              let s = stamp (\<lambda>t vt. vt\<lparr> commit_qc_formed := Some t \<rparr>) s;
                  s = upd_round (update_locked_qc (d_commit_qc d)) s;
                  s = upd_round (round_commit (d_commit_qc d)) s
              in andthen (stage_decided_changes L d s) (\<lambda>committed_changes s.
                let s = s\<lparr> pending_tx_roots := fst (bf_remove (d_block_hash d) (pending_tx_roots s)) \<rparr> in
                andthen (emit (BlockCommitted (d_view d) (d_block_hash d) (d_commit_qc d) committed_changes) s)
                  (\<lambda>_ s. andthen (adv (saturating_add (d_view d) 1) s) (\<lambda>_ s.
                    emit (ViewChanged (view_of s)) s))))))"

section \<open>Timeouts (timeout.rs)\<close>

definition verify_embedded_qc :: "ext_lib \<Rightarrow> quorum_certificate \<Rightarrow> engine \<Rightarrow> unit consensus_result" where
  "verify_embedded_qc L qc s =
     (if qc_view qc = 0
      then if qc_view (locked_qc (round_state s)) = 0 then Ok () else Err (InvalidQC 0 GenesisRejected)
      else verify_qc_any_domain_or_known L qc s)"

definition advance_with_tc ::
  "ext_lib \<Rightarrow> (view_number \<Rightarrow> engine \<Rightarrow> unit engine_result) \<Rightarrow> timeout_certificate \<Rightarrow> view_number
   \<Rightarrow> engine \<Rightarrow> unit engine_result" where
  "advance_with_tc L adv tc next_view s =
     (let s = upd_round (update_locked_qc (tc_high_qc tc)) s in
      trying (is_leader_for_view next_view s) s (\<lambda>leads.
        andthen
          (if leads
           then let (s, nv_sig) = sign_with L (new_view_msg_bytes (signing_profile s) next_view) s in
             (case local_validator_index_for_view next_view s of
                None \<Rightarrow> (s, Err (LocalValidatorNotInSet (current_epoch (epoch_manager s) + 1)))
              | Some leader \<Rightarrow>
                  emit (BroadcastMessage (MNewView
                    \<lparr> nv_view = next_view, nv_timeout_cert = tc, nv_leader = leader,
                      nv_signature = nv_sig \<rparr>)) s)
           else (s, Ok ()))
          (\<lambda>_ s. andthen (adv next_view s) (\<lambda>_ s. emit (ViewChanged (view_of s)) s))))"

definition try_form_tc_and_advance ::
  "ext_lib \<Rightarrow> (view_number \<Rightarrow> engine \<Rightarrow> unit engine_result) \<Rightarrow> view_number \<Rightarrow> view_number \<Rightarrow> engine
   \<Rightarrow> unit engine_result" where
  "try_form_tc_and_advance L adv current next_view s = (case timeout_collector s of
     None \<Rightarrow> (s, Ok ())
   | Some c \<Rightarrow> trying (build_tc_with_profile L (set_for_view current s) (signing_profile s) c) s
       (\<lambda>tc. advance_with_tc L adv tc next_view s))"

text \<open>Whether a timeout is signed by its sender and carries an acceptable certificate.\<close>

definition check_timeout ::
  "ext_lib \<Rightarrow> validator_set \<Rightarrow> timeout_message \<Rightarrow> engine \<Rightarrow> unit consensus_result" where
  "check_timeout L view_set t s =
     bind_outcome (get_public_key view_set (t_sender t)) (\<lambda>pk.
       if \<not> verify_single L (signing_profile s) pk
             (timeout_msg_bytes (signing_profile s) (t_view t)) (t_signature t)
       then Err (InvalidSignature (t_view t) (t_sender t))
       else verify_embedded_qc L (t_high_qc t) s)"

definition process_timeout ::
  "ext_lib \<Rightarrow> (view_number \<Rightarrow> engine \<Rightarrow> unit engine_result) \<Rightarrow> timeout_message \<Rightarrow> engine
   \<Rightarrow> unit engine_result" where
  "process_timeout L adv t s =
     (let view = view_of s in
      if t_view t < view then (s, Ok ())
      else if t_view t > view then (s, Ok ())
      else let view_set = set_for_view view s in
        trying (check_timeout L view_set t s) s (\<lambda>_.
          let next_view = saturating_add view 1 in
          trying (leader_for_view next_view view_set) s (\<lambda>next_leader.
            let relay = t_sender t \<noteq> my_index s \<and> next_leader \<noteq> my_index s
                          \<and> \<not> is_gov5 (signing_profile s);
                c0 = (case timeout_collector s of Some c \<Rightarrow> c
                      | None \<Rightarrow> tcol_new view (vset_len view_set));
                s = s\<lparr> timeout_collector := Some c0 \<rparr>
            in case add_verified_timeout (t_sender t) (t_signature t) (t_high_qc t) c0 of
                 Err (DuplicateVote _ _) \<Rightarrow> (s, Ok ())
               | Err e \<Rightarrow> (s, Err e)
               | Panic \<Rightarrow> (s, Panic)
               | Ok c \<Rightarrow>
                   let s = s\<lparr> timeout_collector := Some c \<rparr>;
                       has_quorum = tcol_has_quorum (quorum_size view_set) c
                   in andthen
                       (if relay then emit (SendToValidator next_leader (MTimeout t)) s else (s, Ok ()))
                       (\<lambda>_ s. if has_quorum then try_form_tc_and_advance L adv view next_view s
                               else (s, Ok ())))))"

definition process_new_view ::
  "ext_lib \<Rightarrow> (view_number \<Rightarrow> engine \<Rightarrow> unit engine_result) \<Rightarrow> new_view \<Rightarrow> engine \<Rightarrow> unit engine_result" where
  "process_new_view L adv nv s =
     (if nv_view nv \<le> view_of s then (s, Ok ())
      else let new_view_set = set_for_view (nv_view nv) s in
        trying (leader_for_view (nv_view nv) new_view_set) s (\<lambda>expected_leader.
          if nv_leader nv \<noteq> expected_leader
          then (s, Err (InvalidProposer (nv_view nv) expected_leader (nv_leader nv)))
          else trying (get_public_key new_view_set (nv_leader nv)) s (\<lambda>pk.
            if \<not> verify_single L (signing_profile s) pk
                  (new_view_msg_bytes (signing_profile s) (nv_view nv)) (nv_signature nv)
            then (s, Err (InvalidSignature (nv_view nv) (nv_leader nv)))
            else let tc = nv_timeout_cert nv in
              if tc_view tc \<noteq> saturating_sub (nv_view nv) 1
              then (s, Err (InvalidTC (tc_view tc)
                     (TcViewNotPrevious (tc_view tc) (saturating_sub (nv_view nv) 1))))
              else trying (verify_tc_with_profile L tc (set_for_view (tc_view tc) s) (signing_profile s)) s
                (\<lambda>_. trying (verify_embedded_qc L (tc_high_qc tc) s) s (\<lambda>_.
                  let s = upd_round (update_locked_qc (tc_high_qc tc)) s in
                  andthen (adv (nv_view nv) s) (\<lambda>_ s. emit (ViewChanged (view_of s)) s))))))"

text \<open>\<open>imported_blocks\<close> and its queue are dropped outside the gov5 profiles.\<close>

definition forget_imports :: "engine \<Rightarrow> engine" where
  "forget_imports s =
     (if \<not> is_gov5 (signing_profile s)
      then s\<lparr> imported_blocks := {}, imported_block_fifo := [] \<rparr> else s)"

text \<open>Signing this node's timeout for the current view, with its lock as the certificate.\<close>

definition sign_timeout :: "ext_lib \<Rightarrow> engine \<Rightarrow> engine \<times> timeout_message" where
  "sign_timeout L s =
     (let view = view_of s; (s, sig) = sign_with L (timeout_msg_bytes (signing_profile s) view) s
      in (s, \<lparr> t_view = view, t_high_qc = locked_qc (round_state s), t_sender = my_index s,
               t_signature = sig \<rparr>))"

definition on_timeout ::
  "ext_lib \<Rightarrow> (view_number \<Rightarrow> engine \<Rightarrow> unit engine_result) \<Rightarrow> engine \<Rightarrow> unit engine_result" where
  "on_timeout L adv s =
     (let view = view_of s in
      if \<not> is_local_validator_active_for_view view s
      then (reset_pacemaker (upd_round round_timeout s), Ok ())
      else if phase (round_state s) = TimedOut
      then
        let s = reset_pacemaker s;
            (s, t) = sign_timeout L s
        in andthen (emit (BroadcastMessage (MTimeout t)) s) (\<lambda>_ s.
             let q = quorum_size (set_for_view view s); next_view = saturating_add view 1 in
             case timeout_collector s of
               Some c \<Rightarrow> if tcol_has_quorum q c then try_form_tc_and_advance L adv view next_view s
                          else (s, Ok ())
             | None \<Rightarrow> (s, Ok ()))
      else
        let s = upd_round round_timeout s;
            s = reset_pacemaker s;
            s = s\<lparr> pending_proposal := None \<rparr>;
            s = forget_imports s;
            n_validators = vset_len (set_for_view view s);
            s = (case timeout_collector s of Some c \<Rightarrow> s
                 | None \<Rightarrow> s\<lparr> timeout_collector := Some (tcol_new view n_validators) \<rparr>);
            (s, t) = sign_timeout L s
        in andthen (emit (BroadcastMessage (MTimeout t)) s) (\<lambda>_ s. process_timeout L adv t s))"

text \<open>
  Timeouts of a later view: a quorum of them forms a certificate; more than the tolerated number
  of faults makes this node join that view.
\<close>

definition collect_future_timeout ::
  "ext_lib \<Rightarrow> (view_number \<Rightarrow> engine \<Rightarrow> unit engine_result) \<Rightarrow> timeout_message \<Rightarrow> engine
   \<Rightarrow> bool engine_result" where
  "collect_future_timeout L adv t s =
     (let current = view_of s in
      if t_view t \<le> current \<or> t_view t > saturating_add current FUTURE_VIEW_WINDOW then (s, Ok False)
      else case known_validator_set_for_view (t_view t) (epoch_manager s) of
        None \<Rightarrow> (s, Ok False)
      | Some view_set \<Rightarrow>
          let next_view = saturating_add (t_view t) 1 in
          (case known_validator_set_for_view next_view (epoch_manager s) of
             None \<Rightarrow> (s, Ok False)
           | Some next_view_set \<Rightarrow>
               trying (check_timeout L view_set t s) s (\<lambda>_.
               trying (leader_for_view next_view next_view_set) s (\<lambda>next_leader.
                 let local_timeout_index = index_of_public_key view_set (local_public_key s);
                     local_next_index = index_of_public_key next_view_set (local_public_key s)
                 in andthen
                   (if local_timeout_index \<noteq> Some (t_sender t) \<and> local_next_index \<noteq> Some next_leader
                    then emit (SendToValidator next_leader (MTimeout t)) s else (s, Ok ()))
                   (\<lambda>_ s.
                     let c0 = (case map_of (future_timeout_collectors s) (t_view t) of
                                 Some c \<Rightarrow> c | None \<Rightarrow> tcol_new (t_view t) (vset_len view_set));
                         s = s\<lparr> future_timeout_collectors :=
                                  AList.update (t_view t) c0 (future_timeout_collectors s) \<rparr>
                     in case add_verified_timeout (t_sender t) (t_signature t) (t_high_qc t) c0 of
                          Err (DuplicateVote _ _) \<Rightarrow> (s, Ok False)
                        | Err e \<Rightarrow> (s, Err e)
                        | Panic \<Rightarrow> (s, Panic)
                        | Ok c \<Rightarrow>
                            let s = s\<lparr> future_timeout_collectors :=
                                         AList.update (t_view t) c (future_timeout_collectors s) \<rparr> in
                            if \<not> tcol_has_quorum (quorum_size view_set) c
                            then if \<not> tcol_has_quorum (unat (fault_tolerance view_set) + 1) c
                                    \<or> local_timeout_index = None
                              then (s, Ok False)
                              else andthen (adv (t_view t) s) (\<lambda>_ s.
                                if view_of s \<noteq> t_view t then (s, Ok True)
                                else andthen (process_timeout L adv t s) (\<lambda>_ s.
                                  andthen (if view_of s = t_view t then on_timeout L adv s else (s, Ok ()))
                                    (\<lambda>_ s. (s, Ok True))))
                            else trying (build_tc_with_profile L view_set (signing_profile s) c) s (\<lambda>tc.
                              let s = s\<lparr> future_timeout_collectors :=
                                          AList.delete (t_view t) (future_timeout_collectors s) \<rparr> in
                              andthen (advance_with_tc L adv tc next_view s) (\<lambda>_ s. (s, Ok True))))))))"

end
