(* ===== verification/N42_Engine.thy ===== *)
theory N42_Engine
  imports N42_Timeout
begin

text \<open>
  The dispatcher of \<^verbatim>\<open>n42-consensus/src/protocol/state_machine.rs\<close>: moving to a view with the
  replay of buffered messages, the buffering of future messages, the jump on a verified
  certificate, batch authentication, and the events the node feeds in.
\<close>

section \<open>Dispatch\<close>

definition dispatch_message ::
  "ext_lib \<Rightarrow> (view_number \<Rightarrow> engine \<Rightarrow> unit engine_result) \<Rightarrow> consensus_message
   \<Rightarrow> vote_proof option \<Rightarrow> engine \<Rightarrow> unit engine_result" where
  "dispatch_message L adv msg proof_opt s = (case msg of
     MProposal p \<Rightarrow> process_proposal L p s
   | MVote v \<Rightarrow>
       if proof_opt = Some (ProofVote (v_voter v)) then process_verified_vote L adv v s
       else process_vote L adv v s
   | MCommitVote cv \<Rightarrow>
       if proof_opt = Some (ProofCommitVote (cv_voter cv) (cached_changes_hash (cv_block_hash cv) s))
       then process_verified_commit_vote L adv cv s
       else process_commit_vote L adv cv s
   | MPrepareQC pqc \<Rightarrow> process_prepare_qc L pqc s
   | MTimeout t \<Rightarrow> process_timeout L adv t s
   | MNewView nv \<Rightarrow> process_new_view L adv nv s
   | MDecide d \<Rightarrow> process_decide L adv d s)"

section \<open>Moving to a view\<close>

text \<open>One crossed epoch boundary: activate the staged set or carry the current one.\<close>

definition cross_boundary :: "engine \<Rightarrow> engine" where
  "cross_boundary s =
     (let em = epoch_manager s;
          local_in_next = index_of_public_key
            (case peek_next_set em of Some vs \<Rightarrow> vs | None \<Rightarrow> current_set em) (local_public_key s);
          em = (if has_staged_next em then fst (advance_epoch em) else fst (carry_epoch_forward em));
          s = s\<lparr> epoch_manager := em \<rparr>
      in case local_in_next of
           Some new_index \<Rightarrow> if new_index \<noteq> my_index s then s\<lparr> my_index := new_index \<rparr> else s
         | None \<Rightarrow> s)"

lemma emit_attempts_epochs: "epoch_manager (fst (emit_attempts n out s)) = epoch_manager s"
  by (induction n out s rule: emit_attempts.induct) (auto split: list.split send_result.split)

lemma emit_epochs: "emit out s = (t, r) \<Longrightarrow> epoch_manager t = epoch_manager s"
  using emit_attempts_epochs [of "Suc MAX_OUTPUT_SEND_RETRIES" out s] by (simp add: emit_def)

lemma cross_boundary_epoch:
  "epochs_enabled (epoch_manager s) \<Longrightarrow>
     current_epoch (epoch_manager (cross_boundary s)) = current_epoch (epoch_manager s) + 1"
  by (auto simp: cross_boundary_def Let_def advance_epoch_eq carry_epoch_forward_eq has_staged_next_def
      epochs_enabled_def peek_next_set_def split: option.splits)

text \<open>The loop over the crossed boundaries ends: every round raises the epoch by one.\<close>

function cross_epochs :: "u64 \<Rightarrow> engine \<Rightarrow> unit engine_result" where
  "cross_epochs target_epoch s =
     (if epochs_enabled (epoch_manager s) \<and> current_epoch (epoch_manager s) < target_epoch
      then let s' = cross_boundary s in
        andthen (emit (EpochTransition (current_epoch (epoch_manager s'))
                   (vset_len (current_set (epoch_manager s')))) s')
          (\<lambda>_ t. cross_epochs target_epoch t)
      else (s, Ok ()))"
  by auto

termination
proof (relation "measure (\<lambda>(target, s). unat target - unat (current_epoch (epoch_manager s)))")
  fix target_epoch :: u64 and s s' t :: engine and a :: unit
  assume c: "epochs_enabled (epoch_manager s) \<and> current_epoch (epoch_manager s) < target_epoch"
    and s': "s' = cross_boundary s"
    and e: "emit (EpochTransition (current_epoch (epoch_manager s'))
      (vset_len (current_set (epoch_manager s')))) s' = (t, Ok a)"
  let ?c = "current_epoch (epoch_manager s)"
  have "current_epoch (epoch_manager t) = ?c + 1"
    using emit_epochs [OF e] cross_boundary_epoch c by (simp add: s')
  moreover have "?c \<noteq> - 1"
    using c word_order.extremum_strict [of target_epoch] by auto
  ultimately show "((target_epoch, t), (target_epoch, s))
      \<in> measure (\<lambda>(target, s). unat target - unat (current_epoch (epoch_manager s)))"
    using c by (auto simp: unat_Suc_word word_less_nat_alt intro: diff_less_mono2)
qed simp

declare cross_epochs.simps [simp del]

text \<open>What \<open>advance_to_view\<close> does after the epoch loop and before the replay.\<close>

definition enter_view :: "view_number \<Rightarrow> engine \<Rightarrow> engine" where
  "enter_view new_view s =
     (let s = upd_round (round_advance_view new_view) s;
          s = reset_pacemaker s;
          s = s\<lparr> vote_collector := None, commit_collector := None, timeout_collector := None,
                 future_timeout_collectors :=
                   filter (\<lambda>(v, _). v > new_view \<and> v \<le> saturating_add new_view FUTURE_VIEW_WINDOW)
                     (future_timeout_collectors s),
                 prepare_qc := None, pending_proposal := None \<rparr>;
          s = forget_imports s;
          s = s\<lparr> equivocation_tracker := Map.empty, commit_equivocation_tracker := Map.empty,
                 proposal_equivocation_tracker := Map.empty \<rparr>;
          s = fst (sync_local_validator_index s);
          s = (if commit_qc_formed (view_timing s) \<noteq> None
               then s\<lparr> last_committed_timing := Some (view_timing s) \<rparr> else s);
          s = tick s
      in s\<lparr> view_timing := view_timing_new (now s) \<rparr>)"

text \<open>The drained buffer: what is replayed now and what stays buffered.\<close>

definition to_replay :: "view_number \<Rightarrow> (view_number \<times> consensus_message) list \<Rightarrow> consensus_message list" where
  "to_replay new_view buf = map snd (filter (\<lambda>(v, _). v = new_view) buf)"

definition still_buffered ::
  "view_number \<Rightarrow> (view_number \<times> consensus_message) list \<Rightarrow> (view_number \<times> consensus_message) list" where
  "still_buffered new_view buf =
     filter (\<lambda>(v, _). v > new_view \<and> v \<le> new_view + FUTURE_VIEW_WINDOW) buf"

text \<open>The replay loop: an error of one message is logged and the loop goes on.\<close>

fun replay ::
  "(consensus_message \<Rightarrow> engine \<Rightarrow> unit engine_result) \<Rightarrow> consensus_message list \<Rightarrow> engine
   \<Rightarrow> unit engine_result" where
  "replay dispatch [] s = (s, Ok ())"
| "replay dispatch (m # ms) s = (case dispatch m s of
     (t, Panic) \<Rightarrow> (t, Panic)
   | (t, _) \<Rightarrow> replay dispatch ms t)"

definition advance_body ::
  "(consensus_message \<Rightarrow> engine \<Rightarrow> unit engine_result) \<Rightarrow> view_number \<Rightarrow> engine \<Rightarrow> unit engine_result" where
  "advance_body dispatch new_view s =
     (if new_view \<le> view_of s then (s, Ok ())
      else
        let s = s\<lparr> previous_prepare_qc := prepare_qc s, prepare_qc := None \<rparr>;
            target_epoch = epoch_for_view new_view (epoch_manager s)
        in andthen (cross_epochs target_epoch s) (\<lambda>_ s.
          let s = enter_view new_view s;
              drained = future_msg_buffer s;
              s = s\<lparr> future_msg_buffer := still_buffered new_view drained \<rparr>
          in replay dispatch (to_replay new_view drained) s))"

text \<open>
  Nesting of \<open>advance_to_view\<close> through the replay is bounded: a nested call needs a replayed
  message, which has left the buffer. One level more than the buffer is long is enough
  (\<open>advance_to_view_unfold\<close> below), so the base case is never reached.
\<close>

fun advance_fuel :: "ext_lib \<Rightarrow> nat \<Rightarrow> view_number \<Rightarrow> engine \<Rightarrow> unit engine_result" where
  "advance_fuel L 0 new_view s = (s, Panic)"
| "advance_fuel L (Suc n) new_view s =
     advance_body (\<lambda>m t. dispatch_message L (advance_fuel L n) m None t) new_view s"

definition advance_to_view :: "ext_lib \<Rightarrow> view_number \<Rightarrow> engine \<Rightarrow> unit engine_result" where
  "advance_to_view L new_view s = advance_fuel L (Suc (length (future_msg_buffer s))) new_view s"

section \<open>Incoming messages\<close>

fun extract_qc_from_message :: "consensus_message \<Rightarrow> quorum_certificate option" where
  "extract_qc_from_message (MProposal p) = Some (p_justify_qc p)"
| "extract_qc_from_message (MTimeout t) = Some (t_high_qc t)"
| "extract_qc_from_message (MDecide d) = Some (d_commit_qc d)"
| "extract_qc_from_message (MPrepareQC pqc) = Some (pqc_qc pqc)"
| "extract_qc_from_message (MNewView nv) = Some (tc_high_qc (nv_timeout_cert nv))"
| "extract_qc_from_message (MVote v) = None"
| "extract_qc_from_message (MCommitVote cv) = None"

definition verify_jump_qc ::
  "ext_lib \<Rightarrow> consensus_message \<Rightarrow> quorum_certificate \<Rightarrow> engine \<Rightarrow> unit consensus_result option" where
  "verify_jump_qc L msg qc s = (case msg of
     MDecide d \<Rightarrow> Some (verify_commit_qc_with_profile L qc (set_for_view (qc_view qc) s)
       (d_validator_changes_hash d) (signing_profile s))
   | MPrepareQC _ \<Rightarrow> Some (verify_qc_with_profile L qc (set_for_view (qc_view qc) s) (signing_profile s))
   | MProposal _ \<Rightarrow> Some (verify_qc_any_domain_or_known L qc s)
   | MTimeout _ \<Rightarrow> Some (verify_qc_any_domain_or_known L qc s)
   | MNewView _ \<Rightarrow> Some (verify_qc_any_domain_or_known L qc s)
   | MVote _ \<Rightarrow> None
   | MCommitVote _ \<Rightarrow> None)"

definition try_qc_view_jump :: "ext_lib \<Rightarrow> consensus_message \<Rightarrow> engine \<Rightarrow> bool engine_result" where
  "try_qc_view_jump L msg s =
     (let current = view_of s in
      case extract_qc_from_message msg of
        None \<Rightarrow> (s, Ok False)
      | Some qc \<Rightarrow>
          if \<not> qc_view qc > 0 then (s, Ok False)
          else case verify_jump_qc L msg qc s of
            None \<Rightarrow> (s, Ok False)
          | Some r \<Rightarrow>
              if \<not> is_ok r then (s, Ok False)
              else let target_view = saturating_add (qc_view qc) 1 in
                if target_view \<le> current then (s, Ok False)
                else
                  let s = upd_round (update_locked_qc qc) s;
                      s = upd_round reset_consecutive_timeouts s
                  in andthen (emit (SyncRequired current target_view) s) (\<lambda>_ s.
                    andthen (advance_to_view L target_view s) (\<lambda>_ s.
                      andthen (emit (ViewChanged (view_of s)) s) (\<lambda>_ s. (s, Ok True)))))"

text \<open>
  A full buffer drops the first entry of the lowest view: \<open>min_by_key\<close> picks it and
  \<open>swap_remove\<close> puts the last entry in its place.
\<close>

fun min_index :: "nat \<Rightarrow> nat \<Rightarrow> view_number \<Rightarrow> (view_number \<times> 'm) list \<Rightarrow> nat" where
  "min_index best i v [] = best"
| "min_index best i v ((w, m) # xs) =
     (if w < v then min_index i (Suc i) w xs else min_index best (Suc i) v xs)"

definition swap_remove :: "nat \<Rightarrow> 'a list \<Rightarrow> 'a list" where
  "swap_remove i xs = (if i = length xs - 1 then butlast xs else (butlast xs)[i := last xs])"

definition evict_lowest :: "(view_number \<times> 'm) list \<Rightarrow> (view_number \<times> 'm) list" where
  "evict_lowest buf = (case buf of
     [] \<Rightarrow> []
   | (v, m) # rest \<Rightarrow> swap_remove (min_index 0 1 v rest) buf)"

definition buffer_push :: "view_number \<Rightarrow> consensus_message \<Rightarrow> engine \<Rightarrow> engine" where
  "buffer_push view msg s = s\<lparr> future_msg_buffer := future_msg_buffer s @ [(view, msg)] \<rparr>"

definition buffer_message :: "view_number \<Rightarrow> consensus_message \<Rightarrow> engine \<Rightarrow> engine" where
  "buffer_message view msg s =
     (let s = (if length (future_msg_buffer s) \<ge> MAX_FUTURE_MESSAGES
               then s\<lparr> future_msg_buffer := evict_lowest (future_msg_buffer s) \<rparr> else s)
      in buffer_push view msg s)"

definition is_exempt :: "consensus_message \<Rightarrow> bool" where
  "is_exempt msg = (case msg of MDecide _ \<Rightarrow> True | MNewView _ \<Rightarrow> True | _ \<Rightarrow> False)"

text \<open>After a jump the message is dispatched, buffered or dropped, as its view says.\<close>

definition after_jump ::
  "ext_lib \<Rightarrow> consensus_message \<Rightarrow> vote_proof option \<Rightarrow> engine \<Rightarrow> unit engine_result" where
  "after_jump L msg proof_opt s =
     (let view = message_view_of msg; new_current = view_of s in
      if view = new_current then dispatch_message L (advance_to_view L) msg proof_opt s
      else if view > new_current \<and> view \<le> new_current + FUTURE_VIEW_WINDOW
              \<and> length (future_msg_buffer s) < MAX_FUTURE_MESSAGES
      then (buffer_push view msg s, Ok ())
      else (s, Ok ()))"

definition process_message_inner ::
  "ext_lib \<Rightarrow> consensus_message \<Rightarrow> vote_proof option \<Rightarrow> engine \<Rightarrow> unit engine_result" where
  "process_message_inner L msg proof_opt s =
     (let view = message_view_of msg; current = view_of s in
      if view > current \<and> \<not> is_exempt msg
      then if view \<le> current + FUTURE_VIEW_WINDOW
        then andthen (case msg of MTimeout t \<Rightarrow> collect_future_timeout L (advance_to_view L) t s
                      | _ \<Rightarrow> (s, Ok False)) (\<lambda>collected s.
          if collected then (s, Ok ())
          else andthen (try_qc_view_jump L msg s) (\<lambda>jumped s.
            if jumped then after_jump L msg proof_opt s
            else (buffer_message view msg s, Ok ())))
        else andthen (try_qc_view_jump L msg s) (\<lambda>jumped s.
          if jumped then after_jump L msg proof_opt s else (s, Ok ()))
      else if view < current \<and> \<not> is_exempt msg
      then (case msg of
              MProposal p \<Rightarrow> andthen (recover_late_committed_proposal L p s) (\<lambda>_ s. (s, Ok ()))
            | _ \<Rightarrow> (s, Ok ()))
      else dispatch_message L (advance_to_view L) msg proof_opt s)"

definition process_message :: "ext_lib \<Rightarrow> consensus_message \<Rightarrow> engine \<Rightarrow> unit engine_result" where
  "process_message L msg s = process_message_inner L msg None s"

section \<open>Events\<close>

fun process_event :: "ext_lib \<Rightarrow> consensus_event \<Rightarrow> engine \<Rightarrow> unit engine_result" where
  "process_event L (EvMessage msg) s = process_message L msg s"
| "process_event L (BlockReady block_hash tx_root_hash) s =
     on_block_ready L (advance_to_view L) block_hash tx_root_hash s"
| "process_event L (BlockImported block_hash) s = on_block_imported L block_hash None s"
| "process_event L (BlockImportedWithParent block_hash parent_hash) s =
     on_block_imported L block_hash (Some parent_hash) s"

definition process_authenticated_message ::
  "ext_lib \<Rightarrow> consensus_message \<times> vote_proof \<Rightarrow> engine \<Rightarrow> unit engine_result" where
  "process_authenticated_message L auth s = process_message_inner L (fst auth) (Some (snd auth)) s"

section \<open>Authentication of senders\<close>

definition verified_signer ::
  "ext_lib \<Rightarrow> view_number \<Rightarrow> u32 \<Rightarrow> bytes \<Rightarrow> signature \<Rightarrow> engine \<Rightarrow> u32 option" where
  "verified_signer L view signer sig_msg sig s =
     (case get_public_key (set_for_view view s) signer of
        Ok pk \<Rightarrow> if verify_single L (signing_profile s) pk sig_msg sig then Some signer else None
      | _ \<Rightarrow> None)"

fun authenticated_signer :: "ext_lib \<Rightarrow> consensus_message \<Rightarrow> engine \<Rightarrow> u32 option" where
  "authenticated_signer L (MProposal p) s =
     verified_signer L (p_view p) (p_proposer p)
       (proposal_message L (signing_profile s) (p_view p) (p_block_hash p) (p_validator_changes p))
       (p_signature p) s"
| "authenticated_signer L (MVote v) s =
     verified_signer L (v_view v) (v_voter v)
       (vote_message (signing_profile s) (v_view v) (v_block_hash v)) (v_signature v) s"
| "authenticated_signer L (MCommitVote cv) s =
     verified_signer L (cv_view cv) (cv_voter cv)
       (commit_message (signing_profile s) (cv_view cv) (cv_block_hash cv)
          (cached_changes_hash (cv_block_hash cv) s)) (cv_signature cv) s"
| "authenticated_signer L (MTimeout t) s =
     verified_signer L (t_view t) (t_sender t) (timeout_msg_bytes (signing_profile s) (t_view t))
       (t_signature t) s"
| "authenticated_signer L (MNewView nv) s =
     verified_signer L (nv_view nv) (nv_leader nv) (new_view_msg_bytes (signing_profile s) (nv_view nv))
       (nv_signature nv) s"
| "authenticated_signer L (MPrepareQC pqc) s = None"
| "authenticated_signer L (MDecide d) s = None"

text \<open>A vote whose signer is known is a candidate of the batch.\<close>

fun batch_candidate ::
  "consensus_message \<Rightarrow> engine \<Rightarrow> (vote_proof \<times> bytes \<times> signature \<times> public_key) option" where
  "batch_candidate (MVote v) s = (case get_public_key (set_for_view (v_view v) s) (v_voter v) of
     Ok pk \<Rightarrow> Some (ProofVote (v_voter v),
                  vote_message (signing_profile s) (v_view v) (v_block_hash v), v_signature v, pk)
   | _ \<Rightarrow> None)"
| "batch_candidate (MCommitVote cv) s =
     (case get_public_key (set_for_view (cv_view cv) s) (cv_voter cv) of
        Ok pk \<Rightarrow>
          let changes_hash = cached_changes_hash (cv_block_hash cv) s in
          Some (ProofCommitVote (cv_voter cv) changes_hash,
                commit_message (signing_profile s) (cv_view cv) (cv_block_hash cv) changes_hash,
                cv_signature cv, pk)
      | _ \<Rightarrow> None)"
| "batch_candidate _ s = None"

fun collect_candidates ::
  "nat \<Rightarrow> consensus_message list \<Rightarrow> engine
   \<Rightarrow> (nat \<times> vote_proof \<times> bytes \<times> signature \<times> public_key) list" where
  "collect_candidates position [] s = []"
| "collect_candidates position (m # ms) s = (case batch_candidate m s of
     Some c \<Rightarrow> (position, c) # collect_candidates (Suc position) ms s
   | None \<Rightarrow> collect_candidates (Suc position) ms s)"

definition authenticate_vote_batch ::
  "ext_lib \<Rightarrow> consensus_message list \<Rightarrow> engine \<Rightarrow> (consensus_message \<times> vote_proof) option list" where
  "authenticate_vote_batch L messages s =
     (let candidates = collect_candidates 0 messages s;
          bad = set (rejected (profile_batch_verify L (signing_profile s)
                  (map (\<lambda>(_, _, m, _, _). m) candidates)
                  (map (\<lambda>(_, _, _, sig, _). sig) candidates)
                  (map (\<lambda>(_, _, _, _, pk). pk) candidates)));
          verified_proofs =
            fold (\<lambda>(candidate_position, message_position, pf, _) proofs.
                if candidate_position \<notin> bad then proofs[message_position := Some pf] else proofs)
              (zip [0..<length candidates] candidates) (replicate (length messages) None)
      in map (\<lambda>(m, po). map_option (\<lambda>pf. (m, pf)) po) (zip messages verified_proofs))"

section \<open>What a batch authenticates\<close>

lemma batch_candidate_signer:
  assumes "batch_candidate m s = Some (pf, message, sig, pk)" and "verify_single L (signing_profile s) pk message sig"
  shows "authenticated_signer L m s = Some (proof_signer pf) \<and>
    (\<forall>signer ch. pf = ProofCommitVote signer ch \<longrightarrow> (\<exists>cv. m = MCommitVote cv \<and> ch = cached_changes_hash (cv_block_hash cv) s))"
  using assms by (cases m) (auto simp: verified_signer_def Let_def split: outcome.splits)

lemma collect_candidates_position:
  "(pos, c) \<in> set (collect_candidates k ms s) \<Longrightarrow>
     k \<le> pos \<and> pos - k < length ms \<and> batch_candidate (ms ! (pos - k)) s = Some c"
proof (induction k ms s rule: collect_candidates.induct)
  case (2 k m ms s)
  then show ?case
    by (cases "pos = k") (auto simp: nth_Cons' Suc_diff_Suc split: option.splits)
qed simp

lemma fold_proofs:
  assumes "fold (\<lambda>(cp, mp, pf, _) proofs. if cp \<notin> bad then proofs[mp := Some pf] else proofs) cs proofs ! j = Some pf"
    and "j < length proofs"
  shows "proofs ! j = Some pf \<or> (\<exists>cp x. (cp, j, pf, x) \<in> set cs \<and> cp \<notin> bad)"
  using assms
proof (induction cs arbitrary: proofs)
  case (Cons c cs)
  obtain cp mp q x where c: "c = (cp, mp, q, x)" by (metis prod.exhaust)
  let ?p = "if cp \<notin> bad then proofs[mp := Some q] else proofs"
  have "?p ! j = Some pf \<or> (\<exists>cp x. (cp, j, pf, x) \<in> set cs \<and> cp \<notin> bad)"
    using Cons.IH [of ?p] Cons.prems by (simp add: c)
  then show ?case
    using Cons.prems(2) by (cases "mp = j") (auto simp: c split: if_splits)
qed simp

text \<open>
  C20. A vote that batch authentication lets through is authentic: the signer named in its proof is
  the one whose signature on this very message verifies under the set of the message's view, and a
  commit vote's proof carries the changes hash known for its block. Rejecting some votes of a batch
  never lets a bad one through.
\<close>

theorem batch_authentication_sound:
  assumes "multi_pairing_sound L" and "pk_validation_monotone L" and "i < length ms"
    and "authenticate_vote_batch L ms s ! i = Some (m, pf)"
  shows "m = ms ! i \<and> authenticated_signer L m s = Some (proof_signer pf) \<and>
    (\<forall>signer ch. pf = ProofCommitVote signer ch \<longrightarrow>
       (\<exists>cv. m = MCommitVote cv \<and> ch = cached_changes_hash (cv_block_hash cv) s))"
proof -
  let ?cs = "collect_candidates 0 ms s"
  let ?ms = "map (\<lambda>(_, _, m, _, _). m) ?cs" and ?ss = "map (\<lambda>(_, _, _, sig, _). sig) ?cs"
    and ?pks = "map (\<lambda>(_, _, _, _, pk). pk) ?cs"
  let ?bad = "set (rejected (profile_batch_verify L (signing_profile s) ?ms ?ss ?pks))"
  let ?proofs = "fold (\<lambda>(cp, mp, pf, _) proofs. if cp \<notin> ?bad then proofs[mp := Some pf] else proofs)
      (zip [0..<length ?cs] ?cs) (replicate (length ms) None)"
  have "length (fold (\<lambda>(cp, mp, pf, _) proofs. if cp \<notin> ?bad then proofs[mp := Some pf] else proofs) cs ps) = length ps"
    for cs :: "(nat \<times> nat \<times> vote_proof \<times> bytes \<times> signature \<times> public_key) list" and ps
    by (induction cs arbitrary: ps) auto
  then have m: "m = ms ! i" and "?proofs ! i = Some pf"
    using assms(3,4) by (auto simp: authenticate_vote_batch_def Let_def)
  then obtain cp x where cp: "(cp, i, pf, x) \<in> set (zip [0..<length ?cs] ?cs)" "cp \<notin> ?bad"
    using fold_proofs [of ?bad "zip [0..<length ?cs] ?cs" "replicate (length ms) None" i pf] assms(3) by auto
  obtain message sig pk where x: "x = (message, sig, pk)" by (metis prod.exhaust)
  have c: "cp < length ?cs" "?cs ! cp = (i, pf, message, sig, pk)" using cp(1) by (auto simp: set_zip x)
  have "batch_candidate m s = Some (pf, message, sig, pk)"
    using collect_candidates_position [of i _ 0 ms s] nth_mem [OF c(1)] by (simp add: c(2) m)
  moreover have "verify_single L (signing_profile s) (?pks ! cp) (?ms ! cp) (?ss ! cp)"
    by (rule batch_not_rejected_single [OF assms(1,2)]) (use c cp(2) in simp_all)
  ultimately show ?thesis using batch_candidate_signer m c by simp
qed

definition toy_batch_engine :: engine where
  "toy_batch_engine = engine_from (toy_lib (\<lambda>_. True)) 0 [0] (epoch_new four_set)
     (round_from_snapshot 8 \<lparr> qc_view = 0, qc_block_hash = 0, qc_aggregate_signature = [], qc_signers = [] \<rparr>
        \<lparr> qc_view = 0, qc_block_hash = 0, qc_aggregate_signature = [], qc_signers = [] \<rparr> 0 0 0)
     1000 8000 \<lparr> env_out = [], env_log = [], env_now = 0, env_ticks = [] \<rparr>"

definition toy_vote :: vote where
  "toy_vote = \<lparr> v_view = 8, v_block_hash = 77, v_voter = 2, v_signature = vote_message Native 8 77 \<rparr>"

theorem batch_authentication_sound_witness:
  "authenticated_signer (toy_lib (\<lambda>_. True)) (MVote toy_vote) toy_batch_engine = Some 2"
proof -
  let ?L = "toy_lib (\<lambda>_. True)"
  have e: "epoch_manager toy_batch_engine = epoch_new four_set" "signing_profile toy_batch_engine = Native"
    by (simp_all add: toy_batch_engine_def engine_from_def Let_def tick_def)
  have "batch_candidate (MVote toy_vote) toy_batch_engine
      = Some (ProofVote 2, vote_message Native 8 77, vote_message Native 8 77, [2])"
    by (simp add: toy_vote_def e set_for_view_def validator_set_for_view_def epoch_new_def get_public_key_def
        four_set_def toy_entry_def)
  then have "authenticate_vote_batch ?L [MVote toy_vote] toy_batch_engine = [Some (MVote toy_vote, ProofVote 2)]"
    by (simp add: authenticate_vote_batch_def e batch_verify_with_fallback_def batch_verify_with_fallback_suite_def
        batch_verify_with_suite_def NATIVE_def bls_verify_def MAX_BATCH_SIZE_def)
  then show ?thesis
    using batch_authentication_sound [OF toy_lib_contracts [of "\<lambda>_. True"],
        of 0 "[MVote toy_vote]" toy_batch_engine "MVote toy_vote" "ProofVote 2"]
    by (simp del: authenticated_signer.simps)
qed

end
