(* ===== verification/N42_Steps.thy ===== *)
theory N42_Steps
  imports N42_Engine
begin

text \<open>
  Reasoning about whole runs of the engine. A step relation that every primitive state change
  respects is respected by every handler, by the recursion between dispatch and view change,
  and by every event; the two locales prove this once for an arbitrary relation. They are
  interpreted with the order of the round state and the discipline of votes in
  \<^verbatim>\<open>N42_VoteSafety\<close>, and with the bounds of the buffers in \<^verbatim>\<open>N42_Bounds\<close>.
\<close>

section \<open>Primitive steps and the fields they leave alone\<close>

lemma emit_attempts_cases:
  "\<exists>rs tr. fst (emit_attempts n out s) = s\<lparr> out_script := rs, trace := trace s @ tr \<rparr> \<and>
     (tr = [] \<or> tr = [Delivered out])"
proof (induction n out s rule: emit_attempts.induct)
  case (1 out s)
  show ?case by (rule exI [of _ "out_script s"], rule exI [of _ "[]"]) simp
next
  case (2 n out s)
  show ?case
  proof (cases "out_script s")
    case Nil
    then show ?thesis by (intro exI [of _ "[]"] exI [of _ "[Delivered out]"]) simp
  next
    case (Cons r rs)
    show ?thesis
    proof (cases r)
      case Sent
      with Cons show ?thesis by (intro exI [of _ rs] exI [of _ "[Delivered out]"]) simp
    next
      case ChannelClosed
      with Cons show ?thesis by (intro exI [of _ rs] exI [of _ "[]"]) simp
    next
      case ChannelFull
      with 2 [OF Cons ChannelFull] Cons show ?thesis by simp
    qed
  qed
qed

lemma emit_cases:
  obtains rs tr where "fst (emit out s) = s\<lparr> out_script := rs, trace := trace s @ tr \<rparr>"
    and "tr = [] \<or> tr = [Delivered out]"
  using emit_attempts_cases [of "Suc MAX_OUTPUT_SEND_RETRIES" out s] by (auto simp: emit_def)

lemma vote_log_write_cases:
  "\<exists>rs tr. fst (vote_log_write e s) = s\<lparr> log_script := rs, trace := trace s @ tr \<rparr> \<and>
     (tr = [LogFailed e] \<or> tr = [Logged e])"
proof (cases "log_script s")
  case Nil
  then show ?thesis
    by (intro exI [of _ "[]"] exI [of _ "[Logged e]"]) (simp add: vote_log_write_def)
next
  case (Cons r rs)
  show ?thesis
  proof (cases r)
    case None
    with Cons show ?thesis
      by (intro exI [of _ rs] exI [of _ "[Logged e]"]) (simp add: vote_log_write_def)
  next
    case (Some err)
    with Cons show ?thesis
      by (intro exI [of _ rs] exI [of _ "[LogFailed e]"]) (simp add: vote_log_write_def)
  qed
qed

text \<open>
  \<open>framed f\<close>: a projection of the state that no environment step (an output, a durable write, a
  clock reading) and no signature changes.
\<close>

definition framed :: "(engine \<Rightarrow> 'x) \<Rightarrow> bool" where
  "framed f \<longleftrightarrow>
     (\<forall>s v. f (s\<lparr> out_script := v \<rparr>) = f s) \<and> (\<forall>s v. f (s\<lparr> log_script := v \<rparr>) = f s) \<and>
     (\<forall>s v. f (s\<lparr> now := v \<rparr>) = f s) \<and> (\<forall>s v. f (s\<lparr> ticks := v \<rparr>) = f s) \<and>
     (\<forall>s v. f (s\<lparr> trace := v \<rparr>) = f s) \<and> (\<forall>s v. f (s\<lparr> view_timing := v \<rparr>) = f s)"

lemma framed_fields [simp]:
  "framed future_msg_buffer" "framed round_state" "framed epoch_manager" "framed signing_profile"
  "framed my_index" "framed secret_key" "framed local_public_key" "framed vote_collector"
  "framed commit_collector" "framed timeout_collector" "framed prepare_qc" "framed pending_proposal"
  "framed pending_changes_hashes" "framed imported_blocks" "framed imported_block_fifo"
  "framed imported_parents" "framed future_timeout_collectors"
  by (simp_all add: framed_def)

lemma framed_emit: "framed f \<Longrightarrow> f (fst (emit out s)) = f s"
  by (rule emit_cases [of out s]) (simp add: framed_def)

lemma framed_log: "framed f \<Longrightarrow> f (fst (vote_log_write e s)) = f s"
  using vote_log_write_cases [of e s] by (auto simp: framed_def)

lemma framed_tick: "framed f \<Longrightarrow> f (tick s) = f s"
  by (simp add: framed_def tick_def split: list.split)

lemma framed_stamp: "framed f \<Longrightarrow> f (stamp g s) = f s"
  using framed_tick [of f s] by (simp add: framed_def stamp_def Let_def)

lemma framed_sign: "framed f \<Longrightarrow> f (fst (sign_with L m s)) = f s"
  by (simp add: framed_def sign_with_def)

lemmas framed_steps = framed_emit framed_log framed_tick framed_stamp framed_sign

lemma emit_frame:
  "emit out s = (t, r) \<Longrightarrow> framed f \<Longrightarrow> f t = f s"
  using framed_emit [of f out s] by simp

lemma log_frame: "vote_log_write e s = (t, r) \<Longrightarrow> framed f \<Longrightarrow> f t = f s"
  using framed_log [of f e s] by simp

lemma sign_frame: "sign_with L m s = (t, sig) \<Longrightarrow> framed f \<Longrightarrow> f t = f s"
  using framed_sign [of f L m s] by simp

lemma cross_epochs_rel:
  assumes P_refl: "\<And>s. P s s" and trans: "\<And>s t u. P s t \<Longrightarrow> P t u \<Longrightarrow> P s u"
    and cross: "\<And>s. epochs_enabled (epoch_manager s) \<Longrightarrow> P s (cross_boundary s)"
    and emit: "\<And>out s. P s (fst (emit out s))"
  shows "P s (fst (cross_epochs e s))"
proof (induction e s rule: cross_epochs.induct)
  case (1 e s)
  show ?case
  proof (cases "epochs_enabled (epoch_manager s) \<and> current_epoch (epoch_manager s) < e")
    case True
    then have c: "P s (cross_boundary s)" by (intro cross) simp
    let ?out = "EpochTransition (current_epoch (epoch_manager (cross_boundary s)))
      (vset_len (current_set (epoch_manager (cross_boundary s))))"
    have "P s (fst (andthen (emit ?out (cross_boundary s)) (\<lambda>_ t. cross_epochs e t)))"
    proof (rule andthen_state_rel [where R = P])
      show "P s (fst (emit ?out (cross_boundary s)))" using c emit by (rule trans)
      show "P t (fst (cross_epochs e t))" if "emit ?out (cross_boundary s) = (t, Ok a)" for a t
        using 1 [OF True refl that] .
    qed (rule trans)
    then show ?thesis by (subst cross_epochs.simps) (simp only: if_P [OF True] Let_def)
  next
    case False
    show ?thesis by (subst cross_epochs.simps) (simp only: if_not_P [OF False] fst_conv P_refl)
  qed
qed

lemma cross_boundary_round: "round_state (cross_boundary s) = round_state s"
  by (simp add: cross_boundary_def Let_def split: option.split)

lemma cross_boundary_buffer: "future_msg_buffer (cross_boundary s) = future_msg_buffer s"
  by (simp add: cross_boundary_def Let_def split: option.split)

lemma cross_epochs_frame:
  "round_state (fst (cross_epochs e s)) = round_state s"
  "future_msg_buffer (fst (cross_epochs e s)) = future_msg_buffer s"
  by (rule cross_epochs_rel [where P = "\<lambda>s t. round_state t = round_state s"])
    (simp_all add: cross_boundary_round framed_emit,
     rule cross_epochs_rel [where P = "\<lambda>s t. future_msg_buffer t = future_msg_buffer s"],
     simp_all add: cross_boundary_buffer framed_emit)

section \<open>Relations that every primitive step respects\<close>

text \<open>
  The contract of a step relation: it is a preorder and each primitive state change of the
  handlers respects it. Everything the engine does while it dispatches messages and moves
  between views then respects it too; this is proved once, here.
\<close>

locale engine_relation =
  fixes L :: ext_lib
    and R :: "engine \<Rightarrow> engine \<Rightarrow> bool"
  assumes R_refl: "R s s"
    and R_trans: "R s t \<Longrightarrow> R t u \<Longrightarrow> R s u"
    and R_emit: "R s (fst (emit out s))"
    and R_stamp: "R s (stamp f s)"
    and R_pace: "R s (reset_pacemaker s)"
    and R_commit: "R s (upd_round (round_commit qc) s)"
    and R_pre_commit: "R s (upd_round enter_pre_commit s)"
    and R_lock: "R s (upd_round (update_locked_qc qc) s)"
    and R_reset: "R s (upd_round reset_consecutive_timeouts s)"
    and R_timeout: "R s (upd_round round_timeout s)"
    and R_vote_collector: "vote_collector s = Some c \<Longrightarrow> vc_view c' = vc_view c \<Longrightarrow>
          R s (s\<lparr> vote_collector := Some c' \<rparr>)"
    and R_commit_collector: "R s (s\<lparr> commit_collector := vc \<rparr>)"
    and R_timeout_collector: "R s (s\<lparr> timeout_collector := tcl \<rparr>)"
    and R_future_collectors: "R s (s\<lparr> future_timeout_collectors := ftc \<rparr>)"
    and R_prepare_qc: "R s (s\<lparr> prepare_qc := pq \<rparr>)"
    and R_previous_qc: "R s (s\<lparr> previous_prepare_qc := pq \<rparr>)"
    and R_tracker: "R s (s\<lparr> equivocation_tracker := tr \<rparr>)"
    and R_commit_tracker: "R s (s\<lparr> commit_equivocation_tracker := tr \<rparr>)"
    and R_stage: "R s (fst (on_epochs (commit_pending_changes L) s))"
    and R_tx_roots: "R s (s\<lparr> pending_tx_roots := fst (bf_remove k (pending_tx_roots s)) \<rparr>)"
    and R_changes: "R s (s\<lparr> pending_changes_hashes := bf_insert k h (pending_changes_hashes s) \<rparr>)"
    and R_no_pending: "R s (s\<lparr> pending_proposal := None \<rparr>)"
    and R_forget: "R s (forget_imports s)"
    and R_form_prepare: "R s (fst (form_prepare_qc L s))"
    and R_prepare: "R s (fst (process_prepare_qc L pqc s))"
    and R_proposal: "R s (fst (process_proposal L p s))"
    and R_sign_timeout: "R s (fst (sign_timeout L s))"
    and R_sign_new_view: "R s (fst (sign_with L (new_view_msg_bytes (signing_profile s) v) s))"
    and R_cross: "epochs_enabled (epoch_manager s) \<Longrightarrow> R s (cross_boundary s)"
    and R_enter: "view_of s < v \<Longrightarrow> R s (enter_view v s)"
    and R_rebuffer: "R s (s\<lparr> future_msg_buffer := still_buffered v (future_msg_buffer s) \<rparr>)"
begin

lemma rel_andthen:
  assumes "R s (fst p)" and "\<And>a t. R s t \<Longrightarrow> R s (fst (k a t))"
  shows "R s (fst (andthen p k))"
  using assms by (cases p; cases "snd p") auto

lemma rel_trying:
  assumes "R s t" and "\<And>a. R s (fst (k a))"
  shows "R s (fst (trying r t k))"
  using assms by (cases r) auto

lemma rel_pair: "R s t \<Longrightarrow> R s (fst (t, r))"
  by simp

lemmas rel_prims =
  R_emit [THEN R_trans [rotated]]
  R_stamp [THEN R_trans [rotated]] R_pace [THEN R_trans [rotated]]
  R_commit [THEN R_trans [rotated]] R_pre_commit [THEN R_trans [rotated]]
  R_lock [THEN R_trans [rotated]] R_reset [THEN R_trans [rotated]] R_timeout [THEN R_trans [rotated]]
  R_commit_collector [THEN R_trans [rotated]]
  R_timeout_collector [THEN R_trans [rotated]] R_future_collectors [THEN R_trans [rotated]]
  R_prepare_qc [THEN R_trans [rotated]] R_previous_qc [THEN R_trans [rotated]]
  R_tracker [THEN R_trans [rotated]] R_commit_tracker [THEN R_trans [rotated]]
  R_stage [THEN R_trans [rotated]] R_tx_roots [THEN R_trans [rotated]]
  R_changes [THEN R_trans [rotated]] R_no_pending [THEN R_trans [rotated]]
  R_forget [THEN R_trans [rotated]] R_form_prepare [THEN R_trans [rotated]]
  R_prepare [THEN R_trans [rotated]] R_proposal [THEN R_trans [rotated]]
  R_sign_timeout [THEN R_trans [rotated]] R_sign_new_view [THEN R_trans [rotated]]

lemmas rel_intros = rel_andthen rel_trying rel_pair rel_prims R_refl

lemma rel_try_form_commit_qc:
  assumes "\<And>v t. R t (fst (adv v t))"
  shows "R s (fst (try_form_commit_qc L adv s))"
  unfolding try_form_commit_qc_def Let_def
  by (auto split: option.split intro!: rel_intros assms [THEN R_trans [rotated]])

lemma rel_try_form_prepare_qc:
  assumes "\<And>v t. R t (fst (adv v t))"
  shows "R s (fst (try_form_prepare_qc L adv s))"
  unfolding try_form_prepare_qc_def
  by (auto intro!: rel_intros rel_try_form_commit_qc [THEN R_trans [rotated]] assms)

lemma rel_counted:
  assumes "add_verified_vote i sig c = Ok c'" and "vote_collector s = Some c"
  shows "R s (s\<lparr> equivocation_tracker := tr, vote_collector := Some c' \<rparr>)"
proof -
  let ?s = "s\<lparr> equivocation_tracker := tr \<rparr>"
  have "R ?s (?s\<lparr> vote_collector := Some c' \<rparr>)"
    by (rule R_vote_collector [of _ c]) (use assms in \<open>auto simp: add_verified_vote_Ok_iff\<close>)
  then show ?thesis by (rule R_trans [OF R_tracker])
qed

lemma rel_process_vote_inner:
  assumes "\<And>v t. R t (fst (adv v t))"
  shows "R s (fst (process_vote_inner L adv v b s))"
  unfolding process_vote_inner_def Let_def
  by (auto split: option.split prod.split outcome.split consensus_error.split
      intro!: rel_intros rel_try_form_prepare_qc [THEN R_trans [rotated]] assms rel_counted)

lemma rel_process_commit_vote_inner:
  assumes "\<And>v t. R t (fst (adv v t))"
  shows "R s (fst (process_commit_vote_inner L adv v b s))"
  unfolding process_commit_vote_inner_def Let_def
  by (auto split: option.split prod.split outcome.split consensus_error.split
      intro!: rel_intros rel_try_form_commit_qc [THEN R_trans [rotated]] assms)

lemma rel_stage_decided: "R s (fst (stage_decided_changes L d s))"
  unfolding stage_decided_changes_def Let_def
  by (auto intro!: rel_intros)

lemma rel_process_decide:
  assumes "\<And>v t. R t (fst (adv v t))"
  shows "R s (fst (process_decide L adv d s))"
  unfolding process_decide_def Let_def
  by (auto intro!: rel_intros rel_stage_decided [THEN R_trans [rotated]] assms [THEN R_trans [rotated]])

lemma rel_sign_new_view:
  "R s t \<Longrightarrow> sign_with L (new_view_msg_bytes (signing_profile t) v) t = (u, sig) \<Longrightarrow> R s u"
  using R_sign_new_view [of t v] by (auto intro: R_trans)

lemma rel_sign_timeout: "R s t \<Longrightarrow> sign_timeout L t = (u, m) \<Longrightarrow> R s u"
  using R_sign_timeout [of t] by (auto intro: R_trans)

lemma rel_advance_with_tc:
  assumes "\<And>v t. R t (fst (adv v t))"
  shows "R s (fst (advance_with_tc L adv tc v s))"
  unfolding advance_with_tc_def Let_def
  by (auto split: option.split prod.split
      intro!: rel_intros assms [THEN R_trans [rotated]] elim!: rel_sign_new_view [rotated])

lemma rel_try_form_tc:
  assumes "\<And>v t. R t (fst (adv v t))"
  shows "R s (fst (try_form_tc_and_advance L adv v w s))"
  unfolding try_form_tc_and_advance_def
  by (auto split: option.split intro!: rel_intros rel_advance_with_tc assms)

lemma rel_process_timeout:
  assumes "\<And>v t. R t (fst (adv v t))"
  shows "R s (fst (process_timeout L adv t s))"
  unfolding process_timeout_def Let_def
  by (auto split: option.split prod.split outcome.split consensus_error.split
      intro!: rel_intros rel_try_form_tc [THEN R_trans [rotated]] assms)

lemma rel_on_timeout:
  assumes "\<And>v t. R t (fst (adv v t))"
  shows "R s (fst (on_timeout L adv s))"
  unfolding on_timeout_def Let_def
  by (auto split: option.split prod.split
      intro!: rel_intros rel_process_timeout [THEN R_trans [rotated]] rel_try_form_tc [THEN R_trans [rotated]]
        assms elim!: rel_sign_timeout [rotated])

lemma rel_process_new_view:
  assumes "\<And>v t. R t (fst (adv v t))"
  shows "R s (fst (process_new_view L adv nv s))"
  unfolding process_new_view_def Let_def
  by (auto intro!: rel_intros assms [THEN R_trans [rotated]])

lemma rel_dispatch:
  assumes "\<And>v t. R t (fst (adv v t))"
  shows "R s (fst (dispatch_message L adv m po s))"
  unfolding dispatch_message_def process_vote_def process_verified_vote_def process_commit_vote_def
    process_verified_commit_vote_def
  by (auto split: consensus_message.split
      intro!: R_prepare R_proposal rel_process_vote_inner rel_process_commit_vote_inner
        rel_process_timeout rel_process_new_view rel_process_decide assms)

lemma rel_cross_epochs: "R s (fst (cross_epochs e s))"
  by (rule cross_epochs_rel [of R, OF R_refl R_trans R_cross R_emit])

lemma rel_replay:
  assumes "\<And>m t. R t (fst (dispatch m t))"
  shows "R s (fst (replay dispatch ms s))"
proof (induction ms arbitrary: s)
  case Nil
  then show ?case by (simp add: R_refl)
next
  case (Cons m ms)
  obtain t r where d: "dispatch m s = (t, r)" by fastforce
  then have "R s t" using assms [of s m] by simp
  with Cons.IH [of t] show ?case
    by (cases r) (auto simp: d intro: R_trans)
qed

lemma rel_advance_body:
  assumes "\<And>m t. R t (fst (dispatch m t))"
  shows "R s (fst (advance_body dispatch v s))"
proof (cases "v \<le> view_of s")
  case True
  then show ?thesis by (simp add: advance_body_def R_refl)
next
  case False
  let ?s = "s\<lparr> previous_prepare_qc := prepare_qc s, prepare_qc := None \<rparr>"
  let ?e = "epoch_for_view v (epoch_manager ?s)"
  have s: "R s ?s" by (intro rel_intros)
  have tail: "R t (fst (let s = enter_view v t; drained = future_msg_buffer s;
      s = s\<lparr> future_msg_buffer := still_buffered v drained \<rparr>
      in replay dispatch (to_replay v drained) s))" if t: "cross_epochs ?e ?s = (t, Ok a)" for a t
  proof -
    have "round_state t = round_state ?s" using cross_epochs_frame(1) [of ?e ?s] unfolding t by simp
    then have "view_of t < v" using False by simp
    then show ?thesis
      unfolding Let_def
      by (intro R_trans [OF R_trans [OF R_enter R_rebuffer] rel_replay [OF assms]])
  qed
  have "R s (fst (andthen (cross_epochs ?e ?s) (\<lambda>_ s. let s = enter_view v s;
      drained = future_msg_buffer s; s = s\<lparr> future_msg_buffer := still_buffered v drained \<rparr>
      in replay dispatch (to_replay v drained) s)))"
    using R_trans [OF s rel_cross_epochs] tail R_trans by (rule andthen_state_rel)
  then show ?thesis using False by (simp add: advance_body_def Let_def)
qed

lemma rel_advance_fuel: "R s (fst (advance_fuel L n v s))"
proof (induction n arbitrary: v s)
  case 0
  then show ?case by (simp add: R_refl)
next
  case (Suc n)
  then show ?case by (simp add: rel_advance_body rel_dispatch)
qed

lemma rel_advance_to_view: "R s (fst (advance_to_view L v s))"
  unfolding advance_to_view_def by (rule rel_advance_fuel)

end

section \<open>Relations over whole events\<close>

locale engine_event_relation = engine_relation +
  assumes R_push: "length (future_msg_buffer s) < MAX_FUTURE_MESSAGES \<Longrightarrow> R s (buffer_push w m s)"
    and R_buffer: "R s (buffer_message w m s)"
    and R_recover: "R s (fst (recover_late_committed_proposal L p s))"
    and R_propose: "R s (fst (propose_block L b tx s))"
    and R_import: "R s (fst (on_block_imported L b parent s))"
begin

lemma rel_try_qc_view_jump: "R s (fst (try_qc_view_jump L m s))"
  unfolding try_qc_view_jump_def Let_def
  by (auto split: option.split intro!: rel_intros rel_advance_to_view [THEN R_trans [rotated]])

lemma rel_add_timeout:
  assumes "R s t" and "\<And>c. R s (fst (k c))"
  shows "R s (fst (case r of
      Err (DuplicateVote _ _) \<Rightarrow> (t, Ok b)
    | Err e \<Rightarrow> (t, Err e)
    | Panic \<Rightarrow> (t, Panic)
    | Ok c \<Rightarrow> k c))"
  using assms by (auto split: outcome.split consensus_error.split)

lemmas rel_adv = rel_advance_to_view [THEN R_trans [rotated]]
  rel_process_timeout [of "advance_to_view L", OF rel_advance_to_view, THEN R_trans [rotated]]
  rel_on_timeout [of "advance_to_view L", OF rel_advance_to_view, THEN R_trans [rotated]]
  rel_advance_with_tc [of "advance_to_view L", OF rel_advance_to_view, THEN R_trans [rotated]]

lemma rel_collect_future_timeout: "R s (fst (collect_future_timeout L (advance_to_view L) t s))"
  unfolding collect_future_timeout_def Let_def
  by (simp split: option.split)
    (intro conjI allI impI rel_andthen rel_trying rel_add_timeout rel_adv rel_prims R_refl rel_pair
      | simp split: if_split)+

lemma rel_after_jump: "R s (fst (after_jump L m po s))"
  unfolding after_jump_def Let_def
  by (auto intro!: rel_dispatch rel_advance_to_view R_push R_refl)

lemma rel_process_message_inner: "R s (fst (process_message_inner L m po s))"
  unfolding process_message_inner_def Let_def
  by (auto split: consensus_message.split
      intro!: rel_intros rel_collect_future_timeout R_recover R_refl rel_dispatch rel_advance_to_view
        rel_try_qc_view_jump [THEN R_trans [rotated]] rel_after_jump [THEN R_trans [rotated]]
        R_buffer [THEN R_trans [rotated]])

lemma rel_process_event: "R s (fst (process_event L ev s))"
  by (cases ev) (auto simp: process_message_def on_block_ready_def
      intro!: rel_process_message_inner R_import rel_andthen R_propose R_refl
        rel_try_form_prepare_qc [THEN R_trans [rotated]] rel_advance_to_view)

lemma rel_timeout_event: "R s (fst (on_timeout L (advance_to_view L) s))"
  by (intro rel_on_timeout rel_advance_to_view)

lemma rel_authenticated: "R s (fst (process_authenticated_message L a s))"
  unfolding process_authenticated_message_def by (rule rel_process_message_inner)

end

end
