(* ===== verification/N42_VoteSafety.thy ===== *)
theory N42_VoteSafety
  imports N42_Steps
begin

text \<open>
  The discipline of votes. Along every run of the engine the round state moves up, a vote of a
  view is signed at most once per view and round, every signed vote was made durable before,
  and no vote is signed for a view at or below the one the engine was started with. In the
  gov5-legacy profile a proposal and a vote for its block are the same bytes, so the statement on
  round-one votes is about the other two profiles.
\<close>

section \<open>Segments of the trace\<close>

definition signing_discipline ::
  "(view_number \<Rightarrow> bytes \<Rightarrow> bool) \<Rightarrow> (view_number \<Rightarrow> log_entry) \<Rightarrow> view_number \<Rightarrow> view_number
   \<Rightarrow> effect list \<Rightarrow> bool" where
  "signing_discipline P lg lo hi seg \<longleftrightarrow>
     (\<forall>v m. Signed m \<in> set seg \<longrightarrow> P v m \<longrightarrow> lo < v \<and> v \<le> hi) \<and>
     (\<forall>v m m'. Signed m \<in> set seg \<longrightarrow> Signed m' \<in> set seg \<longrightarrow> P v m \<longrightarrow> P v m' \<longrightarrow> m = m') \<and>
     (\<forall>pre post v m. seg = pre @ Signed m # post \<longrightarrow> P v m \<longrightarrow> Logged (lg v) \<in> set pre)"

lemma discipline_quiet:
  "(\<And>v m. Signed m \<in> set seg \<Longrightarrow> \<not> P v m) \<Longrightarrow> signing_discipline P lg lo hi seg"
  by (fastforce simp: signing_discipline_def)

lemma discipline_append:
  assumes a: "signing_discipline P lg lo mid xs" and b: "signing_discipline P lg mid hi ys"
    and le: "lo \<le> mid" "mid \<le> hi"
  shows "signing_discipline P lg lo hi (xs @ ys)"
  unfolding signing_discipline_def
proof (intro conjI allI impI)
  fix v m
  assume "Signed m \<in> set (xs @ ys)" and "P v m"
  then show "lo < v" and "v \<le> hi"
    using a b le unfolding signing_discipline_def
    by (auto intro: order.strict_trans1 order.trans)
next
  fix v m m'
  assume m: "Signed m \<in> set (xs @ ys)" "P v m" and m': "Signed m' \<in> set (xs @ ys)" "P v m'"
  have x: "\<And>n. Signed n \<in> set xs \<Longrightarrow> P v n \<Longrightarrow> v \<le> mid" using a by (auto simp: signing_discipline_def)
  have y: "\<And>n. Signed n \<in> set ys \<Longrightarrow> P v n \<Longrightarrow> mid < v" using b by (auto simp: signing_discipline_def)
  show "m = m'"
  proof (cases "v \<le> mid")
    case True
    then have "Signed m \<in> set xs" "Signed m' \<in> set xs" using m m' y by fastforce+
    with a m m' show ?thesis by (auto simp: signing_discipline_def)
  next
    case False
    then have "Signed m \<in> set ys" "Signed m' \<in> set ys" using m m' x by fastforce+
    with b m m' show ?thesis by (auto simp: signing_discipline_def)
  qed
next
  fix pre post v m
  assume eq: "xs @ ys = pre @ Signed m # post" and p: "P v m"
  from eq consider us where "xs = pre @ Signed m # us" | us where "pre = xs @ us" and "ys = us @ Signed m # post"
    by (auto simp: append_eq_append_conv2 append_eq_Cons_conv)
  then show "Logged (lg v) \<in> set pre"
  proof cases
    case 1
    with a p show ?thesis by (auto simp: signing_discipline_def)
  next
    case 2
    with b p show ?thesis by (auto simp: signing_discipline_def)
  qed
qed

lemma discipline_signed:
  assumes "lo < v" and "v \<le> hi" and "\<And>w. P w m \<Longrightarrow> w = v"
  shows "signing_discipline P lg lo hi [Logged (lg v), Signed m]"
  using assms by (auto simp: signing_discipline_def Cons_eq_append_conv)

section \<open>The step relation\<close>

definition votes_of :: "signing_profile \<Rightarrow> view_number \<Rightarrow> bytes \<Rightarrow> bool" where
  "votes_of pr v m \<longleftrightarrow> pr \<noteq> Gov5Legacy \<and> (\<exists>b. m = vote_message pr v b)"

definition commit_votes_of :: "signing_profile \<Rightarrow> view_number \<Rightarrow> bytes \<Rightarrow> bool" where
  "commit_votes_of pr v m \<longleftrightarrow> (\<exists>b h. m = commit_message pr v b h)"

definition disciplined :: "engine \<Rightarrow> engine \<Rightarrow> bool" where
  "disciplined s t \<longleftrightarrow> signing_profile t = signing_profile s \<and> round_le (round_state s) (round_state t) \<and>
     (\<exists>seg. trace t = trace s @ seg \<and>
        signing_discipline (votes_of (signing_profile s)) LogVote
          (last_voted_view (round_state s)) (last_voted_view (round_state t)) seg \<and>
        signing_discipline (commit_votes_of (signing_profile s)) LogCommitVote
          (last_commit_voted_view (round_state s)) (last_commit_voted_view (round_state t)) seg)"

lemma disciplinedI:
  assumes "signing_profile t = signing_profile s" and "round_le (round_state s) (round_state t)"
    and "trace t = trace s @ seg"
    and "signing_discipline (votes_of (signing_profile s)) LogVote
          (last_voted_view (round_state s)) (last_voted_view (round_state t)) seg"
    and "signing_discipline (commit_votes_of (signing_profile s)) LogCommitVote
          (last_commit_voted_view (round_state s)) (last_commit_voted_view (round_state t)) seg"
  shows "disciplined s t"
  using assms unfolding disciplined_def by blast

lemma disciplined_trans: "disciplined s t \<Longrightarrow> disciplined t u \<Longrightarrow> disciplined s u"
proof -
  assume st: "disciplined s t" and tu: "disciplined t u"
  from st obtain x where x: "signing_profile t = signing_profile s" "round_le (round_state s) (round_state t)"
      "trace t = trace s @ x"
      "signing_discipline (votes_of (signing_profile s)) LogVote
          (last_voted_view (round_state s)) (last_voted_view (round_state t)) x"
      "signing_discipline (commit_votes_of (signing_profile s)) LogCommitVote
          (last_commit_voted_view (round_state s)) (last_commit_voted_view (round_state t)) x"
    unfolding disciplined_def by blast
  from tu obtain y where y: "signing_profile u = signing_profile t" "round_le (round_state t) (round_state u)"
      "trace u = trace t @ y"
      "signing_discipline (votes_of (signing_profile t)) LogVote
          (last_voted_view (round_state t)) (last_voted_view (round_state u)) y"
      "signing_discipline (commit_votes_of (signing_profile t)) LogCommitVote
          (last_commit_voted_view (round_state t)) (last_commit_voted_view (round_state u)) y"
    unfolding disciplined_def by blast
  show "disciplined s u"
  proof (rule disciplinedI)
    show "trace u = trace s @ (x @ y)" using x(3) y(3) by simp
    show "round_le (round_state s) (round_state u)" using x(2) y(2) by (rule round_le_trans)
  qed (use x y in \<open>auto simp: round_le_def intro!: discipline_append\<close>)
qed

text \<open>Steps that sign nothing, and signatures of other kinds.\<close>

lemma disciplined_quiet:
  assumes "signing_profile t = signing_profile s" and "round_le (round_state s) (round_state t)"
    and "trace t = trace s @ seg" and "\<And>m. Signed m \<notin> set seg"
  shows "disciplined s t"
  by (rule disciplinedI [OF assms(1-3)]; rule discipline_quiet) (use assms(4) in blast)+

lemma disciplined_same_trace:
  "signing_profile t = signing_profile s \<Longrightarrow> round_le (round_state s) (round_state t) \<Longrightarrow>
     trace t = trace s \<Longrightarrow> disciplined s t"
  by (rule disciplined_quiet [where seg = "[]"]) simp_all

lemma disciplined_other_signature:
  assumes "\<And>v b. signing_profile s \<noteq> Gov5Legacy \<Longrightarrow> m \<noteq> vote_message (signing_profile s) v b"
    and "\<And>v b h. m \<noteq> commit_message (signing_profile s) v b h"
  shows "disciplined s (fst (sign_with L m s))"
  by (rule disciplinedI [where seg = "[Signed m]"])
    (use assms in \<open>auto simp: sign_with_def votes_of_def commit_votes_of_def intro!: discipline_quiet\<close>)

lemma disciplined_refl: "disciplined s s"
  by (rule disciplined_same_trace) simp_all

lemma disciplined_emit: "disciplined s (fst (emit out s))"
proof -
  obtain rs tr where e: "fst (emit out s) = s\<lparr> out_script := rs, trace := trace s @ tr \<rparr>"
    and tr: "tr = [] \<or> tr = [Delivered out]" by (rule emit_cases)
  show ?thesis by (rule disciplined_quiet [where seg = tr]) (use tr in \<open>auto simp: e\<close>)
qed

lemma disciplined_log: "disciplined s (fst (vote_log_write e s))"
proof -
  obtain rs tr where w: "fst (vote_log_write e s) = s\<lparr> log_script := rs, trace := trace s @ tr \<rparr>"
    and tr: "tr = [LogFailed e] \<or> tr = [Logged e]" using vote_log_write_cases by blast
  show ?thesis by (rule disciplined_quiet [where seg = tr]) (use tr in \<open>auto simp: w\<close>)
qed

lemma disciplined_note: "disciplined s (note_accepted p s)"
  by (rule disciplined_quiet [where seg = "[Accepted p]"]) (simp_all add: note_accepted_def)

lemma disciplined_round:
  "(\<And>r. round_le r (f r)) \<Longrightarrow> disciplined s (upd_round f s)"
  by (rule disciplined_same_trace) (simp_all add: upd_round_def)

lemma trace_tick [simp]: "trace (tick s) = trace s"
  by (simp add: tick_def split: list.split)

lemma disciplined_clock: "disciplined s (stamp f s)" "disciplined s (reset_pacemaker s)"
  by (rule disciplined_same_trace; simp add: stamp_def reset_pacemaker_def Let_def framed_tick)+

section \<open>The votes\<close>

lemma andthen_from:
  assumes "P (fst p)" and "\<And>a t. p = (t, Ok a) \<Longrightarrow> P (fst (k a t))"
  shows "P (fst (andthen p k))"
  using assms by (cases p; cases "snd p") auto

lemma vote_log_Ok:
  assumes "vote_log_write e s = (t, Ok a)"
  obtains rs where "t = s\<lparr> log_script := rs, trace := trace s @ [Logged e] \<rparr>"
proof (cases "log_script s")
  case Nil
  then have "t = s\<lparr> trace := trace s @ [Logged e] \<rparr>"
    using assms by (simp add: vote_log_write_def)
  also have "\<dots> = s\<lparr> log_script := log_script s, trace := trace s @ [Logged e] \<rparr>" by simp
  finally show ?thesis by (rule that)
next
  case (Cons r rs)
  then have "t = s\<lparr> log_script := rs, trace := trace s @ [Logged e] \<rparr>"
    using assms by (cases r) (simp_all add: vote_log_write_def)
  then show ?thesis by (rule that)
qed

lemma disciplined_vote:
  assumes may: "may_vote_in v (round_state s)"
    and log: "vote_log_write (LogVote v) (upd_round (round_record_vote v) s) = (t, Ok a)"
  shows "disciplined s (fst (sign_with L (vote_message (signing_profile t) v b) t))"
proof -
  obtain rs where t: "t = (upd_round (round_record_vote v) s)\<lparr> log_script := rs,
      trace := trace (upd_round (round_record_vote v) s) @ [Logged (LogVote v)] \<rparr>"
    using log by (rule vote_log_Ok)
  show ?thesis
  proof (rule disciplinedI)
    let ?m = "vote_message (signing_profile s) v b"
    show "trace (fst (sign_with L (vote_message (signing_profile t) v b) t))
        = trace s @ [Logged (LogVote v), Signed ?m]"
      by (simp add: sign_with_def t upd_round_def)
    show "signing_discipline (votes_of (signing_profile s)) LogVote (last_voted_view (round_state s))
        (last_voted_view (round_state (fst (sign_with L (vote_message (signing_profile t) v b) t))))
        [Logged (LogVote v), Signed ?m]"
      using may by (intro discipline_signed)
        (auto simp: sign_with_def t upd_round_def round_record_vote_def may_vote_in_def votes_of_def)
  qed (use round_le_record_vote [OF may] in
      \<open>auto simp: sign_with_def t upd_round_def commit_votes_of_def intro!: discipline_quiet\<close>)
qed

lemma disciplined_commit_vote:
  assumes may: "may_commit_vote_in v (round_state s)"
    and log: "vote_log_write (LogCommitVote v) (upd_round (round_record_commit_vote v) s) = (t, Ok a)"
  shows "disciplined s (fst (sign_with L (commit_message (signing_profile t) v b h) t))"
proof -
  obtain rs where t: "t = (upd_round (round_record_commit_vote v) s)\<lparr> log_script := rs,
      trace := trace (upd_round (round_record_commit_vote v) s) @ [Logged (LogCommitVote v)] \<rparr>"
    using log by (rule vote_log_Ok)
  show ?thesis
  proof (rule disciplinedI)
    let ?m = "commit_message (signing_profile s) v b h"
    show "trace (fst (sign_with L (commit_message (signing_profile t) v b h) t))
        = trace s @ [Logged (LogCommitVote v), Signed ?m]"
      by (simp add: sign_with_def t upd_round_def)
    show "signing_discipline (commit_votes_of (signing_profile s)) LogCommitVote
        (last_commit_voted_view (round_state s))
        (last_commit_voted_view (round_state (fst (sign_with L (commit_message (signing_profile t) v b h) t))))
        [Logged (LogCommitVote v), Signed ?m]"
      using may by (intro discipline_signed)
        (auto simp: sign_with_def t upd_round_def round_record_commit_vote_def may_commit_vote_in_def
          commit_votes_of_def commit_message_inject)
  qed (use round_le_record_commit_vote [OF may] in
      \<open>auto simp: sign_with_def t upd_round_def votes_of_def vote_neq_commit [symmetric]
        intro!: discipline_quiet\<close>)
qed

lemma disciplined_record:
  "may_vote_in v (round_state s) \<Longrightarrow> disciplined s (upd_round (round_record_vote v) s)"
  "may_commit_vote_in v (round_state s) \<Longrightarrow> disciplined s (upd_round (round_record_commit_vote v) s)"
  by (rule disciplined_same_trace; simp add: upd_round_def round_le_record_vote round_le_record_commit_vote)+

lemmas disciplined_then =
  disciplined_emit [THEN disciplined_trans [rotated]]
  disciplined_log [THEN disciplined_trans [rotated]]
  disciplined_clock(1) [THEN disciplined_trans [rotated]]
  disciplined_clock(2) [THEN disciplined_trans [rotated]]
  disciplined_note [THEN disciplined_trans [rotated]]

lemma disciplined_trying:
  "disciplined s t \<Longrightarrow> (\<And>a. r = Ok a \<Longrightarrow> disciplined s (fst (k a))) \<Longrightarrow> disciplined s (fst (trying r t k))"
  by (cases r) auto

lemma disciplined_send_vote: "disciplined s (fst (send_vote L v b s))"
proof (cases "is_local_validator_active_for_view v s \<and> may_vote_in v (round_state s)")
  case True
  let ?s = "upd_round (round_record_vote v) s"
  have "disciplined s (fst (andthen (vote_log_write (LogVote v) ?s) (\<lambda>_ s.
      trying (leader_index_for_view v s) s (\<lambda>leader.
        let (s, vote_sig) = sign_with L (vote_message (signing_profile s) v b) s;
            v = \<lparr> v_view = v, v_block_hash = b, v_voter = my_index s, v_signature = vote_sig \<rparr>;
            s = stamp (\<lambda>t vt. vt\<lparr> vote_sent := Some t \<rparr>) s
        in emit (SendToValidator leader (MVote v)) s))))"
  proof (rule andthen_from [where P = "disciplined s"])
    show l: "disciplined s (fst (vote_log_write (LogVote v) ?s))"
      using True by (intro disciplined_then disciplined_record) simp
    fix a t
    assume t: "vote_log_write (LogVote v) ?s = (t, Ok a)"
    have "disciplined s (fst (sign_with L (vote_message (signing_profile t) v b) t))"
      using True t by (intro disciplined_vote) simp_all
    then show "disciplined s (fst (trying (leader_index_for_view v t) t (\<lambda>leader.
        let (s, vote_sig) = sign_with L (vote_message (signing_profile t) v b) t;
            v = \<lparr> v_view = v, v_block_hash = b, v_voter = my_index s, v_signature = vote_sig \<rparr>;
            s = stamp (\<lambda>t vt. vt\<lparr> vote_sent := Some t \<rparr>) s
        in emit (SendToValidator leader (MVote v)) s)))"
      using l by (auto simp: Let_def t split: prod.split intro!: disciplined_trying disciplined_then)
  qed
  with True show ?thesis by (simp add: send_vote_def Let_def)
next
  case False
  then show ?thesis by (auto simp: send_vote_def disciplined_refl)
qed

lemma disciplined_commit_block:
  assumes may: "may_commit_vote_in v (round_state s)"
    and step: "\<And>t u. vote_log_write (LogCommitVote v) (upd_round (round_record_commit_vote v) t) = (u, Ok ()) \<Longrightarrow>
      (\<And>b h w sig. sign_with L (commit_message (signing_profile u) v b h) u = (w, sig) \<Longrightarrow> disciplined s w) \<Longrightarrow>
      disciplined s (fst (k u))"
  shows "disciplined s (fst (andthen (vote_log_write (LogLock qc) s) (\<lambda>_ s.
    andthen (vote_log_write (LogCommitVote v) (upd_round (round_record_commit_vote v) s)) (\<lambda>_ s. k s))))"
proof (rule andthen_from [where P = "disciplined s"])
  show "disciplined s (fst (vote_log_write (LogLock qc) s))" by (rule disciplined_log)
  fix a :: unit and t
  assume t: "vote_log_write (LogLock qc) s = (t, Ok a)"
  have st: "disciplined s t" using disciplined_log [of s "LogLock qc"] by (simp add: t)
  have may_t: "may_commit_vote_in v (round_state t)"
    using may log_frame [OF t, of round_state] by simp
  show "disciplined s (fst (andthen (vote_log_write (LogCommitVote v)
      (upd_round (round_record_commit_vote v) t)) (\<lambda>_ s. k s)))"
  proof (rule andthen_from [where P = "disciplined s"])
    show "disciplined s (fst (vote_log_write (LogCommitVote v) (upd_round (round_record_commit_vote v) t)))"
      using st disciplined_record(2) [OF may_t] by (blast intro: disciplined_then disciplined_trans)
    fix a' :: unit and u
    assume u: "vote_log_write (LogCommitVote v) (upd_round (round_record_commit_vote v) t) = (u, Ok a')"
    show "disciplined s (fst (k u))"
    proof (rule step)
      show "vote_log_write (LogCommitVote v) (upd_round (round_record_commit_vote v) t) = (u, Ok ())"
        using u by simp
      show "disciplined s w" if "sign_with L (commit_message (signing_profile u) v b h) u = (w, sig)" for b h w sig
        using disciplined_trans [OF st disciplined_commit_vote [OF may_t u, of L b h]] by (simp add: that)
    qed
  qed
qed

lemma disciplined_collectors:
  "disciplined s (s\<lparr> vote_collector := vc \<rparr>)" "disciplined s (s\<lparr> commit_collector := vc \<rparr>)"
  by (rule disciplined_same_trace; simp)+

lemmas disciplined_collectors_then = disciplined_collectors [THEN disciplined_trans [rotated]]

lemma disciplined_leader_commit: "disciplined s (fst (leader_commit_vote L v b s))"
proof (cases "may_commit_vote_in v (round_state s)")
  case True
  show ?thesis
    unfolding leader_commit_vote_def Let_def using True
    by (simp, intro disciplined_commit_block [where L = L])
      (auto split: prod.split option.split intro!: disciplined_trying disciplined_collectors_then)
next
  case False
  then show ?thesis by (simp add: leader_commit_vote_def disciplined_refl)
qed

lemma disciplined_round_steps:
  "disciplined s (upd_round enter_pre_commit s)" "disciplined s (upd_round enter_voting s)"
  "disciplined s (upd_round (update_locked_qc qc) s)" "disciplined s (upd_round (round_commit qc) s)"
  "disciplined s (upd_round reset_consecutive_timeouts s)" "disciplined s (upd_round round_timeout s)"
  by (rule disciplined_round, rule round_le_intros)+

lemmas disciplined_round_then = disciplined_round_steps [THEN disciplined_trans [rotated]]

lemma disciplined_prepare: "disciplined s (fst (process_prepare_qc L pqc s))"
proof -
  let ?v = "view_of s"
  let ?s = "upd_round enter_pre_commit (upd_round (update_locked_qc (pqc_qc pqc)) s)"
  have s: "disciplined s ?s" by (intro disciplined_round_then disciplined_refl)
  have block: "disciplined s (fst (andthen (vote_log_write (LogLock (locked_qc (round_state ?s))) ?s) (\<lambda>_ s.
      andthen (vote_log_write (LogCommitVote ?v) (upd_round (round_record_commit_vote ?v) s)) (\<lambda>_ s.
        let changes_hash = cached_changes_hash (pqc_block_hash pqc) s;
            commit_msg = commit_message (signing_profile s) ?v (pqc_block_hash pqc) changes_hash;
            (s, commit_sig) = sign_with L commit_msg s
        in trying (leader_index_for_view ?v s) s (\<lambda>leader.
          let cv = \<lparr> cv_view = ?v, cv_block_hash = pqc_block_hash pqc,
                     cv_voter = my_index s, cv_signature = commit_sig \<rparr>;
              s = stamp (\<lambda>t vt. vt\<lparr> commit_vote_sent := Some t \<rparr>) s
          in emit (SendToValidator leader (MCommitVote cv)) s)))))"
    if "may_commit_vote_in ?v (round_state ?s)"
    by (rule disciplined_trans [OF s], rule disciplined_commit_block [where L = L, OF that])
      (auto simp: Let_def split: prod.split intro!: disciplined_trying disciplined_then)
  show ?thesis
    unfolding process_prepare_qc_def Let_def
    using s block by (auto simp: Let_def intro!: disciplined_trying disciplined_refl)
qed

text \<open>Updates of fields that neither the trace nor the round state depends on.\<close>

lemma disciplined_fields:
  "disciplined s (s\<lparr> timeout_collector := a \<rparr>)" "disciplined s (s\<lparr> future_timeout_collectors := b \<rparr>)"
  "disciplined s (s\<lparr> prepare_qc := c \<rparr>)" "disciplined s (s\<lparr> previous_prepare_qc := c \<rparr>)"
  "disciplined s (s\<lparr> equivocation_tracker := d \<rparr>)" "disciplined s (s\<lparr> commit_equivocation_tracker := d \<rparr>)"
  "disciplined s (s\<lparr> proposal_equivocation_tracker := e \<rparr>)" "disciplined s (s\<lparr> pending_tx_roots := f \<rparr>)"
  "disciplined s (s\<lparr> pending_changes_hashes := f \<rparr>)" "disciplined s (s\<lparr> pending_proposal := g \<rparr>)"
  "disciplined s (s\<lparr> future_msg_buffer := h \<rparr>)" "disciplined s (upd_epochs i s)"
  "disciplined s (fst (on_epochs j s))" "disciplined s (forget_imports s)"
  "disciplined s (cross_boundary s)" "disciplined s (s\<lparr> epoch_manager := k \<rparr>)"
  by (rule disciplined_same_trace;
      simp add: upd_epochs_def on_epochs_def forget_imports_def cross_boundary_def Let_def
        split: prod.split option.split)+

lemmas disciplined_fields_then = disciplined_fields [THEN disciplined_trans [rotated]]

lemma disciplined_pair: "disciplined s t \<Longrightarrow> disciplined s (fst (t, r))"
  by simp

lemma disciplined_andthen:
  assumes "disciplined s (fst p)" and "\<And>a t. disciplined s t \<Longrightarrow> disciplined s (fst (k a t))"
  shows "disciplined s (fst (andthen p k))"
  using assms by (cases p; cases "snd p") auto

lemmas disciplined_intros = disciplined_andthen disciplined_trying disciplined_pair disciplined_then
  disciplined_round_then disciplined_collectors_then disciplined_fields_then disciplined_refl

lemma disciplined_form_prepare: "disciplined s (fst (form_prepare_qc L s))"
  unfolding form_prepare_qc_def Let_def
  by (auto split: option.split
      intro!: disciplined_intros disciplined_leader_commit [THEN disciplined_trans [rotated]])

lemma disciplined_absorb: "disciplined s (absorb_piggybacked_qc L qco s)"
  unfolding absorb_piggybacked_qc_def
  by (auto split: option.split outcome.split intro!: disciplined_intros)

lemma disciplined_accept: "disciplined s (fst (accept_proposal L p s))"
  unfolding accept_proposal_def Let_def
  by (auto split: option.split intro!: disciplined_intros disciplined_send_vote [THEN disciplined_trans [rotated]])

lemma disciplined_tracked: "disciplined s (fst (process_tracked_proposal L p s))"
  unfolding process_tracked_proposal_def Let_def
  by (auto intro!: disciplined_intros disciplined_accept [THEN disciplined_trans [rotated]]
      disciplined_absorb [THEN disciplined_trans [rotated]])

lemma disciplined_proposal: "disciplined s (fst (process_proposal L p s))"
  unfolding process_proposal_def Let_def
  by (auto split: option.split intro!: disciplined_intros disciplined_tracked [THEN disciplined_trans [rotated]])

lemma disciplined_recover: "disciplined s (fst (recover_late_committed_proposal L p s))"
  unfolding recover_late_committed_proposal_def Let_def
  by (auto split: option.split outcome.split intro!: disciplined_intros)

lemma disciplined_vote_block:
  assumes may: "may_vote_in v (round_state s)"
    and step: "\<And>u. (\<And>b w sig. sign_with L (vote_message (signing_profile s) v b) u = (w, sig) \<Longrightarrow> disciplined s w) \<Longrightarrow>
      disciplined s (fst (k u))"
  shows "disciplined s (fst (andthen (vote_log_write (LogVote v) (upd_round (round_record_vote v) s)) (\<lambda>_ s. k s)))"
proof (rule andthen_from [where P = "disciplined s"])
  show "disciplined s (fst (vote_log_write (LogVote v) (upd_round (round_record_vote v) s)))"
    by (intro disciplined_then disciplined_record may)
  fix a :: unit and u
  assume u: "vote_log_write (LogVote v) (upd_round (round_record_vote v) s) = (u, Ok a)"
  have pr: "signing_profile u = signing_profile s"
    using log_frame [OF u, of signing_profile] by (simp add: upd_round_def)
  show "disciplined s (fst (k u))"
  proof (rule step)
    show "disciplined s w" if "sign_with L (vote_message (signing_profile s) v b) u = (w, sig)" for b w sig
      using disciplined_vote [OF may u, of L b] by (simp add: pr that)
  qed
qed

lemma disciplined_sign_proposal:
  assumes "disciplined s t"
    and "sign_with L (proposal_message L (signing_profile t) v b cs) t = (u, sig)"
  shows "disciplined s u"
proof -
  have "disciplined t (fst (sign_with L (proposal_message L (signing_profile t) v b cs) t))"
    by (rule disciplined_other_signature) (auto simp: proposal_eq_vote_iff)
  with assms show ?thesis by (auto intro: disciplined_trans)
qed

text \<open>The leader's proposal up to its own vote, and the vote itself.\<close>

lemma disciplined_leader_vote:
  assumes "may_vote_in v (round_state s)"
  shows "disciplined s (fst (andthen (vote_log_write (LogVote v) (upd_round (round_record_vote v) s))
    (\<lambda>_ s'. let (s, leader_vote_sig) = sign_with L (vote_message (signing_profile s) v b) s' in
      andthen
        (case vote_collector s of
           None \<Rightarrow> (s, Ok ())
         | Some c \<Rightarrow> trying (add_verified_vote (my_index s) leader_vote_sig c) s
             (\<lambda>c'. (s\<lparr> vote_collector := Some c' \<rparr>, Ok ())))
        (\<lambda>_ s. let s = stamp (\<lambda>t vt. vt\<lparr> proposal_sent := Some t \<rparr>) s in
          andthen (emit (BroadcastMessage (MProposal p)) s) (\<lambda>_ s. (s, Ok True))))))"
  by (rule disciplined_vote_block [where L = L, OF assms])
    (auto simp: Let_def split: prod.split option.split intro!: disciplined_intros)

lemma disciplined_propose: "disciplined s (fst (propose_block L b tx s))"
proof -
  let ?v = "view_of s"
  let ?cs = "pending_changes_for_proposal (epoch_manager s)"
  let ?h = "case ?cs of Some changes \<Rightarrow> hash_changes L changes | None \<Rightarrow> 0"
  let ?s1 = "s\<lparr> previous_prepare_qc := None,
    pending_changes_hashes := bf_insert b ?h (pending_changes_hashes s) \<rparr>"
  obtain s2 sig where s2: "sign_with L (proposal_message L (signing_profile s) ?v b ?cs) ?s1 = (s2, sig)"
    by fastforce
  have d2: "disciplined s s2"
  proof (rule disciplined_sign_proposal)
    show "disciplined s ?s1" by (intro disciplined_intros)
    show "sign_with L (proposal_message L (signing_profile ?s1) ?v b ?cs) ?s1 = (s2, sig)" using s2 by simp
  qed
  have p2: "signing_profile s2 = signing_profile s" using sign_frame [OF s2, of signing_profile] by simp
  let ?s3 = "upd_round enter_voting (s2\<lparr> vote_collector := Some (vc_new ?v b (vset_len (set_for_view ?v s2))),
    commit_collector := Some (vc_new ?v b (vset_len (set_for_view ?v s2))) \<rparr>)"
  have d3: "disciplined s ?s3" using d2 by (intro disciplined_intros)
  have p3: "signing_profile ?s3 = signing_profile s2" by (simp add: upd_round_def)
  have vote: "disciplined s (fst (andthen (vote_log_write (LogVote ?v)
      (upd_round (round_record_vote ?v) (note_accepted p ?s3)))
    (\<lambda>_ s'. let (s, leader_vote_sig) = sign_with L (vote_message (signing_profile s2) ?v b) s' in
      andthen
        (case vote_collector s of
           None \<Rightarrow> (s, Ok ())
         | Some c \<Rightarrow> trying (add_verified_vote (my_index s) leader_vote_sig c) s
             (\<lambda>c'. (s\<lparr> vote_collector := Some c' \<rparr>, Ok ())))
        (\<lambda>_ s. let s = stamp (\<lambda>t vt. vt\<lparr> proposal_sent := Some t \<rparr>) s in
          andthen (emit (BroadcastMessage (MProposal p)) s) (\<lambda>_ s. (s, Ok True))))))"
    if "may_vote_in ?v (round_state ?s3)" for p
    using disciplined_trans [OF disciplined_trans [OF d3 disciplined_note]
        disciplined_leader_vote [of ?v "note_accepted p ?s3" L b p]] that
    by (simp add: note_accepted_def p3)
  show ?thesis
    unfolding propose_block_def Let_def
    using d3 vote
    by (auto simp: s2 Let_def intro!: disciplined_intros)
qed

lemma evict_loop_frame:
  "trace (evict_loop n s) = trace s \<and> signing_profile (evict_loop n s) = signing_profile s \<and>
     round_state (evict_loop n s) = round_state s"
  by (induction n s rule: evict_loop.induct) (auto split: list.split)

lemma record_import_frame:
  "trace (record_import b p s) = trace s \<and> signing_profile (record_import b p s) = signing_profile s \<and>
     round_state (record_import b p s) = round_state s"
  by (simp add: record_import_def evict_oldest_imported_block_def Let_def evict_loop_frame split: option.split)

lemma disciplined_record_import: "disciplined s (record_import b p s)"
  by (rule disciplined_same_trace) (simp_all add: record_import_frame)

lemma disciplined_import: "disciplined s (fst (on_block_imported L b p s))"
  unfolding on_block_imported_def Let_def
  by (auto split: option.split intro!: disciplined_record_import
      disciplined_send_vote [THEN disciplined_trans [rotated]])

lemma disciplined_sign_timeout: "disciplined s (fst (sign_timeout L s))"
  using disciplined_other_signature [of s "timeout_msg_bytes (signing_profile s) (view_of s)" L]
  by (simp add: sign_timeout_def Let_def case_prod_beta commit_neq_timeout [symmetric]
      vote_neq_timeout [symmetric])

lemma disciplined_sign_new_view:
  "disciplined s (fst (sign_with L (new_view_msg_bytes (signing_profile s) v) s))"
  by (rule disciplined_other_signature)
    (simp_all add: commit_neq_new_view [symmetric] vote_neq_new_view [symmetric])

lemma disciplined_enter: "disciplined s (enter_view v s)"
  by (rule disciplined_same_trace)
    (auto simp: enter_view_def Let_def framed_tick sync_local_validator_index_def forget_imports_def
      reset_pacemaker_def upd_round_def round_le_advance split: option.split)

section \<open>Every event is disciplined\<close>

interpretation discipline: engine_event_relation L disciplined for L
proof unfold_locales
  fix s t u :: engine
  show "disciplined s s" by (rule disciplined_refl)
  show "disciplined s t \<Longrightarrow> disciplined t u \<Longrightarrow> disciplined s u" by (rule disciplined_trans)
  show "disciplined s (fst (emit out s))" for out by (rule disciplined_emit)
  show "disciplined s (stamp f s)" for f by (rule disciplined_clock)
  show "disciplined s (reset_pacemaker s)" by (rule disciplined_clock)
  show "disciplined s (fst (form_prepare_qc L s))" by (rule disciplined_form_prepare)
  show "disciplined s (fst (process_prepare_qc L pqc s))" for pqc by (rule disciplined_prepare)
  show "disciplined s (fst (process_proposal L p s))" for p by (rule disciplined_proposal)
  show "disciplined s (fst (sign_timeout L s))" by (rule disciplined_sign_timeout)
  show "disciplined s (fst (sign_with L (new_view_msg_bytes (signing_profile s) v) s))" for v
    by (rule disciplined_sign_new_view)
  show "disciplined s (enter_view v s)" for v by (rule disciplined_enter)
  show "disciplined s (fst (recover_late_committed_proposal L p s))" for p by (rule disciplined_recover)
  show "disciplined s (fst (propose_block L b tx s))" for b tx by (rule disciplined_propose)
  show "disciplined s (fst (on_block_imported L b parent s))" for b parent by (rule disciplined_import)
  show "disciplined s (buffer_push w m s)" for w m
    unfolding buffer_push_def by (rule disciplined_fields)
  show "disciplined s (buffer_message w m s)" for w m
    unfolding buffer_message_def buffer_push_def Let_def by (auto intro: disciplined_intros)
qed (rule disciplined_round_steps disciplined_collectors disciplined_fields)+

section \<open>Runs of the engine\<close>

text \<open>
  What the node can do with an engine: feed an event, let the timer fire, hand in a batch
  verified message, queue membership changes, replace the epoch manager (block sync works on it
  directly), re-derive the index, move the timer; and what the environment can do: decide how
  the next sends, durable writes and clock readings turn out. A panic ends the run.
\<close>

inductive engine_step :: "ext_lib \<Rightarrow> engine \<Rightarrow> engine \<Rightarrow> bool" for L :: ext_lib where
  step_event: "process_event L ev s = (t, r) \<Longrightarrow> r \<noteq> Panic \<Longrightarrow> engine_step L s t"
| step_timeout: "on_timeout L (advance_to_view L) s = (t, r) \<Longrightarrow> r \<noteq> Panic \<Longrightarrow> engine_step L s t"
| step_authenticated:
    "process_authenticated_message L a s = (t, r) \<Longrightarrow> r \<noteq> Panic \<Longrightarrow> engine_step L s t"
| step_add: "on_epochs (propose_add_validator info) s = (t, r) \<Longrightarrow> engine_step L s t"
| step_remove: "on_epochs (propose_remove_validator addr) s = (t, r) \<Longrightarrow> engine_step L s t"
| step_sync_epochs: "engine_step L s (s\<lparr> epoch_manager := em \<rparr>)"
| step_sync_index: "engine_step L s (fst (sync_local_validator_index s))"
| step_extend_deadline: "engine_step L s (s\<lparr> pacemaker := extend_deadline d (pacemaker s) \<rparr>)"
| step_environment: "engine_step L s (s\<lparr> out_script := a, log_script := b, ticks := c \<rparr>)"

inductive_cases engine_stepE: "engine_step L s t"

abbreviation run :: "ext_lib \<Rightarrow> engine \<Rightarrow> engine \<Rightarrow> bool" where
  "run L \<equiv> (engine_step L)\<^sup>*\<^sup>*"

lemma engine_step_disciplined: "engine_step L s t \<Longrightarrow> disciplined s t"
proof (induction rule: engine_step.induct)
  case (step_event ev s t r)
  then show ?case using discipline.rel_process_event [of s L ev] by simp
next
  case (step_timeout s t r)
  then show ?case using discipline.rel_timeout_event [of s L] by simp
next
  case (step_authenticated a s t r)
  then show ?case using discipline.rel_authenticated [of s L a] by simp
next
  case (step_add info s t r)
  then show ?case using disciplined_fields(13) [of s "propose_add_validator info"] by simp
next
  case (step_remove addr s t r)
  then show ?case using disciplined_fields(13) [of s "propose_remove_validator addr"] by simp
next
  case (step_sync_index s)
  show ?case by (rule disciplined_same_trace)
    (simp_all add: sync_local_validator_index_def Let_def split: option.split)
qed (rule disciplined_same_trace; simp)+

lemma run_disciplined: "run L s t \<Longrightarrow> disciplined s t"
proof (induction rule: rtranclp_induct)
  case base
  show ?case by (rule disciplined_refl)
next
  case (step t u)
  then show ?case using engine_step_disciplined disciplined_trans by blast
qed

text \<open>What a run adds to the trace.\<close>

definition new_effects :: "engine \<Rightarrow> engine \<Rightarrow> effect list" where
  "new_effects s t = drop (length (trace s)) (trace t)"

lemma run_effects:
  assumes "run L s t"
  shows "trace t = trace s @ new_effects s t"
    and "signing_profile t = signing_profile s" and "round_le (round_state s) (round_state t)"
    and "signing_discipline (votes_of (signing_profile s)) LogVote
           (last_voted_view (round_state s)) (last_voted_view (round_state t)) (new_effects s t)"
    and "signing_discipline (commit_votes_of (signing_profile s)) LogCommitVote
           (last_commit_voted_view (round_state s)) (last_commit_voted_view (round_state t)) (new_effects s t)"
  using run_disciplined [OF assms] by (auto simp: disciplined_def new_effects_def)

end
