(* ===== verification/N42_Bounds.thy ===== *)
theory N42_Bounds
  imports N42_VoteSafety
begin

text \<open>
  Termination and bounds of the engine. The recursion between dispatching a message and moving to
  a view ends, and \<open>advance_to_view\<close> satisfies the equation of the source; the buffers and caches
  stay within their limits along every run.
\<close>

section \<open>Relations on fields\<close>

text \<open>
  A stronger contract: the relation does not look at the round state, the trace or the
  collectors at all. It gives the contract of \<open>engine_relation\<close>, since the handlers that record
  and sign votes are then covered as well.
\<close>

locale field_relation =
  fixes L :: ext_lib
    and R :: "engine \<Rightarrow> engine \<Rightarrow> bool"
  assumes F_refl: "R s s"
    and F_trans: "R s t \<Longrightarrow> R t u \<Longrightarrow> R s u"
    and F_emit: "R s (fst (emit out s))"
    and F_log: "R s (fst (vote_log_write e s))"
    and F_sign: "R s (fst (sign_with L m s))"
    and F_note: "R s (note_accepted p s)"
    and F_stamp: "R s (stamp f s)"
    and F_pace: "R s (reset_pacemaker s)"
    and F_round: "R s (upd_round g s)"
    and F_vote_collector: "R s (s\<lparr> vote_collector := vc \<rparr>)"
    and F_commit_collector: "R s (s\<lparr> commit_collector := vc \<rparr>)"
    and F_timeout_collector: "R s (s\<lparr> timeout_collector := tcl \<rparr>)"
    and F_future_collectors: "R s (s\<lparr> future_timeout_collectors := ftc \<rparr>)"
    and F_prepare_qc: "R s (s\<lparr> prepare_qc := pq \<rparr>)"
    and F_previous_qc: "R s (s\<lparr> previous_prepare_qc := pq \<rparr>)"
    and F_tracker: "R s (s\<lparr> equivocation_tracker := tr \<rparr>)"
    and F_commit_tracker: "R s (s\<lparr> commit_equivocation_tracker := tr \<rparr>)"
    and F_proposal_tracker: "R s (s\<lparr> proposal_equivocation_tracker := ptr \<rparr>)"
    and F_stage: "R s (fst (on_epochs (commit_pending_changes L) s))"
    and F_replace: "R s (upd_epochs (replace_pending_from_proposal cs) s)"
    and F_tx_insert: "R s (s\<lparr> pending_tx_roots := bf_insert k h (pending_tx_roots s) \<rparr>)"
    and F_tx_remove: "R s (s\<lparr> pending_tx_roots := fst (bf_remove k (pending_tx_roots s)) \<rparr>)"
    and F_changes: "R s (s\<lparr> pending_changes_hashes := bf_insert k h (pending_changes_hashes s) \<rparr>)"
    and F_pending: "R s (s\<lparr> pending_proposal := pp \<rparr>)"
    and F_forget: "R s (forget_imports s)"
    and F_cross: "epochs_enabled (epoch_manager s) \<Longrightarrow> R s (cross_boundary s)"
    and F_enter: "R s (enter_view v s)"
    and F_rebuffer: "R s (s\<lparr> future_msg_buffer := still_buffered v (future_msg_buffer s) \<rparr>)"
begin

lemmas f_prims =
  F_emit [THEN F_trans [rotated]] F_log [THEN F_trans [rotated]] F_sign [THEN F_trans [rotated]]
  F_note [THEN F_trans [rotated]]
  F_stamp [THEN F_trans [rotated]] F_pace [THEN F_trans [rotated]] F_round [THEN F_trans [rotated]]
  F_vote_collector [THEN F_trans [rotated]] F_commit_collector [THEN F_trans [rotated]]
  F_proposal_tracker [THEN F_trans [rotated]] F_previous_qc [THEN F_trans [rotated]]
  F_prepare_qc [THEN F_trans [rotated]]
  F_stage [THEN F_trans [rotated]] F_replace [THEN F_trans [rotated]]
  F_tx_insert [THEN F_trans [rotated]] F_changes [THEN F_trans [rotated]]
  F_pending [THEN F_trans [rotated]]

lemma f_andthen:
  assumes "R s (fst p)" and "\<And>a t. R s t \<Longrightarrow> R s (fst (k a t))"
  shows "R s (fst (andthen p k))"
  using assms by (cases p; cases "snd p") auto

lemma f_trying: "R s t \<Longrightarrow> (\<And>a. R s (fst (k a))) \<Longrightarrow> R s (fst (trying r t k))"
  by (cases r) auto

lemma f_pair: "R s t \<Longrightarrow> R s (fst (t, r))"
  by simp

lemma f_signed: "R s t \<Longrightarrow> sign_with L m t = (u, sig) \<Longrightarrow> R s u"
  using F_sign [of t m] by (auto intro: F_trans)

lemma f_both_caches:
  assumes "R s t"
  shows "R s (t\<lparr> pending_changes_hashes := bf_insert k h (pending_changes_hashes t),
    pending_tx_roots := bf_insert k' h' (pending_tx_roots t) \<rparr>)"
proof -
  let ?t = "t\<lparr> pending_changes_hashes := bf_insert k h (pending_changes_hashes t) \<rparr>"
  have "R s (?t\<lparr> pending_tx_roots := bf_insert k' h' (pending_tx_roots ?t) \<rparr>)"
    by (rule F_trans [OF F_trans [OF assms F_changes] F_tx_insert])
  then show ?thesis by simp
qed

lemma f_taken_qc:
  assumes "R s t"
  shows "R s (t\<lparr> previous_prepare_qc := q,
    pending_changes_hashes := bf_insert k h (pending_changes_hashes t) \<rparr>)"
  using F_trans [OF F_trans [OF assms F_previous_qc] F_changes] by simp

lemmas f_intros = f_both_caches f_taken_qc f_andthen f_trying f_pair f_prims F_refl

lemma f_send_vote: "R s (fst (send_vote L v b s))"
  unfolding send_vote_def Let_def
  by (auto split: prod.split intro!: f_intros elim!: f_signed [rotated])

lemma f_leader_commit: "R s (fst (leader_commit_vote L v b s))"
  unfolding leader_commit_vote_def Let_def
  by (auto split: prod.split option.split intro!: f_intros elim!: f_signed [rotated])

lemma f_form_prepare: "R s (fst (form_prepare_qc L s))"
  unfolding form_prepare_qc_def Let_def
  by (auto split: option.split intro!: f_intros f_leader_commit [THEN F_trans [rotated]])

lemma f_prepare: "R s (fst (process_prepare_qc L pqc s))"
  unfolding process_prepare_qc_def Let_def
  by (auto split: prod.split intro!: f_intros elim!: f_signed [rotated])

lemma f_absorb: "R s (absorb_piggybacked_qc L qco s)"
  unfolding absorb_piggybacked_qc_def by (auto split: option.split outcome.split intro!: f_intros)

lemma f_accept: "R s (fst (accept_proposal L p s))"
  unfolding accept_proposal_def Let_def
  by (auto split: option.split intro!: f_intros f_send_vote [THEN F_trans [rotated]])

lemma f_tracked: "R s (fst (process_tracked_proposal L p s))"
  unfolding process_tracked_proposal_def Let_def
  by (auto intro!: f_intros f_accept [THEN F_trans [rotated]] f_absorb [THEN F_trans [rotated]])

lemma f_proposal: "R s (fst (process_proposal L p s))"
  unfolding process_proposal_def Let_def
  by (auto split: option.split intro!: f_intros f_tracked [THEN F_trans [rotated]])

lemma f_recover: "R s (fst (recover_late_committed_proposal L p s))"
  unfolding recover_late_committed_proposal_def Let_def
  by (auto split: option.split outcome.split intro!: f_intros)

lemma f_propose: "R s (fst (propose_block L b tx s))"
  unfolding propose_block_def Let_def
  by (auto split: prod.split option.split intro!: f_intros elim!: f_signed [rotated])

lemma f_sign_timeout: "R s (fst (sign_timeout L s))"
  by (simp add: sign_timeout_def Let_def case_prod_beta F_sign)

end

sublocale field_relation \<subseteq> engine_relation L R
  by unfold_locales
    (rule F_refl F_emit F_stamp F_pace F_round F_vote_collector F_commit_collector F_timeout_collector
      F_future_collectors F_prepare_qc F_previous_qc F_tracker F_commit_tracker F_stage F_tx_remove
      F_changes F_pending F_forget f_form_prepare f_prepare f_proposal f_sign_timeout F_sign F_cross
      F_enter F_rebuffer | assumption | erule (1) F_trans)+

section \<open>Dispatching never buffers\<close>

definition no_longer :: "engine \<Rightarrow> engine \<Rightarrow> bool" where
  "no_longer s t \<longleftrightarrow> length (future_msg_buffer t) \<le> length (future_msg_buffer s)"

lemma enter_view_buffer: "future_msg_buffer (enter_view v s) = future_msg_buffer s"
  by (auto simp: enter_view_def Let_def framed_tick sync_local_validator_index_def forget_imports_def
      reset_pacemaker_def upd_round_def split: option.split)

interpretation buffer: field_relation L no_longer for L
  by unfold_locales
    (simp_all add: no_longer_def framed_steps note_accepted_def reset_pacemaker_def upd_round_def upd_epochs_def
      on_epochs_def forget_imports_def cross_boundary_buffer enter_view_buffer still_buffered_def
      Let_def split: prod.split)

section \<open>The recursion between dispatch and view change ends\<close>

text \<open>
  Two ways of advancing that agree on every state with at most \<open>n\<close> buffered messages give the
  same dispatcher on such states: no handler buffers anything before it advances.
\<close>

definition within :: "nat \<Rightarrow> engine \<Rightarrow> bool" where
  "within n s \<longleftrightarrow> length (future_msg_buffer s) \<le> n"

lemma within_step: "no_longer s t \<Longrightarrow> within n s \<Longrightarrow> within n t"
  by (simp add: no_longer_def within_def)

lemmas within_prims =
  buffer.F_emit [THEN within_step] buffer.F_log [THEN within_step] buffer.F_sign [THEN within_step]
  buffer.F_stamp [THEN within_step] buffer.F_pace [THEN within_step] buffer.F_round [THEN within_step]
  buffer.F_vote_collector [THEN within_step] buffer.F_commit_collector [THEN within_step]
  buffer.F_timeout_collector [THEN within_step] buffer.F_future_collectors [THEN within_step]
  buffer.F_prepare_qc [THEN within_step] buffer.F_tracker [THEN within_step]
  buffer.F_commit_tracker [THEN within_step] buffer.F_stage [THEN within_step]
  buffer.F_tx_remove [THEN within_step] buffer.F_changes [THEN within_step]
  buffer.f_form_prepare [THEN within_step] buffer.rel_stage_decided [THEN within_step]

lemma cong_andthen:
  assumes "within n (fst p)" and "\<And>a t. within n t \<Longrightarrow> k a t = k' a t"
  shows "andthen p k = andthen p k'"
  using assms by (cases p; cases "snd p") auto

lemma cong_trying: "(\<And>a. k a = k' a) \<Longrightarrow> trying r s k = trying r s k'"
  by (cases r) auto

lemma within_pair: "within n s \<Longrightarrow> within n (fst (s, r))"
  by simp

lemma within_andthen:
  assumes "within n (fst p)" and "\<And>a t. within n t \<Longrightarrow> within n (fst (k a t))"
  shows "within n (fst (andthen p k))"
  using assms by (cases p; cases "snd p") auto

lemma within_signed: "within n t \<Longrightarrow> sign_with L m t = (u, sig) \<Longrightarrow> within n u"
  using within_prims(3) [of n t L m] by simp

lemmas cong_intros = cong_andthen cong_trying within_pair within_andthen within_prims

lemma cong_commit_qc:
  assumes agree: "\<And>v t. within n t \<Longrightarrow> adv v t = adv' v t" and "within n s"
  shows "try_form_commit_qc L adv s = try_form_commit_qc L adv' s"
  using assms(2) unfolding try_form_commit_qc_def Let_def
  by (auto split: option.split simp: agree 
      intro!: cong_intros )

lemma cong_prepare_qc:
  assumes agree: "\<And>v t. within n t \<Longrightarrow> adv v t = adv' v t" and "within n s"
  shows "try_form_prepare_qc L adv s = try_form_prepare_qc L adv' s"
  using assms(2) unfolding try_form_prepare_qc_def
  by (auto simp: agree 
      intro!: cong_intros cong_commit_qc [where n = n, OF agree])

lemma cong_vote:
  assumes agree: "\<And>v t. within n t \<Longrightarrow> adv v t = adv' v t" and "within n s"
  shows "process_vote_inner L adv v b s = process_vote_inner L adv' v b s"
  using assms(2) unfolding process_vote_inner_def Let_def
  by (auto split: option.split prod.split outcome.split simp: agree 
      intro!: cong_intros cong_prepare_qc [where n = n, OF agree])

lemma cong_commit_vote:
  assumes agree: "\<And>v t. within n t \<Longrightarrow> adv v t = adv' v t" and "within n s"
  shows "process_commit_vote_inner L adv v b s = process_commit_vote_inner L adv' v b s"
  using assms(2) unfolding process_commit_vote_inner_def Let_def
  by (auto split: option.split prod.split outcome.split simp: agree 
      intro!: cong_intros cong_commit_qc [where n = n, OF agree])

lemma cong_decide:
  assumes agree: "\<And>v t. within n t \<Longrightarrow> adv v t = adv' v t" and "within n s"
  shows "process_decide L adv d s = process_decide L adv' d s"
  using assms(2) unfolding process_decide_def Let_def
  by (auto split: option.split simp: agree 
      intro!: cong_intros )

lemma cong_advance_with_tc:
  assumes agree: "\<And>v t. within n t \<Longrightarrow> adv v t = adv' v t" and "within n s"
  shows "advance_with_tc L adv tc v s = advance_with_tc L adv' tc v s"
  using assms(2) unfolding advance_with_tc_def Let_def
  by (auto split: option.split prod.split simp: agree intro!: cong_intros elim!: within_signed [rotated])

lemma cong_form_tc:
  assumes agree: "\<And>v t. within n t \<Longrightarrow> adv v t = adv' v t" and "within n s"
  shows "try_form_tc_and_advance L adv v w s = try_form_tc_and_advance L adv' v w s"
  using assms(2) unfolding try_form_tc_and_advance_def
  by (auto split: option.split simp: agree 
      intro!: cong_intros cong_advance_with_tc [where n = n, OF agree])

lemma cong_timeout:
  assumes agree: "\<And>v t. within n t \<Longrightarrow> adv v t = adv' v t" and "within n s"
  shows "process_timeout L adv t s = process_timeout L adv' t s"
  using assms(2) unfolding process_timeout_def Let_def
  by (auto split: option.split outcome.split simp: agree 
      intro!: cong_intros cong_form_tc [where n = n, OF agree])

lemma cong_new_view:
  assumes agree: "\<And>v t. within n t \<Longrightarrow> adv v t = adv' v t" and "within n s"
  shows "process_new_view L adv nv s = process_new_view L adv' nv s"
  using assms(2) unfolding process_new_view_def Let_def
  by (auto split: option.split simp: agree [OF within_prims(6)] 
      intro!: cong_intros )

lemma cong_dispatch:
  assumes agree: "\<And>v t. within n t \<Longrightarrow> adv v t = adv' v t" and "within n s"
  shows "dispatch_message L adv m po s = dispatch_message L adv' m po s"
  unfolding dispatch_message_def process_vote_def process_verified_vote_def process_commit_vote_def
    process_verified_commit_vote_def
  using cong_vote [OF assms] cong_commit_vote [OF assms] cong_decide [OF assms]
    cong_timeout [OF assms] cong_new_view [OF assms]
  by (simp split: consensus_message.split)

lemma cong_replay:
  assumes "\<And>m t. within n t \<Longrightarrow> d m t = d' m t" and "\<And>m t. within n t \<Longrightarrow> within n (fst (d m t))"
  shows "within n s \<Longrightarrow> replay d ms s = replay d' ms s"
proof (induction ms arbitrary: s)
  case Nil
  then show ?case by simp
next
  case (Cons m ms)
  obtain t r where t: "d m s = (t, r)" by fastforce
  then have "within n t" using assms(2) [OF Cons.prems, of m] by simp
  then show ?case
    using Cons.IH [of t] t assms(1) [OF Cons.prems, of m] by (cases r) auto
qed

text \<open>A replayed message has left the buffer.\<close>

lemma still_buffered_shorter:
  "to_replay v buf \<noteq> [] \<Longrightarrow> length (still_buffered v buf) < length buf"
proof -
  assume "to_replay v buf \<noteq> []"
  then obtain m where "(v, m) \<in> set buf" by (auto simp: to_replay_def filter_empty_conv)
  moreover have "(v, m) \<notin> set (still_buffered v buf)" by (simp add: still_buffered_def)
  ultimately show ?thesis
    unfolding still_buffered_def by (intro length_filter_less) auto
qed

lemma cong_advance_body:
  assumes agree: "\<And>m t. within n t \<Longrightarrow> d m t = d' m t"
    and keep: "\<And>m t. within n t \<Longrightarrow> within n (fst (d m t))" and s: "within (Suc n) s"
  shows "advance_body d v s = advance_body d' v s"
proof -
  let ?s = "s\<lparr> previous_prepare_qc := prepare_qc s, prepare_qc := None \<rparr>"
  let ?e = "epoch_for_view v (epoch_manager ?s)"
  have "replay d (to_replay v (future_msg_buffer (enter_view v t)))
        ((enter_view v t)\<lparr> future_msg_buffer := still_buffered v (future_msg_buffer (enter_view v t)) \<rparr>)
      = replay d' (to_replay v (future_msg_buffer (enter_view v t)))
        ((enter_view v t)\<lparr> future_msg_buffer := still_buffered v (future_msg_buffer (enter_view v t)) \<rparr>)"
    if t: "cross_epochs ?e ?s = (t, Ok a)" for a t
  proof (cases "to_replay v (future_msg_buffer t) = []")
    case True
    then show ?thesis by (simp add: enter_view_buffer)
  next
    case False
    have "future_msg_buffer t = future_msg_buffer s"
      using cross_epochs_frame(2) [of ?e ?s] unfolding t by simp
    then have "within n ((enter_view v t)\<lparr> future_msg_buffer := still_buffered v (future_msg_buffer (enter_view v t)) \<rparr>)"
      using still_buffered_shorter [OF False] s by (simp add: within_def enter_view_buffer)
    then show ?thesis using agree keep by (intro cong_replay [where n = n])
  qed
  then have "andthen (cross_epochs ?e ?s) (\<lambda>_ s. replay d (to_replay v (future_msg_buffer (enter_view v s)))
        ((enter_view v s)\<lparr> future_msg_buffer := still_buffered v (future_msg_buffer (enter_view v s)) \<rparr>))
      = andthen (cross_epochs ?e ?s) (\<lambda>_ s. replay d' (to_replay v (future_msg_buffer (enter_view v s)))
        ((enter_view v s)\<lparr> future_msg_buffer := still_buffered v (future_msg_buffer (enter_view v s)) \<rparr>))"
    by (intro andthen_cong) auto
  then show ?thesis by (simp add: advance_body_def Let_def)
qed

lemma within_dispatch: "within n t \<Longrightarrow> within n (fst (dispatch_message L (advance_fuel L k) m po t))"
  by (rule within_step [OF buffer.rel_dispatch [OF buffer.rel_advance_fuel]])

lemma advance_body_empty:
  assumes "within 0 s"
  shows "advance_body d v s = advance_body d' v s"
proof -
  have "future_msg_buffer s = []" using assms by (simp add: within_def)
  then have "future_msg_buffer (fst (cross_epochs e (s\<lparr> previous_prepare_qc := q, prepare_qc := None \<rparr>))) = []" for e q
    using cross_epochs_frame(2) [of e "s\<lparr> previous_prepare_qc := q, prepare_qc := None \<rparr>"] by simp
  then have "future_msg_buffer t = []" if "cross_epochs e (s\<lparr> previous_prepare_qc := q, prepare_qc := None \<rparr>) = (t, r)" for e q t r
    using that by (metis fst_conv)
  then show ?thesis
    unfolding advance_body_def Let_def
    by (intro if_cong andthen_cong) (auto simp: enter_view_buffer to_replay_def)
qed

lemma advance_fuel_enough:
  "within n s \<Longrightarrow> n < k \<Longrightarrow> n < j \<Longrightarrow> advance_fuel L k v s = advance_fuel L j v s"
proof (induction n arbitrary: k j v s)
  case 0
  then obtain k' j' where "k = Suc k'" and "j = Suc j'" by (meson gr0_implies_Suc)
  with 0 show ?case using advance_body_empty by simp
next
  case (Suc n)
  obtain k' where k: "k = Suc k'" "n < k'" using Suc.prems(2) by (cases k) auto
  obtain j' where j: "j = Suc j'" "n < j'" using Suc.prems(3) by (cases j) auto
  have "dispatch_message L (advance_fuel L k') m None t = dispatch_message L (advance_fuel L j') m None t"
    if "within n t" for m t
    by (rule cong_dispatch [where n = n, OF _ that]) (rule Suc.IH [OF _ k(2) j(2)])
  then show ?case
    unfolding k j advance_fuel.simps
    using Suc.prems(1) by (intro cong_advance_body [where n = n] within_dispatch)
qed

text \<open>The equation of the source: moving to a view replays with the dispatcher that moves views.\<close>

lemma advance_to_view_fuel: "within n s \<Longrightarrow> n < k \<Longrightarrow> advance_to_view L v s = advance_fuel L k v s"
  unfolding advance_to_view_def
  by (intro advance_fuel_enough [of "length (future_msg_buffer s)"]) (auto simp: within_def)

lemma advance_to_view_unfold_aux:
  "advance_to_view L v s = advance_body (\<lambda>m t. dispatch_message L (advance_to_view L) m None t) v s"
proof (cases "length (future_msg_buffer s)")
  case 0
  then have "within 0 s" by (simp add: within_def)
  then show ?thesis
    unfolding advance_to_view_def by (simp only: advance_fuel.simps) (rule advance_body_empty)
next
  case (Suc n)
  have "dispatch_message L (advance_fuel L (Suc n)) m None t = dispatch_message L (advance_to_view L) m None t"
    if "within n t" for m t
    by (rule cong_dispatch [where n = n, OF _ that]) (rule advance_to_view_fuel [symmetric, where n = n], simp_all)
  then show ?thesis
    unfolding advance_to_view_def [of L v s] Suc advance_fuel.simps(2) [of L "Suc n"]
    using Suc by (intro cong_advance_body [where n = n] within_dispatch) (auto simp: within_def)
qed

section \<open>Bounds of the caches and buffers\<close>

locale field_event_relation = field_relation +
  assumes F_push: "length (future_msg_buffer s) < MAX_FUTURE_MESSAGES \<Longrightarrow> R s (buffer_push w m s)"
    and F_buffer: "R s (buffer_message w m s)"
    and F_import: "R s (record_import b parent s)"
begin

lemma f_import: "R s (fst (on_block_imported L b parent s))"
  unfolding on_block_imported_def Let_def
  by (auto split: option.split intro!: F_import f_send_vote [THEN F_trans [rotated]])

end

sublocale field_event_relation \<subseteq> engine_event_relation L R
  by unfold_locales (rule F_push F_buffer f_recover f_propose f_import | assumption)+

text \<open>
  The buffer of future messages holds at most 256 messages, the queue of imported blocks at
  most 64 hashes (the same ones as the set beside it), and the two proposal caches respect their
  capacity.
\<close>

definition bounded :: "engine \<Rightarrow> bool" where
  "bounded s \<longleftrightarrow> length (future_msg_buffer s) \<le> MAX_FUTURE_MESSAGES \<and>
     length (imported_block_fifo s) \<le> MAX_IMPORTED_BLOCKS \<and> distinct (imported_block_fifo s) \<and>
     imported_blocks s = set (imported_block_fifo s) \<and>
     bf_inv (pending_tx_roots s) \<and> bf_inv (pending_changes_hashes s)"

definition stays_bounded :: "engine \<Rightarrow> engine \<Rightarrow> bool" where
  "stays_bounded s t \<longleftrightarrow> (bounded s \<longrightarrow> bounded t)"

lemma length_evict_lowest: "buf \<noteq> [] \<Longrightarrow> length (evict_lowest buf) = length buf - 1"
  by (auto simp: evict_lowest_def swap_remove_def split: list.split)

lemma buffer_message_bounded: "bounded s \<Longrightarrow> bounded (buffer_message w m s)"
proof (cases "length (future_msg_buffer s) \<ge> MAX_FUTURE_MESSAGES")
  case True
  assume "bounded s"
  moreover have "future_msg_buffer s \<noteq> []" using True by (auto simp: MAX_FUTURE_MESSAGES_def)
  ultimately show ?thesis
    using True by (simp add: bounded_def buffer_message_def buffer_push_def length_evict_lowest MAX_FUTURE_MESSAGES_def)
next
  case False
  then show "bounded s \<Longrightarrow> ?thesis" by (simp add: bounded_def buffer_message_def buffer_push_def)
qed

text \<open>The eviction drops exactly one hash, never the one the deferred vote waits for.\<close>

lemma evict_loop_drops:
  assumes "distinct (imported_block_fifo s)" and "imported_blocks s = insert b (set (imported_block_fifo s))"
    and "b \<notin> set (imported_block_fifo s)"
    and "\<exists>h \<in> set (take n (imported_block_fifo s)). Some h \<noteq> map_option pp_block_hash (pending_proposal s)"
    and "n \<le> length (imported_block_fifo s)"
  shows "imported_blocks (evict_loop n s) = insert b (set (imported_block_fifo (evict_loop n s))) \<and>
    distinct (imported_block_fifo (evict_loop n s)) \<and> b \<notin> set (imported_block_fifo (evict_loop n s)) \<and>
    Suc (length (imported_block_fifo (evict_loop n s))) = length (imported_block_fifo s)"
  using assms
proof (induction n arbitrary: s)
  case 0
  then show ?case by simp
next
  case (Suc n)
  then obtain oldest rest where f: "imported_block_fifo s = oldest # rest"
    by (cases "imported_block_fifo s") auto
  show ?case
  proof (cases "Some oldest = map_option pp_block_hash (pending_proposal s)")
    case True
    let ?s = "s\<lparr> imported_block_fifo := rest @ [oldest] \<rparr>"
    have "\<exists>h \<in> set (take n (imported_block_fifo ?s)). Some h \<noteq> map_option pp_block_hash (pending_proposal ?s)"
      using Suc.prems(4,5) True by (auto simp: f)
    then have "imported_blocks (evict_loop n ?s) = insert b (set (imported_block_fifo (evict_loop n ?s))) \<and>
        distinct (imported_block_fifo (evict_loop n ?s)) \<and> b \<notin> set (imported_block_fifo (evict_loop n ?s)) \<and>
        Suc (length (imported_block_fifo (evict_loop n ?s))) = length (imported_block_fifo ?s)"
      using Suc.prems by (intro Suc.IH) (auto simp: f)
    then show ?thesis using True by (simp add: f)
  next
    case False
    with Suc.prems show ?thesis by (auto simp: f)
  qed
qed

lemma evict_loop_keeps:
  "future_msg_buffer (evict_loop n s) = future_msg_buffer s \<and>
   pending_tx_roots (evict_loop n s) = pending_tx_roots s \<and>
   pending_changes_hashes (evict_loop n s) = pending_changes_hashes s"
  by (induction n s rule: evict_loop.induct) (auto split: list.split)

lemma evict_bounded:
  assumes "bounded s" and b: "b \<notin> imported_blocks s" and len: "length (imported_block_fifo s) \<ge> MAX_IMPORTED_BLOCKS"
  defines "t \<equiv> evict_oldest_imported_block (s\<lparr> imported_blocks := insert b (imported_blocks s) \<rparr>)"
  shows "bounded (t\<lparr> imported_block_fifo := imported_block_fifo t @ [b] \<rparr>)"
proof -
  let ?s = "s\<lparr> imported_blocks := insert b (imported_blocks s) \<rparr>"
  let ?xs = "imported_block_fifo s"
  have s: "distinct ?xs" "imported_blocks s = set ?xs" "length ?xs = MAX_IMPORTED_BLOCKS"
    using assms by (auto simp: bounded_def)
  have "\<exists>h \<in> set ?xs. Some h \<noteq> map_option pp_block_hash (pending_proposal s)"
  proof (rule ccontr)
    assume "\<not> ?thesis"
    then have "?xs ! 0 = ?xs ! 1" using s(3)
      by (metis MAX_IMPORTED_BLOCKS_def nth_mem one_less_numeral_iff option.inject semiring_norm(76) zero_less_numeral)
    then show False using s(1,3) by (simp add: nth_eq_iff_index_eq MAX_IMPORTED_BLOCKS_def)
  qed
  then have "imported_blocks t = insert b (set (imported_block_fifo t)) \<and>
      distinct (imported_block_fifo t) \<and> b \<notin> set (imported_block_fifo t) \<and>
      Suc (length (imported_block_fifo t)) = length (imported_block_fifo s)"
    using evict_loop_drops [of ?s b "length ?xs"] s b
    by (simp add: t_def evict_oldest_imported_block_def)
  then show ?thesis
    using assms(1) s(3) by (auto simp: bounded_def t_def evict_oldest_imported_block_def evict_loop_keeps)
qed

lemma bounded_parents [simp]: "bounded (s\<lparr> imported_parents := p \<rparr>) = bounded s"
  by (simp add: bounded_def)

lemma record_import_bounded:
  assumes "bounded s"
  shows "bounded (record_import b parent s)"
proof -
  let ?s = "s\<lparr> imported_blocks := insert b (imported_blocks s) \<rparr>"
  let ?t = "if length (imported_block_fifo ?s) \<ge> MAX_IMPORTED_BLOCKS
    then evict_oldest_imported_block ?s else ?s"
  let ?u = "if b \<notin> imported_blocks s then ?t\<lparr> imported_block_fifo := imported_block_fifo ?t @ [b] \<rparr> else s"
  have "bounded ?u"
  proof (cases "b \<notin> imported_blocks s")
    case True
    show ?thesis
    proof (cases "length (imported_block_fifo s) \<ge> MAX_IMPORTED_BLOCKS")
      case full: True
      then show ?thesis using evict_bounded [OF assms True full] True by simp
    next
      case False
      then show ?thesis using assms True by (auto simp: bounded_def)
    qed
  next
    case False
    then show ?thesis using assms by simp
  qed
  then show ?thesis by (auto simp: record_import_def Let_def split: option.split)
qed

lemma stays_bounded_frame:
  "future_msg_buffer t = future_msg_buffer s \<Longrightarrow> imported_block_fifo t = imported_block_fifo s \<Longrightarrow>
   imported_blocks t = imported_blocks s \<Longrightarrow> pending_tx_roots t = pending_tx_roots s \<Longrightarrow>
   pending_changes_hashes t = pending_changes_hashes s \<Longrightarrow> stays_bounded s t"
  by (simp add: stays_bounded_def bounded_def)

lemma framed_tx_roots [simp]: "framed pending_tx_roots"
  by (simp add: framed_def)

lemma enter_view_bounded: "stays_bounded s (enter_view v s)"
  by (auto simp: stays_bounded_def bounded_def enter_view_def Let_def framed_tick
      sync_local_validator_index_def forget_imports_def reset_pacemaker_def upd_round_def split: option.split)

interpretation bounds: field_event_relation L stays_bounded for L
proof unfold_locales
  fix s t u :: engine
  show "stays_bounded s t \<Longrightarrow> stays_bounded t u \<Longrightarrow> stays_bounded s u" by (simp add: stays_bounded_def)
  show "stays_bounded s (enter_view v s)" for v by (rule enter_view_bounded)
  show "stays_bounded s (buffer_message w m s)" for w m
    by (simp add: stays_bounded_def buffer_message_bounded)
  show "stays_bounded s (record_import b parent s)" for b parent
    by (simp add: stays_bounded_def record_import_bounded)
  show "stays_bounded s (s\<lparr> future_msg_buffer := still_buffered v (future_msg_buffer s) \<rparr>)" for v
    by (auto simp: stays_bounded_def bounded_def still_buffered_def intro: le_trans [OF length_filter_le])
  show "length (future_msg_buffer s) < MAX_FUTURE_MESSAGES \<Longrightarrow> stays_bounded s (buffer_push w m s)" for w m
    by (simp add: stays_bounded_def bounded_def buffer_push_def)
  show "stays_bounded s (forget_imports s)"
    by (auto simp: stays_bounded_def bounded_def forget_imports_def)
  show "stays_bounded s (s\<lparr> pending_tx_roots := bf_insert k h (pending_tx_roots s) \<rparr>)" for k h
    by (simp add: stays_bounded_def bounded_def bf_insert_inv)
  show "stays_bounded s (s\<lparr> pending_tx_roots := fst (bf_remove k (pending_tx_roots s)) \<rparr>)" for k
    by (simp add: stays_bounded_def bounded_def bf_remove_inv)
  show "stays_bounded s (s\<lparr> pending_changes_hashes := bf_insert k h (pending_changes_hashes s) \<rparr>)" for k h
    by (simp add: stays_bounded_def bounded_def bf_insert_inv)
qed (rule stays_bounded_frame; simp add: framed_steps note_accepted_def reset_pacemaker_def upd_round_def upd_epochs_def
      on_epochs_def cross_boundary_def Let_def split: prod.split option.split)+

lemma engine_step_bounded: "engine_step L s t \<Longrightarrow> stays_bounded s t"
proof (induction rule: engine_step.induct)
  case (step_event ev s t r)
  then show ?case using bounds.rel_process_event [of s L ev] by simp
next
  case (step_timeout s t r)
  then show ?case using bounds.rel_timeout_event [of s L] by simp
next
  case (step_authenticated a s t r)
  then show ?case using bounds.rel_authenticated [of s L a] by simp
next
  case (step_add info s t r)
  then show ?case by (auto simp: on_epochs_def split: prod.splits intro!: stays_bounded_frame)
next
  case (step_remove addr s t r)
  then show ?case by (auto simp: on_epochs_def split: prod.splits intro!: stays_bounded_frame)
next
  case (step_sync_index s)
  show ?case by (rule stays_bounded_frame)
    (simp_all add: sync_local_validator_index_def Let_def split: option.split)
qed (rule stays_bounded_frame; simp)+

lemma run_bounded: "run L s t \<Longrightarrow> bounded s \<Longrightarrow> bounded t"
  by (induction rule: rtranclp_induct) (auto dest: engine_step_bounded simp: stays_bounded_def)

lemma engine_from_bounded: "bounded (engine_from L index sk em rs base mx env)"
  by (simp add: engine_from_def Let_def bounded_def framed_tick bf_new_inv MAX_FUTURE_MESSAGES_def)

end
