(* ===== verification/N42_LockSafety.thy ===== *)
theory N42_LockSafety
  imports N42_Bounds
begin

text \<open>
  The locking rule along whole runs. Every accepted proposal carries a justification at least as
  high as the lock, every round-one vote is for an accepted proposal of its view, every commit
  vote comes after the lock of its view was made durable, and views only grow: the relation
  \<open>lock_ordered\<close> says so of the history a step adds, and every event respects it.
\<close>

section \<open>Order in the history\<close>

definition stamped :: "signing_profile \<Rightarrow> effect \<Rightarrow> view_number \<Rightarrow> bool" where
  "stamped pr e v \<longleftrightarrow> (\<exists>m. e = Signed m \<and> (votes_of pr v m \<or> commit_votes_of pr v m)) \<or>
     (\<exists>p. e = Accepted p \<and> p_view p = v)"

definition before :: "signing_profile \<Rightarrow> effect \<Rightarrow> effect \<Rightarrow> bool" where
  "before pr e e' \<longleftrightarrow> (\<forall>v w. stamped pr e v \<longrightarrow> stamped pr e' w \<longrightarrow> v \<le> w) \<and>
     (\<forall>qc p. e = Logged (LogLock qc) \<longrightarrow> e' = Accepted p \<longrightarrow> qc_view qc \<le> qc_view (p_justify_qc p))"

definition above :: "signing_profile \<Rightarrow> round_state \<Rightarrow> effect \<Rightarrow> bool" where
  "above pr r e \<longleftrightarrow> (\<forall>v. stamped pr e v \<longrightarrow> current_view r \<le> v) \<and>
     (\<forall>p. e = Accepted p \<longrightarrow> qc_view (locked_qc r) \<le> qc_view (p_justify_qc p))"

definition below :: "signing_profile \<Rightarrow> round_state \<Rightarrow> effect \<Rightarrow> bool" where
  "below pr r e \<longleftrightarrow> (\<forall>v. stamped pr e v \<longrightarrow> v \<le> current_view r) \<and>
     (\<forall>qc. e = Logged (LogLock qc) \<longrightarrow> qc_view qc \<le> qc_view (locked_qc r))"

lemma below_above_before: "below pr r e \<Longrightarrow> above pr r e' \<Longrightarrow> before pr e e'"
  unfolding below_def above_def before_def by (blast intro: order_trans)

lemma below_mono: "below pr r e \<Longrightarrow> round_le r r' \<Longrightarrow> below pr r' e"
  unfolding below_def round_le_def by (blast intro: order_trans)

lemma above_mono: "above pr r' e \<Longrightarrow> round_le r r' \<Longrightarrow> above pr r e"
  unfolding above_def round_le_def by (blast intro: order_trans)

definition ordered :: "signing_profile \<Rightarrow> round_state \<Rightarrow> round_state \<Rightarrow> effect list \<Rightarrow> bool" where
  "ordered pr r r' seg \<longleftrightarrow> sorted_wrt (before pr) seg \<and>
     (\<forall>e \<in> set seg. above pr r e \<and> below pr r' e)"

lemma ordered_Nil [simp]: "ordered pr r r' []"
  by (simp add: ordered_def)

lemma ordered_append:
  assumes "ordered pr r r' xs" and "ordered pr r' r'' ys" and "round_le r r'" and "round_le r' r''"
  shows "ordered pr r r'' (xs @ ys)"
  using assms unfolding ordered_def sorted_wrt_append set_append
  by (blast intro: below_above_before below_mono above_mono)

section \<open>Support of the votes\<close>

definition supports :: "signing_profile \<Rightarrow> effect set \<Rightarrow> bytes \<Rightarrow> bool" where
  "supports pr E m \<longleftrightarrow> (\<forall>v.
     (votes_of pr v m \<longrightarrow> (\<exists>p. Accepted p \<in> E \<and> p_view p = v \<and> m = vote_message pr v (p_block_hash p))) \<and>
     (commit_votes_of pr v m \<longrightarrow> (\<exists>qc. Logged (LogLock qc) \<in> E \<and> v \<le> qc_view qc)))"

text \<open>A signed vote has its support, and a recorded commit vote a recorded lock at least as high.\<close>

definition backed :: "signing_profile \<Rightarrow> effect set \<Rightarrow> effect \<Rightarrow> bool" where
  "backed pr E e \<longleftrightarrow> (\<forall>m. e = Signed m \<longrightarrow> supports pr E m) \<and>
     (\<forall>v. e = Logged (LogCommitVote v) \<longrightarrow> (\<exists>qc. Logged (LogLock qc) \<in> E \<and> v \<le> qc_view qc))"

definition supported :: "signing_profile \<Rightarrow> effect list \<Rightarrow> bool" where
  "supported pr h \<longleftrightarrow> (\<forall>a e b. h = a @ e # b \<longrightarrow> backed pr (set a) e)"

lemma supported_Nil [simp]: "supported pr []"
  by (simp add: supported_def)

lemma supported_snoc: "supported pr (h @ [e]) \<longleftrightarrow> supported pr h \<and> backed pr (set h) e"
proof
  assume s: "supported pr (h @ [e])"
  have "backed pr (set a) x" if "h = a @ x # b" for a x b
    using s that unfolding supported_def by (metis append_Cons append_assoc)
  then show "supported pr h \<and> backed pr (set h) e"
    using s unfolding supported_def by blast
next
  assume s: "supported pr h \<and> backed pr (set h) e"
  show "supported pr (h @ [e])"
    unfolding supported_def
  proof (intro allI impI)
    fix a x b
    assume eq: "h @ [e] = a @ x # b"
    show "backed pr (set a) x"
    proof (cases b rule: rev_cases)
      case Nil
      then show ?thesis using eq s by simp
    next
      case (snoc b' y)
      then have "h = a @ x # b'" using eq by simp
      then show ?thesis using s unfolding supported_def by blast
    qed
  qed
qed

lemma supports_mono: "supports pr E m \<Longrightarrow> E \<subseteq> E' \<Longrightarrow> supports pr E' m"
  unfolding supports_def by blast

lemma backed_mono: "backed pr E e \<Longrightarrow> E \<subseteq> E' \<Longrightarrow> backed pr E' e"
  unfolding backed_def using supports_mono by blast

lemma supported_append: "supported pr h \<Longrightarrow> supported pr h' \<Longrightarrow> supported pr (h @ h')"
  by (induction h' rule: rev_induct)
    (auto simp: supported_snoc backed_mono simp flip: append_assoc)

lemma supported_prefix: "supported pr (h @ h') \<Longrightarrow> supported pr h"
  by (induction h' rule: rev_induct) (auto simp: supported_snoc simp flip: append_assoc)

section \<open>The relation\<close>

definition linked :: "engine \<Rightarrow> bool" where
  "linked s \<longleftrightarrow> supported (signing_profile s) (trace s) \<and>
     (\<forall>c. vote_collector s = Some c \<longrightarrow> vc_view c = view_of s) \<and>
     (\<forall>pp. pending_proposal s = Some pp \<longrightarrow> (\<exists>p. Accepted p \<in> set (trace s) \<and>
        p_view p = pp_view pp \<and> p_block_hash p = pp_block_hash pp))"

definition lock_ordered :: "engine \<Rightarrow> engine \<Rightarrow> bool" where
  "lock_ordered s t \<longleftrightarrow> signing_profile t = signing_profile s \<and>
     round_le (round_state s) (round_state t) \<and>
     (\<exists>seg. trace t = trace s @ seg \<and>
        (linked s \<longrightarrow> linked t \<and> ordered (signing_profile s) (round_state s) (round_state t) seg))"

lemma lock_ordered_trans: "lock_ordered s t \<Longrightarrow> lock_ordered t u \<Longrightarrow> lock_ordered s u"
proof -
  assume st: "lock_ordered s t" and tu: "lock_ordered t u"
  from st obtain x where x: "signing_profile t = signing_profile s" "round_le (round_state s) (round_state t)"
      "trace t = trace s @ x"
      "linked s \<Longrightarrow> linked t \<and> ordered (signing_profile s) (round_state s) (round_state t) x"
    unfolding lock_ordered_def by blast
  from tu obtain y where y: "signing_profile u = signing_profile t" "round_le (round_state t) (round_state u)"
      "trace u = trace t @ y"
      "linked t \<Longrightarrow> linked u \<and> ordered (signing_profile t) (round_state t) (round_state u) y"
    unfolding lock_ordered_def by blast
  have "trace u = trace s @ (x @ y)" using x(3) y(3) by simp
  moreover have "linked s \<Longrightarrow> linked u \<and> ordered (signing_profile s) (round_state s) (round_state u) (x @ y)"
    using x(4) y(4) ordered_append [OF _ _ x(2) y(2)] unfolding x(1) by blast
  ultimately show ?thesis
    unfolding lock_ordered_def using x(1,2) y(1,2) round_le_trans by metis
qed

lemma lock_ordered_frame:
  assumes "signing_profile t = signing_profile s" and "round_le (round_state s) (round_state t)"
    and "trace t = trace s"
    and "\<And>c. linked s \<Longrightarrow> vote_collector t = Some c \<Longrightarrow> vc_view c = view_of t"
    and "\<And>pp. pending_proposal t = Some pp \<Longrightarrow> pending_proposal s = Some pp"
  shows "lock_ordered s t"
  unfolding lock_ordered_def
proof (intro conjI exI [of _ "[]"] impI)
  assume l: "linked s"
  show "linked t" unfolding linked_def assms(1,3) using l assms(4) [OF l] assms(5)
    by (auto simp: linked_def)
qed (use assms in simp_all)

lemma lock_ordered_effect:
  assumes "signing_profile t = signing_profile s" and "round_state t = round_state s"
    and "trace t = trace s @ [e]" and "vote_collector t = vote_collector s"
    and "pending_proposal t = pending_proposal s"
    and "linked s \<Longrightarrow> above (signing_profile s) (round_state s) e \<and> below (signing_profile s) (round_state s) e"
    and "linked s \<Longrightarrow> backed (signing_profile s) (set (trace s)) e"
  shows "lock_ordered s t"
  unfolding lock_ordered_def
proof (intro conjI exI [of _ "[e]"] impI)
  assume l: "linked s"
  show "linked t" unfolding linked_def assms(1-5) using l assms(7) [OF l]
    by (auto simp: linked_def supported_snoc)
  show "ordered (signing_profile s) (round_state s) (round_state t) [e]"
    using assms(6) [OF l] by (simp add: ordered_def assms(2))
qed (use assms in simp_all)

lemma lock_ordered_extends:
  "lock_ordered s t \<Longrightarrow> set (trace s) \<subseteq> set (trace t)"
  by (auto simp: lock_ordered_def)

lemma lock_ordered_linked: "lock_ordered s t \<Longrightarrow> linked s \<Longrightarrow> linked t"
  by (auto simp: lock_ordered_def)

lemma lock_ordered_if_linked:
  assumes "disciplined s t" and "linked s \<Longrightarrow> lock_ordered s t"
  shows "lock_ordered s t"
  using assms by (cases "linked s") (auto simp: lock_ordered_def disciplined_def)

definition steady :: "engine \<Rightarrow> engine \<Rightarrow> bool" where
  "steady s t \<longleftrightarrow> lock_ordered s t \<and> view_of t = view_of s"

lemma steady_trans: "steady s t \<Longrightarrow> steady t u \<Longrightarrow> steady s u"
  by (auto simp: steady_def intro: lock_ordered_trans)

lemma steady_frame:
  assumes "signing_profile t = signing_profile s" and "round_le (round_state s) (round_state t)"
    and "view_of t = view_of s" and "trace t = trace s" and "vote_collector t = vote_collector s"
    and "\<And>pp. pending_proposal t = Some pp \<Longrightarrow> pending_proposal s = Some pp"
  shows "steady s t"
  unfolding steady_def by (intro conjI lock_ordered_frame) (use assms in \<open>auto simp: linked_def\<close>)

lemma steady_refl: "steady s s"
  by (rule steady_frame) simp_all

lemma plain_effect:
  assumes "\<And>v. \<not> stamped pr e v" and "\<And>qc. e \<noteq> Logged (LogLock qc)"
  shows "above pr r e" and "below pr r e"
  using assms by (auto simp: above_def below_def stamped_def)

lemma steady_quiet:
  assumes "signing_profile t = signing_profile s" and "round_state t = round_state s"
    and "trace t = trace s @ [e]" and "vote_collector t = vote_collector s"
    and "pending_proposal t = pending_proposal s"
    and "\<And>v. \<not> stamped (signing_profile s) e v" and "\<And>x. e \<noteq> Logged x"
  shows "steady s t"
  unfolding steady_def
  by (intro conjI lock_ordered_effect [of t s e])
    (use assms in \<open>auto simp: plain_effect backed_def supports_def stamped_def\<close>)

lemma steady_emit: "steady s (fst (emit out s))"
proof -
  obtain rs tr where e: "fst (emit out s) = s\<lparr> out_script := rs, trace := trace s @ tr \<rparr>"
    and tr: "tr = [] \<or> tr = [Delivered out]" by (rule emit_cases)
  from tr show ?thesis
  proof
    assume "tr = []"
    then show ?thesis by (intro steady_frame) (simp_all add: e)
  next
    assume "tr = [Delivered out]"
    then show ?thesis by (intro steady_quiet [where e = "Delivered out"]) (simp_all add: e stamped_def)
  qed
qed

lemma steady_log:
  assumes "\<And>qc. e = LogLock qc \<Longrightarrow> qc_view qc \<le> qc_view (locked_qc (round_state s))"
    and "\<And>v. e = LogCommitVote v \<Longrightarrow> \<exists>qc. Logged (LogLock qc) \<in> set (trace s) \<and> v \<le> qc_view qc"
  shows "steady s (fst (vote_log_write e s))"
proof -
  obtain rs tr where w: "fst (vote_log_write e s) = s\<lparr> log_script := rs, trace := trace s @ tr \<rparr>"
    and tr: "tr = [LogFailed e] \<or> tr = [Logged e]" using vote_log_write_cases by blast
  from tr show ?thesis
  proof
    assume "tr = [LogFailed e]"
    then show ?thesis by (intro steady_quiet [where e = "LogFailed e"]) (simp_all add: w stamped_def)
  next
    assume tr: "tr = [Logged e]"
    show ?thesis
      unfolding steady_def
      by (intro conjI lock_ordered_effect [of _ s "Logged e"])
        (use assms in \<open>auto simp: w tr above_def below_def stamped_def backed_def\<close>)
  qed
qed

lemma steady_sign:
  assumes "linked s \<Longrightarrow> supports (signing_profile s) (set (trace s)) m"
    and "\<And>v. votes_of (signing_profile s) v m \<or> commit_votes_of (signing_profile s) v m \<Longrightarrow> v = view_of s"
  shows "steady s (fst (sign_with L m s))"
  unfolding steady_def
  by (intro conjI lock_ordered_effect [of _ s "Signed m"])
    (use assms in \<open>auto simp: sign_with_def above_def below_def stamped_def backed_def\<close>)

lemma steady_sign_other:
  assumes "\<And>v. \<not> votes_of (signing_profile s) v m" and "\<And>v. \<not> commit_votes_of (signing_profile s) v m"
  shows "steady s (fst (sign_with L m s))"
  by (rule steady_sign) (use assms in \<open>auto simp: supports_def\<close>)

lemma steady_note:
  assumes "p_view p = view_of s" and "qc_view (locked_qc (round_state s)) \<le> qc_view (p_justify_qc p)"
  shows "steady s (note_accepted p s)"
  unfolding steady_def
  by (intro conjI lock_ordered_effect [of _ s "Accepted p"])
    (use assms in \<open>auto simp: note_accepted_def above_def below_def stamped_def backed_def\<close>)

lemma steady_clock: "steady s (stamp f s)" "steady s (reset_pacemaker s)"
  by (rule steady_frame; simp add: stamp_def reset_pacemaker_def Let_def framed_tick)+

lemma steady_round:
  "(\<And>r. round_le r (f r)) \<Longrightarrow> (\<And>r. current_view (f r) = current_view r) \<Longrightarrow> steady s (upd_round f s)"
  by (rule steady_frame) (simp_all add: upd_round_def)

lemma steady_round_steps:
  "steady s (upd_round enter_pre_commit s)" "steady s (upd_round enter_voting s)"
  "steady s (upd_round (update_locked_qc qc) s)" "steady s (upd_round (round_commit qc) s)"
  "steady s (upd_round reset_consecutive_timeouts s)" "steady s (upd_round round_timeout s)"
  by (rule steady_round, rule round_le_intros,
      simp add: round_defs round_commit_def Let_def)+

lemma steady_record:
  "may_vote_in v (round_state s) \<Longrightarrow> steady s (upd_round (round_record_vote v) s)"
  "may_commit_vote_in v (round_state s) \<Longrightarrow> steady s (upd_round (round_record_commit_vote v) s)"
  by (rule steady_frame; auto simp: upd_round_def round_le_def round_defs)+

lemma steady_fields:
  "steady s (s\<lparr> commit_collector := vc \<rparr>)"
  "steady s (s\<lparr> timeout_collector := a \<rparr>)" "steady s (s\<lparr> future_timeout_collectors := b \<rparr>)"
  "steady s (s\<lparr> prepare_qc := c \<rparr>)" "steady s (s\<lparr> previous_prepare_qc := c \<rparr>)"
  "steady s (s\<lparr> equivocation_tracker := d \<rparr>)" "steady s (s\<lparr> commit_equivocation_tracker := d \<rparr>)"
  "steady s (s\<lparr> proposal_equivocation_tracker := e \<rparr>)" "steady s (s\<lparr> pending_tx_roots := f \<rparr>)"
  "steady s (s\<lparr> pending_changes_hashes := f \<rparr>)" "steady s (s\<lparr> pending_proposal := None \<rparr>)"
  "steady s (s\<lparr> future_msg_buffer := h \<rparr>)" "steady s (upd_epochs i s)"
  "steady s (fst (on_epochs j s))" "steady s (forget_imports s)"
  "steady s (cross_boundary s)" "steady s (s\<lparr> epoch_manager := k \<rparr>)"
  by (rule steady_frame;
      auto simp: upd_epochs_def on_epochs_def forget_imports_def cross_boundary_def Let_def
        split: prod.splits option.splits if_splits)+

lemmas steady_then =
  steady_emit [THEN steady_trans [rotated]] steady_clock [THEN steady_trans [rotated]]
  steady_round_steps [THEN steady_trans [rotated]] steady_fields [THEN steady_trans [rotated]]

lemma steady_trying:
  "steady s t \<Longrightarrow> (\<And>a. r = Ok a \<Longrightarrow> steady s (fst (k a))) \<Longrightarrow> steady s (fst (trying r t k))"
  by (cases r) auto

lemma steady_andthen:
  assumes "steady s (fst p)" and "\<And>a t. steady s t \<Longrightarrow> steady s (fst (k a t))"
  shows "steady s (fst (andthen p k))"
  using assms by (cases p; cases "snd p") auto

lemma steady_pair: "steady s t \<Longrightarrow> steady s (fst (t, r))"
  by simp

lemmas steady_intros = steady_andthen steady_trying steady_pair steady_then steady_refl


lemma steady_facts:
  assumes "steady s t"
  shows "signing_profile t = signing_profile s" and "view_of t = view_of s"
    and "x \<in> set (trace s) \<Longrightarrow> x \<in> set (trace t)" and "linked s \<Longrightarrow> linked t"
    and "round_le (round_state s) (round_state t)"
  using assms lock_ordered_extends [of s t] by (auto simp: steady_def lock_ordered_def)

section \<open>The votes\<close>

definition accepted_in :: "engine \<Rightarrow> b256 \<Rightarrow> bool" where
  "accepted_in s b \<longleftrightarrow> (\<exists>p. Accepted p \<in> set (trace s) \<and> p_view p = view_of s \<and> p_block_hash p = b)"

lemma accepted_in_steady: "accepted_in s b \<Longrightarrow> steady s t \<Longrightarrow> accepted_in t b"
  unfolding accepted_in_def by (metis steady_facts(2,3))

lemma steady_sign_vote:
  assumes "accepted_in s b" and "v = view_of s"
  shows "steady s (fst (sign_with L (vote_message (signing_profile s) v b) s))"
proof (rule steady_sign)
  show "supports (signing_profile s) (set (trace s)) (vote_message (signing_profile s) v b)"
    using assms by (auto simp: supports_def votes_of_def commit_votes_of_def accepted_in_def)
qed (use assms in \<open>auto simp: votes_of_def commit_votes_of_def\<close>)

lemma steady_sign_commit:
  assumes "Logged (LogLock qc) \<in> set (trace s)" and "v \<le> qc_view qc" and "v = view_of s"
  shows "steady s (fst (sign_with L (commit_message (signing_profile s) v b h) s))"
proof (rule steady_sign)
  show "supports (signing_profile s) (set (trace s)) (commit_message (signing_profile s) v b h)"
    using assms by (auto simp: supports_def votes_of_def commit_votes_of_def commit_message_inject
        vote_neq_commit [symmetric])
qed (use assms in \<open>auto simp: votes_of_def commit_votes_of_def commit_message_inject vote_neq_commit [symmetric]\<close>)

lemma steady_signed:
  "steady s t \<Longrightarrow> steady t (fst (sign_with L m t)) \<Longrightarrow> sign_with L m t = (u, sig) \<Longrightarrow> steady s u"
  by (auto intro: steady_trans)

lemma steady_log_vote: "steady s t \<Longrightarrow> steady s (fst (vote_log_write (LogVote v) t))"
  by (rule steady_trans, assumption, rule steady_log) auto

lemma steady_log_commit:
  "steady s t \<Longrightarrow> Logged (LogLock qc) \<in> set (trace t) \<Longrightarrow> v \<le> qc_view qc \<Longrightarrow>
     steady s (fst (vote_log_write (LogCommitVote v) t))"
  by (rule steady_trans, assumption, rule steady_log) auto

lemma steady_send_vote:
  assumes acc: "accepted_in s b" and v: "v = view_of s"
  shows "steady s (fst (send_vote L v b s))"
proof (cases "is_local_validator_active_for_view v s \<and> may_vote_in v (round_state s)")
  case True
  let ?s = "upd_round (round_record_vote v) s"
  have "steady s (fst (andthen (vote_log_write (LogVote v) ?s) (\<lambda>_ s.
      trying (leader_index_for_view v s) s (\<lambda>leader.
        let (s, vote_sig) = sign_with L (vote_message (signing_profile s) v b) s;
            v = \<lparr> v_view = v, v_block_hash = b, v_voter = my_index s, v_signature = vote_sig \<rparr>;
            s = stamp (\<lambda>t vt. vt\<lparr> vote_sent := Some t \<rparr>) s
        in emit (SendToValidator leader (MVote v)) s))))"
  proof (rule steady_andthen)
    show "steady s (fst (vote_log_write (LogVote v) ?s))"
      using True by (intro steady_log_vote steady_record) auto
    fix a t
    assume t: "steady s t"
    have "steady t (fst (sign_with L (vote_message (signing_profile t) v b) t))"
      using accepted_in_steady [OF acc t] steady_facts(2) [OF t] v by (intro steady_sign_vote) simp_all
    then have "steady s u" if "sign_with L (vote_message (signing_profile t) v b) t = (u, sig)" for u sig
      using t that by (blast intro: steady_signed)
    then show "steady s (fst (trying (leader_index_for_view v t) t (\<lambda>leader.
        let (s, vote_sig) = sign_with L (vote_message (signing_profile t) v b) t;
            v = \<lparr> v_view = v, v_block_hash = b, v_voter = my_index s, v_signature = vote_sig \<rparr>;
            s = stamp (\<lambda>t vt. vt\<lparr> vote_sent := Some t \<rparr>) s
        in emit (SendToValidator leader (MVote v)) s)))"
      using t by (auto simp: Let_def split: prod.split intro!: steady_trying steady_then)
  qed
  with True show ?thesis by (simp add: send_vote_def Let_def)
next
  case False
  then show ?thesis by (auto simp: send_vote_def steady_refl)
qed

text \<open>Making the lock and the view durable, and signing the commit vote.\<close>

lemma steady_commit_block:
  assumes may: "may_commit_vote_in v (round_state s)" and v: "v = view_of s"
    and lock: "v \<le> qc_view (locked_qc (round_state s))"
    and step: "\<And>u. steady s u \<Longrightarrow>
      (\<And>b h w sig. sign_with L (commit_message (signing_profile u) v b h) u = (w, sig) \<Longrightarrow> steady s w) \<Longrightarrow>
      steady s (fst (k u))"
  shows "steady s (fst (andthen (vote_log_write (LogLock (locked_qc (round_state s))) s) (\<lambda>_ s.
    andthen (vote_log_write (LogCommitVote v) (upd_round (round_record_commit_vote v) s)) (\<lambda>_ s. k s))))"
proof (rule andthen_from [where P = "steady s"])
  let ?qc = "locked_qc (round_state s)"
  show "steady s (fst (vote_log_write (LogLock ?qc) s))" by (rule steady_log) simp_all
  fix a :: unit and t
  assume t: "vote_log_write (LogLock ?qc) s = (t, Ok a)"
  have st: "steady s t" using steady_log [of "LogLock ?qc" s] by (simp add: t)
  have logged: "Logged (LogLock ?qc) \<in> set (trace t)" using t by (rule vote_log_Ok) simp
  have may_t: "may_commit_vote_in v (round_state t)"
    using may log_frame [OF t, of round_state] by simp
  have rec: "steady s (upd_round (round_record_commit_vote v) t)"
    using st steady_record(2) [OF may_t] by (rule steady_trans)
  show "steady s (fst (andthen (vote_log_write (LogCommitVote v)
      (upd_round (round_record_commit_vote v) t)) (\<lambda>_ s. k s)))"
  proof (rule andthen_from [where P = "steady s"])
    show rec': "steady s (fst (vote_log_write (LogCommitVote v) (upd_round (round_record_commit_vote v) t)))"
      using rec lock by (intro steady_log_commit) (simp_all add: upd_round_def logged)
    fix a' :: unit and u
    assume u: "vote_log_write (LogCommitVote v) (upd_round (round_record_commit_vote v) t) = (u, Ok a')"
    have su: "steady s u"
      using rec' by (simp add: u)
    have "Logged (LogLock ?qc) \<in> set (trace u)"
      using u by (rule vote_log_Ok) (simp add: upd_round_def logged)
    then have "steady u (fst (sign_with L (commit_message (signing_profile u) v b h) u))" for b h
      using lock v steady_facts(2) [OF su] by (intro steady_sign_commit) simp_all
    then show "steady s (fst (k u))" using su by (intro step) (auto intro: steady_signed)
  qed
qed

lemma steady_leader_commit:
  assumes "v = view_of s" and "v \<le> qc_view (locked_qc (round_state s))"
  shows "steady s (fst (leader_commit_vote L v b s))"
proof (cases "may_commit_vote_in v (round_state s)")
  case True
  show ?thesis
    unfolding leader_commit_vote_def Let_def using True assms
    by (simp, intro steady_commit_block [where L = L])
      (auto split: prod.split option.split intro!: steady_trying steady_then)
next
  case False
  then show ?thesis by (simp add: leader_commit_vote_def steady_refl)
qed

lemma steady_form_prepare:
  assumes l: "linked s"
  shows "steady s (fst (form_prepare_qc L s))"
proof (cases "vote_collector s")
  case None
  then show ?thesis by (simp add: form_prepare_qc_def Let_def steady_refl)
next
  case (Some c)
  then have c: "vc_view c = view_of s" using l by (simp add: linked_def)
  have commit: "steady s (fst (andthen (emit out (upd_round (update_locked_qc qc) u))
      (\<lambda>_ x. leader_commit_vote L (view_of s) b x)))"
    if u: "steady s u" and qc: "qc_view qc = view_of s" for out qc u b
  proof (rule andthen_from [where P = "steady s"])
    let ?u = "upd_round (update_locked_qc qc) u"
    have su: "steady s ?u" by (intro steady_then u)
    show "steady s (fst (emit out ?u))" by (intro steady_then u)
    fix a t
    assume t: "emit out ?u = (t, Ok a)"
    have r: "round_state t = round_state ?u" using emit_frame [OF t, of round_state] by simp
    have "qc_view qc \<le> qc_view (locked_qc (round_state t))"
      unfolding r by (simp add: upd_round_def update_locked_qc_ge)
    then have "steady t (fst (leader_commit_vote L (view_of s) b t))"
      using qc steady_facts(2) [OF u] steady_facts(2) [OF su] r by (intro steady_leader_commit) simp_all
    moreover have "steady s t" using steady_trans [OF su steady_emit [of ?u out]] by (simp add: t)
    ultimately show "steady s (fst (leader_commit_vote L (view_of s) b t))" by (rule steady_trans [rotated])
  qed
  show ?thesis
    unfolding form_prepare_qc_def Let_def Some option.case
    by (auto intro!: steady_refl steady_trying commit steady_then simp: build_qc_Ok(3) c)
qed

lemma lock_ordered_form_prepare: "lock_ordered s (fst (form_prepare_qc L s))"
  by (rule lock_ordered_if_linked [OF disciplined_form_prepare])
    (use steady_form_prepare in \<open>simp add: steady_def\<close>)

lemma steady_prepare: "steady s (fst (process_prepare_qc L pqc s))"
proof -
  let ?v = "view_of s"
  let ?s = "upd_round enter_pre_commit (upd_round (update_locked_qc (pqc_qc pqc)) s)"
  have s: "steady s ?s" by (intro steady_then steady_refl)
  have v: "?v = view_of ?s" using steady_facts(2) [OF s] by simp
  have lock: "qc_view (pqc_qc pqc) \<le> qc_view (locked_qc (round_state ?s))"
    using update_locked_qc_ge [of "pqc_qc pqc" "round_state s"]
    by (simp add: upd_round_def enter_pre_commit_def)
  have block: "steady s (fst (andthen (vote_log_write (LogLock (locked_qc (round_state ?s))) ?s) (\<lambda>_ s.
      andthen (vote_log_write (LogCommitVote ?v) (upd_round (round_record_commit_vote ?v) s)) (\<lambda>_ s.
        let changes_hash = cached_changes_hash (pqc_block_hash pqc) s;
            commit_msg = commit_message (signing_profile s) ?v (pqc_block_hash pqc) changes_hash;
            (s, commit_sig) = sign_with L commit_msg s
        in trying (leader_index_for_view ?v s) s (\<lambda>leader.
          let cv = \<lparr> cv_view = ?v, cv_block_hash = pqc_block_hash pqc,
                     cv_voter = my_index s, cv_signature = commit_sig \<rparr>;
              s = stamp (\<lambda>t vt. vt\<lparr> commit_vote_sent := Some t \<rparr>) s
          in emit (SendToValidator leader (MCommitVote cv)) s)))))"
    if may: "may_commit_vote_in ?v (round_state ?s)" and qc: "qc_view (pqc_qc pqc) = ?v"
    by (rule steady_trans [OF s], rule steady_commit_block [where L = L, OF may v lock [unfolded qc]])
      (auto simp: Let_def split: prod.split intro!: steady_trying steady_then)
  show ?thesis
  proof (cases "pqc_view pqc = ?v \<and> qc_view (pqc_qc pqc) = ?v")
    case True
    note block' = block [OF _ conjunct2 [OF True]]
    show ?thesis
      unfolding process_prepare_qc_def Let_def
      using True s block' by (auto simp: Let_def intro!: steady_trying steady_refl)
  next
    case False
    then show ?thesis by (auto simp: process_prepare_qc_def Let_def steady_refl)
  qed
qed

section \<open>Proposals\<close>

lemma steady_absorb: "steady s (absorb_piggybacked_qc L qco s)"
  unfolding absorb_piggybacked_qc_def
  by (auto split: option.split outcome.split intro!: steady_intros)

lemma steady_pending:
  assumes "accepted_in s b"
  shows "steady s (s\<lparr> pending_proposal := Some \<lparr> pp_view = view_of s, pp_block_hash = b, pp_justify_block = j \<rparr> \<rparr>)"
  unfolding steady_def lock_ordered_def
  using assms by (auto simp: linked_def accepted_in_def)

lemma steady_vote_on:
  assumes "accepted_in s b" and "steady s t" and "v = view_of s"
  shows "steady s (fst (send_vote L v b t))"
  using assms by (intro steady_trans [OF assms(2)] steady_send_vote)
    (auto intro: accepted_in_steady simp: steady_facts(2))

lemma steady_await:
  assumes "accepted_in s b" and "steady s t" and "v = view_of s"
  shows "steady s (t\<lparr> pending_proposal := Some \<lparr> pp_view = v, pp_block_hash = b, pp_justify_block = j \<rparr> \<rparr>)"
  using steady_trans [OF assms(2) steady_pending [OF accepted_in_steady [OF assms(1,2)], of j]]
    steady_facts(2) [OF assms(2)] assms(3) by simp

lemma steady_accept:
  assumes acc: "accepted_in s (p_block_hash p)"
  shows "steady s (fst (accept_proposal L p s))"
  unfolding accept_proposal_def Let_def
  by (auto split: option.split
      intro!: steady_andthen steady_vote_on [OF acc] steady_await [OF acc] steady_then steady_refl)

lemma steady_tracked:
  assumes "p_view p = view_of s"
  shows "steady s (fst (process_tracked_proposal L p s))"
proof -
  have "steady s (fst (accept_proposal L p (absorb_piggybacked_qc L (p_prepare_qc p)
      (upd_round (update_locked_qc (p_justify_qc p)) (note_accepted p s)))))"
    if safe: "is_safe_to_vote (p_justify_qc p) (round_state s)"
  proof -
    let ?s = "note_accepted p s"
    let ?t = "absorb_piggybacked_qc L (p_prepare_qc p) (upd_round (update_locked_qc (p_justify_qc p)) ?s)"
    have n: "steady s ?s" using assms safe by (intro steady_note) (simp_all add: is_safe_to_vote_def)
    have t: "steady ?s ?t" by (rule steady_trans [OF steady_round_steps(3) steady_absorb])
    have "accepted_in ?s (p_block_hash p)" using assms by (auto simp: accepted_in_def note_accepted_def)
    then have "steady ?t (fst (accept_proposal L p ?t))" by (intro steady_accept accepted_in_steady [OF _ t])
    with n t show ?thesis by (blast intro: steady_trans)
  qed
  then show ?thesis
    unfolding process_tracked_proposal_def Let_def by (auto intro!: steady_trying steady_refl)
qed

lemma check_proposal_view: "check_proposal L p s = Ok m \<Longrightarrow> p_view p = view_of s"
  by (simp add: check_proposal_def Let_def split: if_splits)

lemma steady_proposal: "steady s (fst (process_proposal L p s))"
proof -
  have tracked: "steady s (fst (process_tracked_proposal L p (s\<lparr> proposal_equivocation_tracker := tr \<rparr>)))"
    if "check_proposal L p s = Ok m" for m tr
    by (rule steady_trans [OF steady_fields(8)], rule steady_tracked)
      (simp add: check_proposal_view [OF that])
  show ?thesis
    unfolding process_proposal_def Let_def
    by (auto split: option.split intro!: steady_trying steady_refl steady_andthen steady_then tracked
        steady_tracked check_proposal_view)
qed

lemma steady_recover: "steady s (fst (recover_late_committed_proposal L p s))"
  unfolding recover_late_committed_proposal_def Let_def
  by (auto split: option.split outcome.split intro!: steady_intros)

lemma steady_new_collector:
  assumes "vc_view c = view_of s"
  shows "steady s (s\<lparr> vote_collector := Some c \<rparr>)"
  unfolding steady_def by (intro conjI lock_ordered_frame) (use assms in simp_all)

lemma steady_same_collector:
  assumes "vote_collector s = Some c" and "vc_view c' = vc_view c"
  shows "steady s (s\<lparr> vote_collector := Some c' \<rparr>)"
  unfolding steady_def by (intro conjI lock_ordered_frame) (use assms in \<open>auto simp: linked_def\<close>)

lemma steady_counted:
  assumes "add_verified_vote i sig c = Ok c'" and "vote_collector s = Some c"
  shows "steady s (s\<lparr> vote_collector := Some c' \<rparr>)"
  using assms by (intro steady_same_collector [of s c]) (auto simp: add_verified_vote_Ok_iff)

lemma steady_leader_vote:
  assumes may: "may_vote_in v (round_state s)" and v: "v = view_of s" and acc: "accepted_in s b"
    and pr: "pr = signing_profile s"
  shows "steady s (fst (andthen (vote_log_write (LogVote v) (upd_round (round_record_vote v) s))
    (\<lambda>_ s'. let (s, leader_vote_sig) = sign_with L (vote_message pr v b) s' in
      andthen
        (case vote_collector s of
           None \<Rightarrow> (s, Ok ())
         | Some c \<Rightarrow> trying (add_verified_vote (my_index s) leader_vote_sig c) s
             (\<lambda>c'. (s\<lparr> vote_collector := Some c' \<rparr>, Ok ())))
        (\<lambda>_ s. let s = stamp (\<lambda>t vt. vt\<lparr> proposal_sent := Some t \<rparr>) s in
          andthen (emit (BroadcastMessage (MProposal p)) s) (\<lambda>_ s. (s, Ok True))))))"
proof (rule steady_andthen)
  show "steady s (fst (vote_log_write (LogVote v) (upd_round (round_record_vote v) s)))"
    by (intro steady_log_vote steady_record may)
  fix a t
  assume t: "steady s t"
  note same = steady_facts(1,2) [OF t]
  have "steady t (fst (sign_with L (vote_message (signing_profile t) v b) t))"
    using accepted_in_steady [OF acc t] same v by (intro steady_sign_vote) simp_all
  then have vote: "steady t (fst (sign_with L (vote_message pr v b) t))" using same pr by simp
  obtain u sig where u: "sign_with L (vote_message pr v b) t = (u, sig)" by fastforce
  have signed: "steady s u" by (rule steady_signed [OF t vote u])
  have counted: "steady s (u\<lparr> vote_collector := Some c' \<rparr>)"
    if "vote_collector u = Some c" "add_verified_vote (my_index u) sig c = Ok c'" for c c'
    using steady_trans [OF signed steady_counted [OF that(2,1)]] .
  show "steady s (fst (let (s, leader_vote_sig) = sign_with L (vote_message pr v b) t in
      andthen
        (case vote_collector s of
           None \<Rightarrow> (s, Ok ())
         | Some c \<Rightarrow> trying (add_verified_vote (my_index s) leader_vote_sig c) s
             (\<lambda>c'. (s\<lparr> vote_collector := Some c' \<rparr>, Ok ())))
        (\<lambda>_ s. let s = stamp (\<lambda>t vt. vt\<lparr> proposal_sent := Some t \<rparr>) s in
          andthen (emit (BroadcastMessage (MProposal p)) s) (\<lambda>_ s. (s, Ok True)))))"
    by (auto simp: u Let_def split: option.split
        intro!: steady_andthen steady_trying steady_then counted signed)
qed

lemma steady_sign_proposal:
  assumes "steady s t" and "sign_with L (proposal_message L (signing_profile t) v b cs) t = (u, sig)"
  shows "steady s u"
proof (rule steady_signed [OF assms(1) _ assms(2)])
  show "steady t (fst (sign_with L (proposal_message L (signing_profile t) v b cs) t))"
    by (rule steady_sign_other) (auto simp: votes_of_def commit_votes_of_def proposal_eq_vote_iff)
qed

lemma steady_propose: "steady s (fst (propose_block L b tx s))"
proof -
  let ?v = "view_of s"
  let ?cs = "pending_changes_for_proposal (epoch_manager s)"
  let ?h = "case ?cs of Some changes \<Rightarrow> hash_changes L changes | None \<Rightarrow> 0"
  let ?s1 = "s\<lparr> previous_prepare_qc := None,
    pending_changes_hashes := bf_insert b ?h (pending_changes_hashes s) \<rparr>"
  obtain s2 sig where s2: "sign_with L (proposal_message L (signing_profile s) ?v b ?cs) ?s1 = (s2, sig)"
    by fastforce
  have d2: "steady s s2"
  proof (rule steady_sign_proposal)
    show "steady s ?s1" by (intro steady_intros)
    show "sign_with L (proposal_message L (signing_profile ?s1) ?v b ?cs) ?s1 = (s2, sig)" using s2 by simp
  qed
  have r2: "round_state s2 = round_state s" using sign_frame [OF s2, of round_state] by simp
  let ?vc = "vc_new ?v b (vset_len (set_for_view ?v s2))"
  let ?s3 = "upd_round enter_voting (s2\<lparr> vote_collector := Some ?vc, commit_collector := Some ?vc \<rparr>)"
  have vc: "vc_view ?vc = view_of s2" by (simp add: vc_new_def r2)
  have d3: "steady s ?s3"
    by (intro steady_then steady_trans [OF d2 steady_new_collector [OF vc]])
  have vote: "steady s (fst (andthen (vote_log_write (LogVote ?v)
      (upd_round (round_record_vote ?v) (note_accepted p ?s3)))
    (\<lambda>_ s'. let (s, leader_vote_sig) = sign_with L (vote_message (signing_profile s2) ?v b) s' in
      andthen
        (case vote_collector s of
           None \<Rightarrow> (s, Ok ())
         | Some c \<Rightarrow> trying (add_verified_vote (my_index s) leader_vote_sig c) s
             (\<lambda>c'. (s\<lparr> vote_collector := Some c' \<rparr>, Ok ())))
        (\<lambda>_ s. let s = stamp (\<lambda>t vt. vt\<lparr> proposal_sent := Some t \<rparr>) s in
          andthen (emit (BroadcastMessage (MProposal p)) s) (\<lambda>_ s. (s, Ok True))))))"
    if "may_vote_in ?v (round_state ?s3)" "p_view p = ?v" "p_block_hash p = b"
      "p_justify_qc p = locked_qc (round_state s)" for p
  proof (rule steady_trans [OF steady_trans [OF d3 steady_note] steady_leader_vote])
    show "accepted_in (note_accepted p ?s3) b"
      using that r2 by (auto simp: accepted_in_def note_accepted_def upd_round_def enter_voting_def)
  qed (use that r2 in \<open>simp_all add: note_accepted_def upd_round_def enter_voting_def\<close>)
  show ?thesis
    unfolding propose_block_def Let_def
    using d3 vote
    by (auto simp: s2 Let_def intro!: steady_trying steady_intros)
qed

lemma evict_loop_more:
  "vote_collector (evict_loop n s) = vote_collector s \<and> pending_proposal (evict_loop n s) = pending_proposal s"
  by (induction n s rule: evict_loop.induct) (auto split: list.split)

lemma record_import_more:
  "vote_collector (record_import b p s) = vote_collector s \<and>
   pending_proposal (record_import b p s) = pending_proposal s"
  by (simp add: record_import_def evict_oldest_imported_block_def Let_def evict_loop_more split: option.split)

lemma steady_record_import: "steady s (record_import b p s)"
  by (rule steady_frame) (simp_all add: record_import_frame record_import_more)

lemma steady_import:
  assumes "linked s"
  shows "steady s (fst (on_block_imported L b parent s))"
proof -
  let ?s = "record_import b parent s"
  note st = steady_record_import [of s b parent]
  have vote: "steady s (fst (send_vote L (pp_view pp) b ?s))"
    if "pending_proposal ?s = Some pp" "pp_view pp = view_of ?s" "pp_block_hash pp = b" for pp
  proof -
    have "accepted_in ?s b"
      using that steady_facts(4) [OF st assms] unfolding linked_def accepted_in_def by metis
    then show ?thesis using that(2) by (intro steady_trans [OF st steady_send_vote])
  qed
  show ?thesis
  proof (cases "pending_proposal ?s")
    case None
    then show ?thesis using st by (simp add: on_block_imported_def Let_def)
  next
    case (Some pp)
    then show ?thesis using st vote [OF Some] by (auto simp: on_block_imported_def Let_def)
  qed
qed

lemma lock_ordered_import: "lock_ordered s (fst (on_block_imported L b parent s))"
  by (rule lock_ordered_if_linked [OF disciplined_import])
    (use steady_import in \<open>simp add: steady_def\<close>)

lemma steady_sign_timeout: "steady s (fst (sign_timeout L s))"
  using steady_sign_other [of s "timeout_msg_bytes (signing_profile s) (view_of s)" L]
  by (simp add: sign_timeout_def Let_def case_prod_beta votes_of_def commit_votes_of_def
      commit_neq_timeout [symmetric] vote_neq_timeout [symmetric])

lemma steady_sign_new_view:
  "steady s (fst (sign_with L (new_view_msg_bytes (signing_profile s) v) s))"
  by (rule steady_sign_other)
    (simp_all add: votes_of_def commit_votes_of_def commit_neq_new_view [symmetric] vote_neq_new_view [symmetric])

lemma lock_ordered_enter: "lock_ordered s (enter_view v s)"
  by (rule lock_ordered_frame)
    (auto simp: enter_view_def Let_def framed_tick sync_local_validator_index_def forget_imports_def
      reset_pacemaker_def upd_round_def round_le_advance split: option.splits if_splits)

lemma steady_lock_ordered: "steady s t \<Longrightarrow> lock_ordered s t"
  by (simp add: steady_def)

section \<open>Every event keeps the order\<close>

interpretation locks: engine_event_relation L lock_ordered for L
proof unfold_locales
  fix s t u :: engine
  show "lock_ordered s t \<Longrightarrow> lock_ordered t u \<Longrightarrow> lock_ordered s u" by (rule lock_ordered_trans)
  show "lock_ordered s (fst (form_prepare_qc L s))" by (rule lock_ordered_form_prepare)
  show "lock_ordered s (enter_view v s)" for v by (rule lock_ordered_enter)
  show "lock_ordered s (fst (on_block_imported L b parent s))" for b parent by (rule lock_ordered_import)
  show "vote_collector s = Some c \<Longrightarrow> vc_view c' = vc_view c \<Longrightarrow>
      lock_ordered s (s\<lparr> vote_collector := Some c' \<rparr>)" for c c'
    by (intro steady_lock_ordered steady_same_collector)
  show "lock_ordered s (buffer_push w m s)" for w m
    unfolding buffer_push_def by (intro steady_lock_ordered steady_fields)
  show "lock_ordered s (buffer_message w m s)" for w m
    unfolding buffer_message_def buffer_push_def Let_def
    by (auto intro!: steady_lock_ordered steady_intros)
qed (rule steady_lock_ordered, rule steady_refl steady_emit steady_clock steady_round_steps steady_fields
      steady_prepare steady_proposal steady_sign_timeout steady_sign_new_view steady_recover steady_propose)+

lemma engine_step_lock_ordered: "engine_step L s t \<Longrightarrow> lock_ordered s t"
proof (induction rule: engine_step.induct)
  case (step_event ev s t r)
  then show ?case using locks.rel_process_event [of s L ev] by simp
next
  case (step_timeout s t r)
  then show ?case using locks.rel_timeout_event [of s L] by simp
next
  case (step_authenticated a s t r)
  then show ?case using locks.rel_authenticated [of s L a] by simp
next
  case (step_add info s t r)
  then show ?case using steady_fields(14) [of s "propose_add_validator info"] by (simp add: steady_def)
next
  case (step_remove addr s t r)
  then show ?case using steady_fields(14) [of s "propose_remove_validator addr"] by (simp add: steady_def)
next
  case (step_sync_index s)
  show ?case by (intro steady_lock_ordered steady_frame)
    (auto simp: sync_local_validator_index_def Let_def split: option.splits if_splits)
qed (intro steady_lock_ordered steady_frame; simp)+

lemma run_lock_ordered: "run L s t \<Longrightarrow> lock_ordered s t"
proof (induction rule: rtranclp_induct)
  case base
  show ?case by (intro steady_lock_ordered steady_refl)
next
  case (step t u)
  then show ?case using engine_step_lock_ordered lock_ordered_trans by blast
qed

end
