(* ===== verification/N42_Agreement.thy ===== *)
theory N42_Agreement
  imports N42_LockSafety
begin

text \<open>
  Agreement among validators that crash and recover. A correct validator's history is a sequence
  of lifetimes of the engine: each starts from recovered state that is at least what the vote log
  holds, runs any events, and may be cut off by a crash at any effect. Two certificates that
  verify against the same validator set share a correct signer, and the discipline of that
  signer's history excludes two certificates of one view for different blocks, and ties a
  certificate of a later view to the lock of an earlier commit.
\<close>

section \<open>The discipline over several lifetimes\<close>

lemma discipline_prefix:
  assumes "signing_discipline P lg lo hi (seg @ rest)"
  shows "signing_discipline P lg lo hi seg"
  unfolding signing_discipline_def
proof (intro conjI allI impI)
  fix v m
  show "Signed m \<in> set seg \<Longrightarrow> P v m \<Longrightarrow> lo < v" "Signed m \<in> set seg \<Longrightarrow> P v m \<Longrightarrow> v \<le> hi"
    using assms by (simp_all add: signing_discipline_def)
next
  fix v m m'
  show "Signed m \<in> set seg \<Longrightarrow> Signed m' \<in> set seg \<Longrightarrow> P v m \<Longrightarrow> P v m' \<Longrightarrow> m = m'"
    using assms unfolding signing_discipline_def set_append by blast
next
  fix pre post v m
  assume "seg = pre @ Signed m # post" "P v m"
  then have "seg @ rest = pre @ Signed m # (post @ rest)" by simp
  then show "Logged (lg v) \<in> set pre"
    using assms \<open>P v m\<close> unfolding signing_discipline_def by blast
qed

definition recorded :: "(view_number \<Rightarrow> bytes \<Rightarrow> bool) \<Rightarrow> (view_number \<Rightarrow> log_entry) \<Rightarrow> effect list \<Rightarrow> bool" where
  "recorded P lg h \<longleftrightarrow>
     (\<forall>v m. Signed m \<in> set h \<longrightarrow> P v m \<longrightarrow> Logged (lg v) \<in> set h) \<and>
     (\<forall>v m m'. Signed m \<in> set h \<longrightarrow> Signed m' \<in> set h \<longrightarrow> P v m \<longrightarrow> P v m' \<longrightarrow> m = m')"

lemma recorded_extend:
  assumes h: "recorded P lg h" and "\<forall>v. Logged (lg v) \<in> set h \<longrightarrow> v \<le> lo"
    and seg: "signing_discipline P lg lo hi seg"
  shows "recorded P lg (h @ seg)"
proof -
  have old: "v \<le> lo" if "Signed m \<in> set h" "P v m" for v m
    using that h assms(2) by (auto simp: recorded_def)
  have new: "lo < v" if "Signed m \<in> set seg" "P v m" for v m
    using that seg by (auto simp: signing_discipline_def)
  have logged: "Logged (lg v) \<in> set seg" if m: "Signed m \<in> set seg" "P v m" for v m
  proof -
    from m(1) obtain pre post where "seg = pre @ Signed m # post" by (auto simp: in_set_conv_decomp)
    then show ?thesis using seg m(2) by (auto simp: signing_discipline_def)
  qed
  have "m = m'" if m: "Signed m \<in> set (h @ seg)" "Signed m' \<in> set (h @ seg)" "P v m" "P v m'" for v m m'
  proof (cases "Signed m \<in> set h \<longleftrightarrow> Signed m' \<in> set h")
    case True
    show ?thesis
    proof (cases "Signed m \<in> set h")
      case yes: True
      then show ?thesis using True h m(3,4) by (auto simp: recorded_def)
    next
      case False
      then have "Signed m \<in> set seg" "Signed m' \<in> set seg" using True m(1,2) by auto
      then show ?thesis using seg m(3,4) unfolding signing_discipline_def by blast
    qed
  next
    case False
    then have "(Signed m \<in> set h \<and> Signed m' \<in> set seg) \<or> (Signed m' \<in> set h \<and> Signed m \<in> set seg)"
      using m(1,2) by auto
    then have False using old [OF _ m(3)] old [OF _ m(4)] new [OF _ m(3)] new [OF _ m(4)]
      by (auto dest: leD)
    then show ?thesis ..
  qed
  moreover have "Logged (lg v) \<in> set (h @ seg)" if "Signed m \<in> set (h @ seg)" "P v m" for v m
    using that h logged by (auto simp: recorded_def)
  ultimately show ?thesis unfolding recorded_def by blast
qed

text \<open>
  The engine after a restart, under the profile the node is configured with, and the histories of
  a validator that restarts any number of times. A restart recovers voting watermarks that cover
  every recorded vote, and a lock at least as high as every recorded commit vote.
  With \<open>current\<close> it also resumes at a view no lower than its last recorded vote.
\<close>

definition restarted ::
  "ext_lib \<Rightarrow> signing_profile \<Rightarrow> u32 \<Rightarrow> secret_key \<Rightarrow> epoch_manager \<Rightarrow> u64 \<Rightarrow> u64 \<Rightarrow> environment
   \<Rightarrow> view_number \<Rightarrow> quorum_certificate \<Rightarrow> quorum_certificate \<Rightarrow> u32 \<Rightarrow> view_number \<Rightarrow> view_number
   \<Rightarrow> engine" where
  "restarted L pr index sk em base mx env view locked committed timeouts voted commit_voted =
     (with_recovered_state_and_vote_log L index sk em base mx env view locked committed timeouts
        voted commit_voted)\<lparr> signing_profile := pr \<rparr>"

inductive lifetimes :: "ext_lib \<Rightarrow> signing_profile \<Rightarrow> bool \<Rightarrow> effect list \<Rightarrow> bool" for L pr current where
  never_started: "lifetimes L pr current []"
| next_lifetime: "lifetimes L pr current h \<Longrightarrow>
     s = restarted L pr index sk em base mx env view locked committed timeouts voted commit_voted \<Longrightarrow>
     (\<And>v. Logged (LogVote v) \<in> set h \<Longrightarrow> v \<le> voted) \<Longrightarrow>
     (\<And>v. Logged (LogCommitVote v) \<in> set h \<Longrightarrow> v \<le> commit_voted) \<Longrightarrow>
     (\<And>v. Logged (LogCommitVote v) \<in> set h \<Longrightarrow> v \<le> qc_view locked) \<Longrightarrow>
     (\<And>v. current \<Longrightarrow> Logged (LogVote v) \<in> set h \<Longrightarrow> v \<le> view) \<Longrightarrow>
     run L s t \<Longrightarrow> trace t = seg @ lost \<Longrightarrow> lifetimes L pr current (h @ seg)"

lemma restarted_start:
  fixes L pr index sk em base mx env view locked committed timeouts voted commit_voted
  defines "s \<equiv> restarted L pr index sk em base mx env view locked committed timeouts voted commit_voted"
  shows "trace s = []" and "signing_profile s = pr" and "last_voted_view (round_state s) = voted"
    and "last_commit_voted_view (round_state s) = commit_voted" and "locked_qc (round_state s) = locked"
    and "view_of s = view" and "linked s"
  by (simp_all add: s_def restarted_def with_recovered_state_and_vote_log_def engine_from_def Let_def
      framed_tick round_from_snapshot_def linked_def)

lemma lifetime_facts:
  assumes s: "s = restarted L pr index sk em base mx env view locked committed timeouts voted commit_voted"
    and r: "run L s t" and t: "trace t = seg @ lost"
  shows "\<exists>hi. signing_discipline (votes_of pr) LogVote voted hi seg"
    and "\<exists>hi. signing_discipline (commit_votes_of pr) LogCommitVote commit_voted hi seg"
    and "supported pr seg" and "sorted_wrt (before pr) seg"
    and "\<And>v m. Signed m \<in> set seg \<Longrightarrow> votes_of pr v m \<or> commit_votes_of pr v m \<Longrightarrow> view \<le> v"
    and "\<And>p. Accepted p \<in> set seg \<Longrightarrow> qc_view locked \<le> qc_view (p_justify_qc p)"
proof -
  note st = restarted_start [of L pr index sk em base mx env view locked committed timeouts voted
      commit_voted, folded s]
  have new: "new_effects s t = seg @ lost" by (simp add: new_effects_def st(1) t)
  note d = run_effects(4,5) [OF r, unfolded new st, THEN discipline_prefix]
  from d show "\<exists>hi. signing_discipline (votes_of pr) LogVote voted hi seg"
    and "\<exists>hi. signing_discipline (commit_votes_of pr) LogCommitVote commit_voted hi seg" by blast+
  have l: "linked t \<and> ordered pr (round_state s) (round_state t) (trace t) \<and> signing_profile t = pr"
    using run_lock_ordered [OF r] st(1,2,7) unfolding lock_ordered_def by auto
  then show "supported pr seg" "sorted_wrt (before pr) seg"
    by (auto simp: linked_def ordered_def sorted_wrt_append t intro: supported_prefix)
  have "above pr (round_state s) e" if "e \<in> set seg" for e
    using l that by (auto simp: ordered_def t)
  then show "Signed m \<in> set seg \<Longrightarrow> votes_of pr v m \<or> commit_votes_of pr v m \<Longrightarrow> view \<le> v"
    and "Accepted p \<in> set seg \<Longrightarrow> qc_view locked \<le> qc_view (p_justify_qc p)" for v m p
    unfolding above_def stamped_def st(5,6) by blast+
qed

lemma lifetimes_recorded:
  assumes "lifetimes L pr current h"
  shows "recorded (votes_of pr) LogVote h" and "recorded (commit_votes_of pr) LogCommitVote h"
  using assms
proof (induction rule: lifetimes.induct)
  case never_started
  case 1 show ?case by (simp add: recorded_def)
  case 2 show ?case by (simp add: recorded_def)
next
  case (next_lifetime h s index sk em base mx env view locked committed timeouts voted commit_voted t seg lost)
  note f = lifetime_facts(1,2) [OF next_lifetime.hyps(2,7,8)]
  case 1
  show ?case using f(1) recorded_extend [OF next_lifetime.IH(1)] next_lifetime.hyps(3) by blast
  case 2
  show ?case using f(2) recorded_extend [OF next_lifetime.IH(2)] next_lifetime.hyps(4) by blast
qed

section \<open>The lock across views\<close>

definition justified_above :: "effect set \<Rightarrow> view_number \<Rightarrow> view_number \<Rightarrow> b256 \<Rightarrow> bool" where
  "justified_above E v v' b' \<longleftrightarrow>
     (\<exists>p. Accepted p \<in> E \<and> p_view p = v' \<and> p_block_hash p = b' \<and> v \<le> qc_view (p_justify_qc p))"

definition lock_respected :: "signing_profile \<Rightarrow> effect list \<Rightarrow> bool" where
  "lock_respected pr h \<longleftrightarrow> (\<forall>v b ch v' b'.
     Signed (commit_message pr v b ch) \<in> set h \<longrightarrow> Signed (vote_message pr v' b') \<in> set h \<longrightarrow> v < v' \<longrightarrow>
     justified_above (set h) v v' b')"

lemma justified_above_mono: "justified_above E v v' b' \<Longrightarrow> E \<subseteq> E' \<Longrightarrow> justified_above E' v v' b'"
  unfolding justified_above_def by blast

lemma supported_vote:
  assumes "supported pr seg" and "pr \<noteq> Gov5Legacy" and "seg ! j = Signed (vote_message pr v b)" and "j < length seg"
  obtains i p where "i < j" and "seg ! i = Accepted p" and "p_view p = v" and "p_block_hash p = b"
proof -
  have "seg = take j seg @ Signed (vote_message pr v b) # drop (Suc j) seg"
    using assms(3,4) id_take_nth_drop by metis
  then have "supports pr (set (take j seg)) (vote_message pr v b)"
    using assms(1) unfolding supported_def backed_def by blast
  then obtain p where p: "Accepted p \<in> set (take j seg)" "p_view p = v" "p_block_hash p = b"
    using assms(2) by (auto simp: supports_def votes_of_def)
  then obtain i where "i < j" "seg ! i = Accepted p" using assms(4) by (auto simp: in_set_conv_nth)
  with p show ?thesis using that by blast
qed

lemma supported_commit:
  assumes "supported pr seg" and "seg ! j = Signed (commit_message pr v b ch)" and "j < length seg"
  obtains i qc where "i < j" and "seg ! i = Logged (LogLock qc)" and "v \<le> qc_view qc"
proof -
  have "seg = take j seg @ Signed (commit_message pr v b ch) # drop (Suc j) seg"
    using assms(2,3) id_take_nth_drop by metis
  then have "supports pr (set (take j seg)) (commit_message pr v b ch)"
    using assms(1) unfolding supported_def backed_def by blast
  then obtain qc where qc: "Logged (LogLock qc) \<in> set (take j seg)" "v \<le> qc_view qc"
    by (auto simp: supports_def commit_votes_of_def)
  then obtain i where "i < j" "seg ! i = Logged (LogLock qc)" using assms(3) by (auto simp: in_set_conv_nth)
  with qc show ?thesis using that by blast
qed

lemma one_lifetime_lock:
  assumes sup: "supported pr seg" and srt: "sorted_wrt (before pr) seg" and pr: "pr \<noteq> Gov5Legacy"
  shows "lock_respected pr seg"
  unfolding lock_respected_def
proof (intro allI impI)
  fix v b ch v' b'
  assume c: "Signed (commit_message pr v b ch) \<in> set seg" and w: "Signed (vote_message pr v' b') \<in> set seg"
    and lt: "v < v'"
  obtain j where j: "j < length seg" "seg ! j = Signed (commit_message pr v b ch)"
    using c by (auto simp: in_set_conv_nth)
  obtain i qc where i: "i < j" "seg ! i = Logged (LogLock qc)" "v \<le> qc_view qc"
    using supported_commit [OF sup j(2,1)] by blast
  obtain l where l: "l < length seg" "seg ! l = Signed (vote_message pr v' b')"
    using w by (auto simp: in_set_conv_nth)
  obtain k p where k: "k < l" "seg ! k = Accepted p" "p_view p = v'" "p_block_hash p = b'"
    using supported_vote [OF sup pr l(2,1)] by blast
  have ord: "x < y \<Longrightarrow> y < length seg \<Longrightarrow> before pr (seg ! x) (seg ! y)" for x y
    using srt by (simp add: sorted_wrt_iff_nth_less)
  have "\<not> k < j"
  proof
    assume "k < j"
    from ord [OF this j(1)] have "v' \<le> v"
      unfolding before_def stamped_def k(2) j(2) using k(3) by (auto simp: commit_votes_of_def)
    then show False using lt by simp
  qed
  then have "i < k" using i(1) by simp
  from ord [OF this] have "qc_view qc \<le> qc_view (p_justify_qc p)"
    using k(1) l(1) by (simp add: before_def i(2) k(2))
  then have "v \<le> qc_view (p_justify_qc p)" using i(3) by (rule order_trans [rotated])
  moreover have "Accepted p \<in> set seg" using k(1,2) l(1) by (metis nth_mem order.strict_trans)
  ultimately show "justified_above (set seg) v v' b'" using k(3,4) by (auto simp: justified_above_def)
qed

lemma lifetimes_lock_respected:
  assumes "lifetimes L pr True h" and pr: "pr \<noteq> Gov5Legacy"
  shows "lock_respected pr h"
  using assms(1)
proof (induction rule: lifetimes.induct)
  case never_started
  show ?case by (simp add: lock_respected_def)
next
  case (next_lifetime h s index sk em base mx env view locked committed timeouts voted commit_voted t seg lost)
  note f = lifetime_facts [OF next_lifetime.hyps(2,7,8)]
  have seg: "lock_respected pr seg" using f(3,4) pr by (rule one_lifetime_lock)
  show ?case
    unfolding lock_respected_def
  proof (intro allI impI)
    fix v b ch v' b'
    let ?c = "Signed (commit_message pr v b ch)" and ?w = "Signed (vote_message pr v' b')"
    assume c: "?c \<in> set (h @ seg)" and w: "?w \<in> set (h @ seg)" and lt: "v < v'"
    have vote: "votes_of pr v' (vote_message pr v' b')" using pr by (auto simp: votes_of_def)
    consider "?c \<in> set h" "?w \<in> set h" | "?c \<in> set seg" "?w \<in> set seg"
      | "?c \<in> set h" "?w \<in> set seg" | "?c \<in> set seg" "?w \<in> set h"
      using c w by auto
    then show "justified_above (set (h @ seg)) v v' b'"
    proof cases
      case 1
      then have "justified_above (set h) v v' b'" using next_lifetime.IH lt unfolding lock_respected_def by blast
      then show ?thesis by (rule justified_above_mono) simp
    next
      case 2
      then have "justified_above (set seg) v v' b'" using seg lt unfolding lock_respected_def by blast
      then show ?thesis by (rule justified_above_mono) simp
    next
      case 3
      obtain j where j: "j < length seg" "seg ! j = ?w" using 3(2) by (auto simp: in_set_conv_nth)
      obtain i p where p: "i < j" "seg ! i = Accepted p" "p_view p = v'" "p_block_hash p = b'"
        using supported_vote [OF f(3) pr j(2,1)] by blast
      then have "Accepted p \<in> set seg" using j(1) by (metis nth_mem order.strict_trans)
      moreover have "Logged (LogCommitVote v) \<in> set h"
        using lifetimes_recorded(2) [OF next_lifetime.hyps(1)] 3(1) by (auto simp: recorded_def commit_votes_of_def)
      then have "v \<le> qc_view locked" by (rule next_lifetime.hyps(5))
      then have "v \<le> qc_view (p_justify_qc p)"
        using f(6) \<open>Accepted p \<in> set seg\<close> by (meson order_trans)
      ultimately show ?thesis using p(3,4) by (auto simp: justified_above_def)
    next
      case 4
      have "v' \<le> view"
        using next_lifetime.hyps(6) lifetimes_recorded(1) [OF next_lifetime.hyps(1)] 4(2) vote
        by (auto simp: recorded_def)
      moreover have "view \<le> v" using f(5) [OF 4(1), of v] by (auto simp: commit_votes_of_def)
      ultimately show ?thesis using lt by simp
    qed
  qed
qed

lemma lifetimes_weaken: "lifetimes L pr True h \<Longrightarrow> lifetimes L pr current h"
proof (induction rule: lifetimes.induct)
  case never_started
  show ?case by (rule lifetimes.never_started)
next
  case (next_lifetime h s index sk em base mx env view locked committed timeouts voted commit_voted t seg lost)
  show ?case
    by (rule lifetimes.next_lifetime [OF next_lifetime.IH next_lifetime.hyps(2-5) _ next_lifetime.hyps(7,8)])
      (use next_lifetime.hyps(6) in blast)+
qed

section \<open>Certificates and their signers\<close>

text \<open>
  What the aggregate signature scheme is relied on for: a message whose aggregate verifies under
  the keys of a signer bitmap was signed by every correct validator the bitmap names.
\<close>

definition aggregate_unforgeable ::
  "ext_lib \<Rightarrow> signing_profile \<Rightarrow> validator_set \<Rightarrow> nat set \<Rightarrow> (nat \<Rightarrow> effect list) \<Rightarrow> bool" where
  "aggregate_unforgeable L pr vs F h \<longleftrightarrow>
     (\<forall>message sig signers.
        length signers = unat (vset_len vs) \<longrightarrow>
        profile_verify_aggregate L pr message sig (map (key_at vs) (positions (\<lambda>b. b) signers)) \<longrightarrow>
        (\<forall>i \<in> signer_set signers - F. Signed message \<in> set (h i)))"

definition certified :: "ext_lib \<Rightarrow> signing_profile \<Rightarrow> validator_set \<Rightarrow> bytes \<Rightarrow> signature \<Rightarrow> bool list \<Rightarrow> bool" where
  "certified L pr vs message sig signers \<longleftrightarrow>
     length signers = unat (vset_len vs) \<and> quorum_size vs \<le> card (signer_set signers) \<and>
     profile_verify_aggregate L pr message sig (map (key_at vs) (positions (\<lambda>b. b) signers))"

lemma verified_certified:
  "verify_qc_with_profile L qc vs pr = Ok () \<longleftrightarrow>
     certified L pr vs (vote_message pr (qc_view qc) (qc_block_hash qc)) (qc_aggregate_signature qc) (qc_signers qc)"
  "verify_commit_qc_with_profile L qc vs ch pr = Ok () \<longleftrightarrow>
     certified L pr vs (commit_message pr (qc_view qc) (qc_block_hash qc) ch) (qc_aggregate_signature qc) (qc_signers qc)"
  by (simp_all add: certified_def verify_qc_Ok verify_commit_qc_Ok)

lemma certified_both_signed:
  assumes wf: "vset_wf vs" and F: "finite F" "card F \<le> vset_tolerance vs"
    and unf: "aggregate_unforgeable L pr vs F h"
    and m: "certified L pr vs m sig bv" and m': "certified L pr vs m' sig' bv'"
  obtains i where "i \<in> signer_set bv" and "i \<in> signer_set bv'" and "i \<notin> F"
    and "Signed m \<in> set (h i)" and "Signed m' \<in> set (h i)"
proof -
  have "vset_quorum vs (signer_set bv)" "vset_quorum vs (signer_set bv')"
    using m m' by (simp_all add: certified_def signer_set_quorum)
  then obtain i where i: "i \<in> signer_set bv" "i \<in> signer_set bv'" "i \<notin> F"
    using vset.quorums_share_correct [OF wf _ _ F] by metis
  moreover have "Signed m \<in> set (h i)" "Signed m' \<in> set (h i)"
    using i unf m m' unfolding aggregate_unforgeable_def certified_def by blast+
  ultimately show ?thesis using that by blast
qed

lemma certified_once:
  assumes "vset_wf vs" and "finite F" and "card F \<le> vset_tolerance vs"
    and once: "\<And>i. i \<notin> F \<Longrightarrow> recorded P lg (h i)"
    and "aggregate_unforgeable L pr vs F h"
    and "certified L pr vs m sig bv" and "P v m" and "certified L pr vs m' sig' bv'" and "P v m'"
  shows "m = m'"
proof -
  obtain i where "i \<notin> F" "Signed m \<in> set (h i)" "Signed m' \<in> set (h i)"
    using certified_both_signed [OF assms(1-3,5,6,8)] by blast
  then show ?thesis using once [of i] assms(7,9) unfolding recorded_def by blast
qed

lemma commit_agreement_aux:
  assumes "vset_wf vs" and "finite F" and "card F \<le> vset_tolerance vs"
    and "\<forall>i. i \<notin> F \<longrightarrow> lifetimes L pr False (h i)"
    and "aggregate_unforgeable L pr vs F h"
    and "verify_commit_qc_with_profile L qc vs ch pr = Ok ()"
    and "verify_commit_qc_with_profile L qc' vs ch' pr = Ok ()"
    and "qc_view qc = qc_view qc'"
  shows "qc_block_hash qc = qc_block_hash qc' \<and> (pr = Native \<longrightarrow> ch = ch')"
proof -
  have "recorded (commit_votes_of pr) LogCommitVote (h i)" if "i \<notin> F" for i
    using assms(4) that lifetimes_recorded(2) by blast
  then have "commit_message pr (qc_view qc) (qc_block_hash qc) ch
      = commit_message pr (qc_view qc') (qc_block_hash qc') ch'"
    by (rule certified_once [OF assms(1-3) _ assms(5)])
      (use assms(6-8) in \<open>auto simp: verified_certified commit_votes_of_def\<close>)
  then show ?thesis by (simp add: commit_message_inject)
qed

end
