(* ===== verification/N42_Handlers.thy ===== *)
theory N42_Handlers
  imports N42_VoteSafety
begin

text \<open>
  What single handlers do: which conditions hold whenever the proposal handler signs a round-one
  vote or the PrepareQC handler a commit vote, what an accepted Decide changes and delivers, and
  under which certificate the engine jumps to a later view.
\<close>

section \<open>The signatures a step makes\<close>

definition signs :: "(bytes \<Rightarrow> bool) \<Rightarrow> engine \<Rightarrow> engine \<Rightarrow> bool" where
  "signs P s t \<longleftrightarrow> (\<exists>seg. trace t = trace s @ seg \<and> (\<forall>m. Signed m \<in> set seg \<longrightarrow> P m))"

lemma signs_same: "trace t = trace s \<Longrightarrow> signs P s t"
  by (simp add: signs_def)

lemma signs_trans: "signs P s t \<Longrightarrow> signs P t u \<Longrightarrow> signs P s u"
  unfolding signs_def by fastforce

lemma signs_mono: "signs P s t \<Longrightarrow> (\<And>m. P m \<Longrightarrow> Q m) \<Longrightarrow> signs Q s t"
  unfolding signs_def by blast

lemma signs_emit: "signs P s (fst (emit out s))"
  by (simp add: signs_def emit_def emit_attempts_exact Let_def)

lemma signs_log: "signs P s (fst (vote_log_write e s))"
  by (auto simp: signs_def vote_log_write_def split: list.split option.split)

lemma signs_stamp: "signs P s (stamp f s)"
  by (simp add: signs_def stamp_def Let_def)

lemma signs_sign: "P m \<Longrightarrow> signs P s (fst (sign_with L m s))"
  by (simp add: signs_def sign_with_def)

lemma signs_andthen:
  assumes "signs P s (fst p)" and "\<And>a t. p = (t, Ok a) \<Longrightarrow> signs P t (fst (k a t))"
  shows "signs P s (fst (andthen p k))"
  using assms signs_trans by (cases p; cases "snd p") fastforce+

lemma signs_new_effects: "signs P s t \<Longrightarrow> Signed m \<in> set (new_effects s t) \<Longrightarrow> P m"
  by (auto simp: signs_def new_effects_def)

lemmas signs_steps = signs_emit signs_log signs_stamp

lemma signs_trying:
  assumes "\<And>a. r = Ok a \<Longrightarrow> signs P s (fst (k a))"
  shows "signs P s (fst (trying r s k))"
  using assms signs_same [of s s P] by (cases r) auto

lemma signs_from: "signs P t u \<Longrightarrow> trace t = trace s \<Longrightarrow> signs P s u"
  by (simp add: signs_def)

lemma signs_send_vote:
  assumes "is_local_validator_active_for_view v s \<Longrightarrow> may_vote_in v (round_state s) \<Longrightarrow>
    P (vote_message (signing_profile s) v b)"
  shows "signs P s (fst (send_vote L v b s))"
proof (cases "is_local_validator_active_for_view v s \<and> may_vote_in v (round_state s)")
  case True
  let ?r = "upd_round (round_record_vote v) s"
  have "signs P t (fst (trying (leader_index_for_view v t) t (\<lambda>leader.
      let (s, vote_sig) = sign_with L (vote_message (signing_profile t) v b) t;
          w = \<lparr> v_view = v, v_block_hash = b, v_voter = my_index s, v_signature = vote_sig \<rparr>;
          s = stamp (\<lambda>t vt. vt\<lparr> vote_sent := Some t \<rparr>) s
      in emit (SendToValidator leader (MVote w)) s)))"
    if "vote_log_write (LogVote v) ?r = (t, Ok a)" for t a
  proof -
    have "signing_profile t = signing_profile s" using log_frame [OF that, of signing_profile] by (simp add: upd_round_def)
    then have "P (vote_message (signing_profile t) v b)" using assms True by simp
    then have "signs P t (stamp f (fst (sign_with L (vote_message (signing_profile t) v b) t)))" for f
      using signs_trans [OF signs_sign signs_stamp] by blast
    then show ?thesis
      by (intro signs_trying) (auto simp: Let_def split: prod.split intro: signs_trans [OF _ signs_emit])
  qed
  moreover have "signs P s (fst (vote_log_write (LogVote v) ?r))"
    by (rule signs_from [OF signs_log]) (simp add: upd_round_def)
  ultimately show ?thesis
    using True by (simp add: send_vote_def Let_def signs_andthen)
qed (auto simp: send_vote_def intro: signs_same)

section \<open>Round one\<close>

text \<open>Everything that has to hold before a follower votes for a proposal.\<close>

definition proposal_guards :: "ext_lib \<Rightarrow> proposal \<Rightarrow> engine \<Rightarrow> bool" where
  "proposal_guards L p s \<longleftrightarrow>
     is_ok (check_proposal L p s) \<and>
     (qc_view (p_justify_qc p) = 0 \<or> verify_qc_any_domain_or_known L (p_justify_qc p) s = Ok ()) \<and>
     is_safe_to_vote (p_justify_qc p) (round_state s) \<and>
     is_local_validator_active_for_view (view_of s) s \<and> may_vote_in (view_of s) (round_state s)"

definition same_voter :: "engine \<Rightarrow> engine \<Rightarrow> bool" where
  "same_voter s t \<longleftrightarrow> view_of t = view_of s \<and> signing_profile t = signing_profile s \<and>
     local_public_key t = local_public_key s \<and> (\<forall>v. set_for_view v t = set_for_view v s) \<and>
     last_voted_view (round_state t) = last_voted_view (round_state s)"

lemma same_voter_trans: "same_voter s t \<Longrightarrow> same_voter t u \<Longrightarrow> same_voter s u"
  by (simp add: same_voter_def)

lemma same_voter_fields:
  "local_public_key t = local_public_key s \<Longrightarrow> round_state t = round_state s \<Longrightarrow>
   signing_profile t = signing_profile s \<Longrightarrow> epoch_manager t = epoch_manager s \<Longrightarrow> same_voter s t"
  by (simp add: same_voter_def set_for_view_def)

lemma same_voter_emit: "emit out s = (t, r) \<Longrightarrow> same_voter s t"
  by (intro same_voter_fields; rule emit_frame) simp_all

lemma same_voter_guard:
  assumes "same_voter s t"
  shows "is_local_validator_active_for_view v t = is_local_validator_active_for_view v s"
    and "may_vote_in v (round_state t) = may_vote_in v (round_state s)"
  using assms by (simp_all add: same_voter_def is_local_validator_active_for_view_def
      local_validator_index_for_view_def may_vote_in_def)

lemma signs_same_voter:
  assumes "\<And>t. same_voter s t \<Longrightarrow> signs P t (fst (k t))" and "same_voter s t" and "trace t = trace s"
  shows "signs P s (fst (k t))"
  using assms signs_from by blast

lemma accepted_state:
  assumes "(if carries_changes (p_validator_changes p)
         then let changes = the (p_validator_changes p) in
           if length changes > MAX_CHANGES_PER_PROPOSAL
           then (s, Err (TooManyValidatorChanges (length changes) MAX_CHANGES_PER_PROPOSAL))
           else (upd_epochs (replace_pending_from_proposal changes) s, Ok (hash_changes L changes))
         else (s, Ok 0)) = (t, r)"
  shows "same_voter s t \<and> trace t = trace s"
  using assms
  by (auto simp: same_voter_def upd_epochs_def set_for_view_def replace_pending_eq validator_set_for_view_def
      epoch_for_view_def Let_def split: if_splits option.split)

lemma signs_accept:
  assumes "is_local_validator_active_for_view (view_of s) s \<Longrightarrow> may_vote_in (view_of s) (round_state s) \<Longrightarrow>
    P (vote_message (signing_profile s) (view_of s) (p_block_hash p))"
  shows "signs P s (fst (accept_proposal L p s))"
proof -
  let ?b = "p_block_hash p"
  let ?wait = "\<lambda>t. t\<lparr> pending_proposal := Some \<lparr> pp_view = view_of s, pp_block_hash = ?b,
        pp_justify_block = qc_block_hash (p_justify_qc p) \<rparr> \<rparr>"
  let ?tail = "\<lambda>t. if is_gov5 (signing_profile t)
    then let t = ?wait t in
      if ?b \<in> imported_blocks t
      then if \<not> extends_justify ?b t then (t, Ok ()) else send_vote L (view_of s) ?b t
      else (t, Ok ())
    else send_vote L (view_of s) ?b t"
  have vote: "signs P t (fst (send_vote L (view_of s) ?b t))" if "same_voter s t" for t
    using assms that by (intro signs_send_vote) (simp add: same_voter_guard [OF that], simp add: same_voter_def)
  have tail: "signs P t (fst (?tail t))" if t: "same_voter s t" for t
  proof -
    have "same_voter s (?wait t)" by (rule same_voter_trans [OF t]) (simp add: same_voter_fields)
    then have "signs P t (fst (send_vote L (view_of s) ?b (?wait t)))" using vote signs_from by fastforce
    then show ?thesis using vote [OF t] by (auto simp: Let_def intro: signs_same)
  qed
  show ?thesis
    unfolding accept_proposal_def Let_def [of "view_of s"]
  proof (rule signs_andthen, goal_cases)
    case 1
    show ?case by (rule signs_same) (rule accepted_state [OF surjective_pairing, THEN conjunct2])
  next
    case (2 h t)
    let ?u = "stamp (\<lambda>t vt. vt\<lparr> proposal_received := Some t \<rparr>) (upd_round enter_voting
      (case p_tx_root_hash p of
         Some tx_root \<Rightarrow> t\<lparr> pending_changes_hashes := bf_insert ?b h (pending_changes_hashes t),
           pending_tx_roots := bf_insert ?b tx_root (pending_tx_roots t) \<rparr>
       | None \<Rightarrow> t\<lparr> pending_changes_hashes := bf_insert ?b h (pending_changes_hashes t) \<rparr>))"
    have u: "same_voter t ?u" "trace ?u = trace t"
      by (cases "p_tx_root_hash p"; simp add: same_voter_def stamp_def Let_def upd_round_def enter_voting_def
          set_for_view_def framed_tick)+
    have "same_voter s v" if "emit (ExecuteBlock ?b) ?u = (v, Ok a)" for a v
      using accepted_state [OF 2] u(1) same_voter_emit [OF that] same_voter_trans by blast
    then have "signs P ?u (fst (andthen (emit (ExecuteBlock ?b) ?u) (\<lambda>_. ?tail)))"
      using tail signs_emit by (intro signs_andthen) blast+
    then have "signs P t (fst (andthen (emit (ExecuteBlock ?b) ?u) (\<lambda>_. ?tail)))"
      using u(2) by (rule signs_from)
    then show ?case by (cases "p_tx_root_hash p") (simp_all add: Let_def)
  qed
qed

lemma same_voter_lock:
  "same_voter s (upd_round (update_locked_qc qc) (note_accepted p s))"
  "same_voter s (absorb_piggybacked_qc L qco s)" "trace (absorb_piggybacked_qc L qco s) = trace s"
  by (auto simp: same_voter_def upd_round_def update_locked_qc_def note_accepted_def set_for_view_def
      absorb_piggybacked_qc_def split: option.split outcome.split)

lemma signs_tracked:
  assumes "qc_view (p_justify_qc p) = 0 \<or> verify_qc_any_domain_or_known L (p_justify_qc p) s = Ok () \<Longrightarrow>
    is_safe_to_vote (p_justify_qc p) (round_state s) \<Longrightarrow>
    is_local_validator_active_for_view (view_of s) s \<Longrightarrow> may_vote_in (view_of s) (round_state s) \<Longrightarrow>
    P (vote_message (signing_profile s) (view_of s) (p_block_hash p))"
  shows "signs P s (fst (process_tracked_proposal L p s))"
  unfolding process_tracked_proposal_def
proof (rule signs_trying, goal_cases)
  case (1 a)
  let ?l = "upd_round (update_locked_qc (p_justify_qc p)) (note_accepted p s)"
  let ?t = "absorb_piggybacked_qc L (p_prepare_qc p) ?l"
  have v: "same_voter s ?t" using same_voter_lock same_voter_trans by blast
  have justify: "qc_view (p_justify_qc p) = 0 \<or> verify_qc_any_domain_or_known L (p_justify_qc p) s = Ok ()"
    using 1 by (auto simp: word_neq_0_conv [symmetric] split: if_splits)
  have "signs P ?t (fst (accept_proposal L p ?t))" if "is_safe_to_vote (p_justify_qc p) (round_state s)"
    using assms [OF justify that] same_voter_guard [OF v] v
    by (intro signs_accept) (simp add: same_voter_def)
  moreover have "signs P s ?t"
    by (simp add: signs_def same_voter_lock upd_round_def note_accepted_def)
  ultimately show ?case using signs_trans by (auto simp: Let_def intro: signs_same)
qed

lemma signs_proposal:
  "signs (\<lambda>m. proposal_guards L p s \<and> m = vote_message (signing_profile s) (p_view p) (p_block_hash p))
     s (fst (process_proposal L p s))"
  unfolding process_proposal_def Let_def
proof (rule signs_trying, goal_cases)
  case (1 m)
  let ?P = "\<lambda>m. proposal_guards L p s \<and> m = vote_message (signing_profile s) (p_view p) (p_block_hash p)"
  have view: "p_view p = view_of s" using 1 by (auto simp: check_proposal_def Let_def split: if_splits)
  have tracked: "signs ?P s (fst (process_tracked_proposal L p t))"
    if t: "t = s\<lparr> proposal_equivocation_tracker := tr \<rparr>" for t tr
  proof -
    have "signs ?P t (fst (process_tracked_proposal L p t))"
      by (rule signs_tracked) (auto simp: t proposal_guards_def 1 view verify_qc_any_domain_or_known_def
          cached_changes_hash_def resolve_qc_validator_set_def is_local_validator_active_for_view_def
          local_validator_index_for_view_def set_for_view_def)
    then show ?thesis by (rule signs_from) (simp add: t)
  qed
  have same: "s = s\<lparr> proposal_equivocation_tracker := proposal_equivocation_tracker s \<rparr>" by simp
  have report: "signs ?P s (fst (andthen (emit out s) (\<lambda>_ s. (s, Ok ()))))" for out
    by (rule signs_andthen) (simp_all add: signs_emit signs_same)
  show ?case
    using tracked [OF refl] tracked [OF same] report by (auto split: option.split)
qed

section \<open>Round two\<close>

definition prepare_guards :: "ext_lib \<Rightarrow> prepare_qc \<Rightarrow> engine \<Rightarrow> bool" where
  "prepare_guards L pqc s \<longleftrightarrow>
     pqc_view pqc = view_of s \<and> qc_view (pqc_qc pqc) = view_of s \<and>
     qc_block_hash (pqc_qc pqc) = pqc_block_hash pqc \<and>
     (\<exists>vs. resolve_qc_validator_set (pqc_qc pqc) s = Ok vs \<and>
        verify_qc_with_profile L (pqc_qc pqc) vs (signing_profile s) = Ok ()) \<and>
     is_local_validator_active_for_view (view_of s) s \<and> may_commit_vote_in (view_of s) (round_state s)"

text \<open>The durable, signed commit vote: the common tail of the round-two handler.\<close>

abbreviation sign_commit_vote :: "ext_lib \<Rightarrow> view_number \<Rightarrow> b256 \<Rightarrow> engine \<Rightarrow> unit engine_result" where
  "sign_commit_vote L v b s \<equiv>
     (let changes_hash = cached_changes_hash b s;
          commit_msg = commit_message (signing_profile s) v b changes_hash;
          (s, commit_sig) = sign_with L commit_msg s
      in trying (leader_index_for_view v s) s (\<lambda>leader.
        let cv = \<lparr> cv_view = v, cv_block_hash = b, cv_voter = my_index s, cv_signature = commit_sig \<rparr>;
            s = stamp (\<lambda>t vt. vt\<lparr> commit_vote_sent := Some t \<rparr>) s
        in emit (SendToValidator leader (MCommitVote cv)) s))"

abbreviation cast_commit_vote :: "ext_lib \<Rightarrow> quorum_certificate \<Rightarrow> view_number \<Rightarrow> b256 \<Rightarrow> engine \<Rightarrow> unit engine_result" where
  "cast_commit_vote L q v b s \<equiv>
     andthen (vote_log_write (LogLock q) s) (\<lambda>_ s.
       let s = upd_round (round_record_commit_vote v) s in
       andthen (vote_log_write (LogCommitVote v) s) (\<lambda>_ s. sign_commit_vote L v b s))"

lemma signs_commit_tail:
  assumes "\<And>h. P (commit_message (signing_profile s) v b h)"
  shows "signs P s (fst (cast_commit_vote L q v b s))"
proof (rule signs_andthen [OF signs_log], goal_cases)
  case (1 a t)
  let ?t = "upd_round (round_record_commit_vote v) t"
  have t: "signing_profile ?t = signing_profile s"
    using log_frame [OF 1, of signing_profile] by (simp add: upd_round_def)
  have "signs P ?t (fst (andthen (vote_log_write (LogCommitVote v) ?t) (\<lambda>_ s. sign_commit_vote L v b s)))"
  proof (rule signs_andthen [OF signs_log], goal_cases)
    case (1 a u)
    have "signing_profile u = signing_profile s" using log_frame [OF 1, of signing_profile] t by simp
    then have u: "signs P u (fst (sign_with L (commit_message (signing_profile u) v b (cached_changes_hash b u)) u))"
      using assms by (intro signs_sign) simp
    show ?case
      unfolding Let_def case_prod_unfold
      by (intro signs_trans [OF u] signs_trying) (blast intro: signs_trans signs_stamp signs_emit)
  qed
  then show ?case unfolding Let_def [of ?t] by (rule signs_from) (simp add: upd_round_def)
qed

lemma signs_prepare:
  "signs (\<lambda>m. prepare_guards L pqc s \<and> (\<exists>h. m = commit_message (signing_profile s) (pqc_view pqc) (pqc_block_hash pqc) h))
     s (fst (process_prepare_qc L pqc s))" (is "signs ?P s _")
proof (cases "prepare_guards L pqc s")
  case True
  let ?t = "upd_round enter_pre_commit (upd_round (update_locked_qc (pqc_qc pqc)) s)"
  have "signs ?P ?t (fst (cast_commit_vote L (locked_qc (round_state ?t)) (view_of s) (pqc_block_hash pqc) ?t))"
    by (rule signs_commit_tail) (use True in \<open>auto simp: upd_round_def prepare_guards_def\<close>)
  then have "signs ?P s (fst (cast_commit_vote L (locked_qc (round_state ?t)) (view_of s) (pqc_block_hash pqc) ?t))"
    by (rule signs_from) (simp add: upd_round_def)
  moreover have "signs ?P s ?t" by (rule signs_same) (simp add: upd_round_def)
  ultimately show ?thesis
    using True unfolding process_prepare_qc_def prepare_guards_def
    by (auto simp: Let_def intro: signs_same)
next
  case False
  have quiet: "trace (fst (trying r s k)) = trace s" if "\<And>a. r = Ok a \<Longrightarrow> trace (fst (k a)) = trace s"
    for r :: "'b consensus_result" and k :: "'b \<Rightarrow> unit engine_result"
    using that by (cases r) simp_all
  have "trace (fst (process_prepare_qc L pqc s)) = trace s"
    using False unfolding process_prepare_qc_def Let_def
    by (auto intro!: quiet simp: prepare_guards_def upd_round_def update_locked_qc_def
        may_commit_vote_in_def enter_pre_commit_def is_local_validator_active_for_view_def
        local_validator_index_for_view_def set_for_view_def)
  then show ?thesis by (rule signs_same)
qed

section \<open>Decisions and view jumps\<close>

lemma check_decide_Ok:
  "check_decide L d s = Ok () \<longleftrightarrow> qc_view (d_commit_qc d) = d_view d \<and> qc_block_hash (d_commit_qc d) = d_block_hash d \<and>
     (\<exists>vs. resolve_qc_validator_set (d_commit_qc d) s = Ok vs \<and>
       verify_commit_qc_with_profile L (d_commit_qc d) vs (d_validator_changes_hash d) (signing_profile s) = Ok ())"
  by (cases "resolve_qc_validator_set (d_commit_qc d) s")
    (auto simp: check_decide_def verify_commit_qc_Ok card_signer_set signer_count_def)

lemma emit_free: "out_script s = [] \<Longrightarrow> emit out s = (s\<lparr> trace := trace s @ [Delivered out] \<rparr>, Ok ())"
  by (simp add: emit_def)

lemma out_script_tick [simp]: "out_script (tick s) = out_script s"
  by (simp add: tick_def split: list.split)

lemma decide_accepted:
  assumes "view_of s \<le> d_view d" and ok: "check_decide L d s = Ok ()" and "d_validator_changes_hash d = 0"
    and "out_script s = []" and "qc_view (last_committed_qc (round_state s)) \<le> d_view d"
  shows "\<exists>t. process_decide L adv d s =
      andthen (adv (saturating_add (d_view d) 1) t) (\<lambda>_ s. emit (ViewChanged (view_of s)) s) \<and>
    last_committed_qc (round_state t) = d_commit_qc d \<and> d_view d \<le> qc_view (locked_qc (round_state t)) \<and>
    phase (round_state t) = Committed \<and> view_of t = view_of s \<and>
    trace t = trace s @ (if d_view d > view_of s + SYNC_GAP_THRESHOLD
        then [Delivered (SyncRequired (view_of s) (d_view d))] else [])
      @ [Delivered (BlockCommitted (d_view d) (d_block_hash d) (d_commit_qc d) None)]"
proof -
  let ?c = "s\<lparr> pending_changes_hashes := bf_insert (d_block_hash d) 0 (pending_changes_hashes s) \<rparr>"
  let ?g = "if d_view d > view_of s + SYNC_GAP_THRESHOLD
    then ?c\<lparr> trace := trace s @ [Delivered (SyncRequired (view_of s) (d_view d))] \<rparr> else ?c"
  let ?r = "upd_round (round_commit (d_commit_qc d)) (upd_round (update_locked_qc (d_commit_qc d))
      (stamp (\<lambda>t vt. vt\<lparr> commit_qc_formed := Some t \<rparr>) ?g))"
  let ?x = "?r\<lparr> pending_tx_roots := fst (bf_remove (d_block_hash d) (pending_tx_roots ?r)) \<rparr>"
  let ?t = "?x\<lparr> trace := trace ?x @ [Delivered (BlockCommitted (d_view d) (d_block_hash d) (d_commit_qc d) None)] \<rparr>"
  have qc: "qc_view (d_commit_qc d) = d_view d" using ok by (simp add: check_decide_Ok)
  have round: "round_state ?g = round_state s" "out_script ?g = []" using assms(4) by simp_all
  have "out_script ?x = []" using round(2) by (simp add: stamp_def upd_round_def Let_def)
  then have "process_decide L adv d s
      = andthen (adv (saturating_add (d_view d) 1) ?t) (\<lambda>_ s. emit (ViewChanged (view_of s)) s)"
    using assms leD [OF assms(1)]
    by (cases "d_view d > view_of s + SYNC_GAP_THRESHOLD")
      (simp_all add: process_decide_def Let_def stage_decided_changes_def emit_free)
  moreover have "last_committed_qc (round_state ?t) = d_commit_qc d \<and> d_view d \<le> qc_view (locked_qc (round_state ?t)) \<and>
      phase (round_state ?t) = Committed \<and> view_of ?t = view_of s"
    using update_locked_qc_ge [of "d_commit_qc d" "round_state s"] qc assms(5) round(1)
    by (simp add: upd_round_def round_commit_def stamp_def Let_def framed_tick update_locked_qc_def not_less)
  moreover have "trace ?t = trace s @ (if d_view d > view_of s + SYNC_GAP_THRESHOLD
        then [Delivered (SyncRequired (view_of s) (d_view d))] else [])
      @ [Delivered (BlockCommitted (d_view d) (d_block_hash d) (d_commit_qc d) None)]"
    by (simp add: upd_round_def stamp_def Let_def)
  ultimately show ?thesis by blast
qed

lemma view_of_enter_view: "v \<le> view_of (enter_view v s)"
  by (simp add: enter_view_def Let_def upd_round_def round_advance_view_def framed_tick reset_pacemaker_def
      forget_imports_def sync_local_validator_index_def not_less split: option.split)

lemma advance_to_view_reaches:
  assumes "advance_to_view L v s = (t, Ok a)"
  shows "v \<le> view_of t"
proof (cases "v \<le> view_of s")
  case True
  then show ?thesis using assms by (simp add: advance_to_view_def advance_body_def)
next
  case False
  let ?d = "\<lambda>m t. dispatch_message L (advance_fuel L (length (future_msg_buffer s))) m None t"
  obtain u b where "replay ?d (to_replay v (future_msg_buffer (enter_view v u)))
      ((enter_view v u)\<lparr> future_msg_buffer := still_buffered v (future_msg_buffer (enter_view v u)) \<rparr>) = (t, Ok a)"
    using assms False by (auto simp: advance_to_view_def advance_body_def Let_def elim!: andthen_OkE)
  moreover have "disciplined w (fst (replay ?d ms w))" for ms w
    by (rule discipline.rel_replay) (rule discipline.rel_dispatch, rule discipline.rel_advance_fuel)
  ultimately have "disciplined ((enter_view v u)\<lparr> future_msg_buffer := still_buffered v (future_msg_buffer (enter_view v u)) \<rparr>) t"
    by (metis fst_conv)
  then show ?thesis using order_trans [OF view_of_enter_view [of v u]] by (simp add: disciplined_def round_le_def)
qed

lemma view_jump_Ok:
  assumes "try_qc_view_jump L msg s = (t, Ok True)"
  shows "\<exists>qc. extract_qc_from_message msg = Some qc \<and> verify_jump_qc L msg qc s = Some (Ok ()) \<and>
    view_of s < saturating_add (qc_view qc) 1 \<and> saturating_add (qc_view qc) 1 \<le> view_of t \<and>
    qc_view qc \<le> qc_view (locked_qc (round_state t))"
proof -
  obtain qc where qc: "extract_qc_from_message msg = Some qc" "verify_jump_qc L msg qc s = Some (Ok ())"
    "view_of s < saturating_add (qc_view qc) 1"
    and jump: "andthen (emit (SyncRequired (view_of s) (saturating_add (qc_view qc) 1))
        (upd_round reset_consecutive_timeouts (upd_round (update_locked_qc qc) s))) (\<lambda>_ s.
          andthen (advance_to_view L (saturating_add (qc_view qc) 1) s) (\<lambda>_ s.
            andthen (emit (ViewChanged (view_of s)) s) (\<lambda>_ s. (s, Ok True)))) = (t, Ok True)"
    using assms
    by (auto simp: try_qc_view_jump_def Let_def is_ok_unit not_le split: option.splits if_splits)
  let ?l = "upd_round reset_consecutive_timeouts (upd_round (update_locked_qc qc) s)"
  obtain u a v b c where steps: "emit (SyncRequired (view_of s) (saturating_add (qc_view qc) 1)) ?l = (u, Ok a)"
    "advance_to_view L (saturating_add (qc_view qc) 1) u = (v, Ok b)"
    "emit (ViewChanged (view_of v)) v = (t, Ok c)"
    using jump by (elim andthen_OkE) auto
  have same: "round_state u = round_state ?l" "round_state t = round_state v"
    using emit_frame [OF steps(1), of round_state] emit_frame [OF steps(3), of round_state] by simp_all
  have "disciplined u v" using discipline.rel_advance_to_view [of u L "saturating_add (qc_view qc) 1"] steps(2) by simp
  then have "qc_view (locked_qc (round_state ?l)) \<le> qc_view (locked_qc (round_state t))"
    by (simp add: disciplined_def round_le_def same)
  moreover have "qc_view qc \<le> qc_view (locked_qc (round_state ?l))"
    using update_locked_qc_ge [of qc "round_state s"] by (simp add: upd_round_def reset_consecutive_timeouts_def)
  moreover have "saturating_add (qc_view qc) 1 \<le> view_of t"
    using advance_to_view_reaches [OF steps(2)] by (simp add: same)
  ultimately show ?thesis using qc by auto
qed

lemma view_jump_refused: "try_qc_view_jump L msg s = (t, Ok False) \<Longrightarrow> t = s"
  by (auto simp: try_qc_view_jump_def Let_def split: option.splits if_splits elim!: andthen_OkE)

end
