(* ===== verification/N42_Progress.thy ===== *)
theory N42_Progress
  imports N42_Handlers
begin

text \<open>
  Progress of the voting handlers. When the output channel and the vote log accept what they are
  given, a follower that receives a valid proposal of its view records, signs and sends its
  round-one vote, and one that receives a valid PrepareQC locks, records, signs and sends its
  commit vote; the lemmas give the exact effects, in their order.
\<close>

section \<open>A working environment\<close>

lemma log_free: "log_script s = [] \<Longrightarrow> vote_log_write e s = (s\<lparr> trace := trace s @ [Logged e] \<rparr>, Ok ())"
  by (simp add: vote_log_write_def)

lemma log_script_tick [simp]: "log_script (tick s) = log_script s"
  by (simp add: tick_def split: list.split)

section \<open>Round two: a PrepareQC is answered by a commit vote\<close>

lemma prepare_qc_votes_aux:
  assumes "pqc_view pqc = view_of s" and "qc_view (pqc_qc pqc) = view_of s"
    and "qc_block_hash (pqc_qc pqc) = pqc_block_hash pqc"
    and "resolve_qc_validator_set (pqc_qc pqc) s = Ok vs"
    and "verify_qc_with_profile L (pqc_qc pqc) vs (signing_profile s) = Ok ()"
    and "is_local_validator_active_for_view (view_of s) s"
    and "may_commit_vote_in (view_of s) (round_state s)"
    and "leader_index_for_view (view_of s) s = Ok leader"
    and "log_script s = []" and "out_script s = []"
  shows "\<exists>t cv. process_prepare_qc L pqc s = (t, Ok ()) \<and>
    trace t = trace s @ [Logged (LogLock (locked_qc (update_locked_qc (pqc_qc pqc) (round_state s)))),
      Logged (LogCommitVote (view_of s)),
      Signed (commit_message (signing_profile s) (view_of s) (pqc_block_hash pqc)
        (cached_changes_hash (pqc_block_hash pqc) s)),
      Delivered (SendToValidator leader (MCommitVote cv))]"
proof -
  have r: "last_commit_voted_view (update_locked_qc q r) = last_commit_voted_view r"
     "current_view (update_locked_qc q r) = current_view r" for q r
    by (simp_all add: update_locked_qc_def)
  show ?thesis
    using assms
    by (simp add: process_prepare_qc_def Let_def upd_round_def log_free emit_free sign_with_def
        is_local_validator_active_for_view_def local_validator_index_for_view_def set_for_view_def
        leader_index_for_view_def cached_changes_hash_def stamp_def may_commit_vote_in_def r
        enter_pre_commit_def round_record_commit_vote_def framed_tick)
qed

section \<open>Round one: a proposal is answered by a vote\<close>

lemma absorb_shape:
  obtains r where "absorb_piggybacked_qc L qco s = s\<lparr> round_state := r \<rparr>"
    and "current_view r = view_of s" and "last_voted_view r = last_voted_view (round_state s)"
proof -
  have "\<exists>r. absorb_piggybacked_qc L qco s = s\<lparr> round_state := r \<rparr> \<and> current_view r = view_of s \<and>
      last_voted_view r = last_voted_view (round_state s)"
    by (rule exI [of _ "round_state (absorb_piggybacked_qc L qco s)"])
      (simp add: absorb_piggybacked_qc_def upd_round_def update_locked_qc_def split: option.split outcome.split)
  then show ?thesis using that by blast
qed

lemma accept_votes:
  assumes "signing_profile s = Native" and "\<not> carries_changes (p_validator_changes p)"
    and "is_local_validator_active_for_view (view_of s) s" and "may_vote_in (view_of s) (round_state s)"
    and "leader_index_for_view (view_of s) s = Ok leader"
    and "log_script s = []" and "out_script s = []"
  shows "\<exists>t v. accept_proposal L p s = (t, Ok ()) \<and>
    trace t = trace s @ [Delivered (ExecuteBlock (p_block_hash p)), Logged (LogVote (view_of s)),
      Signed (vote_message Native (view_of s) (p_block_hash p)), Delivered (SendToValidator leader (MVote v))]"
  using assms
  by (cases "p_tx_root_hash p") (simp_all add: accept_proposal_def Let_def upd_round_def log_free emit_free sign_with_def send_vote_def
      is_local_validator_active_for_view_def local_validator_index_for_view_def set_for_view_def
      leader_index_for_view_def stamp_def may_vote_in_def enter_voting_def round_record_vote_def framed_tick)

lemma proposal_votes_aux:
  assumes "signing_profile s = Native" and check: "check_proposal L p s = Ok m"
    and tracker: "proposal_equivocation_tracker s (p_proposer p) \<in> {None, Some (blake3 L m, b)}"
    and justify: "qc_view (p_justify_qc p) = 0 \<or> verify_qc_any_domain_or_known L (p_justify_qc p) s = Ok ()"
    and safe: "is_safe_to_vote (p_justify_qc p) (round_state s)"
    and "\<not> carries_changes (p_validator_changes p)"
    and "is_local_validator_active_for_view (view_of s) s" and "may_vote_in (view_of s) (round_state s)"
    and "leader_index_for_view (view_of s) s = Ok leader"
    and "log_script s = []" and "out_script s = []"
  shows "\<exists>t v. process_proposal L p s = (t, Ok ()) \<and>
    trace t = trace s @ [Accepted p, Delivered (ExecuteBlock (p_block_hash p)), Logged (LogVote (view_of s)),
      Signed (vote_message Native (view_of s) (p_block_hash p)), Delivered (SendToValidator leader (MVote v))]"
proof -
  have tracked: "\<exists>t v. process_tracked_proposal L p s' = (t, Ok ()) \<and>
      trace t = trace s @ [Accepted p, Delivered (ExecuteBlock (p_block_hash p)), Logged (LogVote (view_of s)),
      Signed (vote_message Native (view_of s) (p_block_hash p)), Delivered (SendToValidator leader (MVote v))]"
    if s': "s' = s\<lparr> proposal_equivocation_tracker := tr \<rparr>" for s' tr
  proof -
    have qc: "(if qc_view (p_justify_qc p) > 0 then verify_qc_any_domain_or_known L (p_justify_qc p) s' else Ok ())
        = Ok ()"
      using justify by (auto simp: s' verify_qc_any_domain_or_known_def cached_changes_hash_def Let_def
          resolve_qc_validator_set_def word_neq_0_conv)
    let ?s1 = "upd_round (update_locked_qc (p_justify_qc p)) (note_accepted p s')"
    obtain r where r: "absorb_piggybacked_qc L (p_prepare_qc p) ?s1 = ?s1\<lparr> round_state := r \<rparr>"
      "current_view r = view_of ?s1" "last_voted_view r = last_voted_view (round_state ?s1)"
      by (rule absorb_shape)
    let ?s2 = "?s1\<lparr> round_state := r \<rparr>"
    have same: "view_of ?s2 = view_of s" "last_voted_view (round_state ?s2) = last_voted_view (round_state s)"
      using r by (simp_all add: upd_round_def update_locked_qc_def note_accepted_def s')
    have "\<exists>t v. accept_proposal L p ?s2 = (t, Ok ()) \<and>
      trace t = trace ?s2 @ [Delivered (ExecuteBlock (p_block_hash p)), Logged (LogVote (view_of ?s2)),
      Signed (vote_message Native (view_of ?s2) (p_block_hash p)), Delivered (SendToValidator leader (MVote v))]"
      by (rule accept_votes)
        (use assms same in \<open>simp_all add: s' note_accepted_def upd_round_def may_vote_in_def
          is_local_validator_active_for_view_def local_validator_index_for_view_def set_for_view_def
          leader_index_for_view_def\<close>)
    then show ?thesis
      using safe qc same r(1)
      by (auto simp: process_tracked_proposal_def Let_def s' note_accepted_def upd_round_def)
  qed
  from tracker consider "proposal_equivocation_tracker s (p_proposer p) = None"
    | "proposal_equivocation_tracker s (p_proposer p) = Some (blake3 L m, b)" by auto
  then show ?thesis
  proof cases
    case 1
    then have "process_proposal L p s = process_tracked_proposal L p
        (s\<lparr> proposal_equivocation_tracker :=
              (proposal_equivocation_tracker s)(p_proposer p \<mapsto> (blake3 L m, p_block_hash p)) \<rparr>)"
      by (simp add: process_proposal_def Let_def check)
    then show ?thesis using tracked [OF refl] by metis
  next
    case 2
    then have "process_proposal L p s = process_tracked_proposal L p s"
      by (simp add: process_proposal_def Let_def check)
    then show ?thesis using tracked [of s "proposal_equivocation_tracker s"] by simp
  qed
qed

lemma current_view_dispatch:
  assumes "message_view_of msg = view_of s"
  shows "process_event L (EvMessage msg) s = dispatch_message L (advance_to_view L) msg None s"
  using assms by (simp add: process_message_def process_message_inner_def Let_def)

end
