(* ===== verification/N42_Instance.thy ===== *)
theory N42_Instance
  imports N42_Agreement N42_Progress
begin

text \<open>
  A concrete system: one validator with the library of \<open>toy_lib\<close>. Its engine is started, receives
  a proposal or a PrepareQC and votes; three lifetimes of it sign a vote, a commit vote and a vote
  in the next view. The statements about all runs and all histories are evaluated on this system.
\<close>

section \<open>One validator\<close>

definition solo_set :: validator_set where
  "solo_set = \<lparr> validators = [\<lparr> ve_address = 1, ve_public_key = [9], ve_p2p_peer_id = None \<rparr>],
     fault_tolerance = 0 \<rparr>"

definition toy_qc :: "view_number \<Rightarrow> b256 \<Rightarrow> quorum_certificate" where
  "toy_qc v b = \<lparr> qc_view = v, qc_block_hash = b, qc_aggregate_signature = [], qc_signers = [True] \<rparr>"

definition toy_genesis :: quorum_certificate where
  "toy_genesis = \<lparr> qc_view = 0, qc_block_hash = 0, qc_aggregate_signature = ascii ''genesis'', qc_signers = [] \<rparr>"

definition toy_env :: environment where
  "toy_env = \<lparr> env_out = [], env_log = [], env_now = 0, env_ticks = [] \<rparr>"

definition solo :: "ext_lib \<Rightarrow> view_number \<Rightarrow> quorum_certificate \<Rightarrow> view_number \<Rightarrow> view_number \<Rightarrow> engine" where
  "solo L view locked voted commit_voted =
     restarted L Native 0 [9] (epoch_new solo_set) 1000 8000 toy_env view locked toy_genesis 0
       voted commit_voted"

lemma solo_facts:
  "epoch_manager (solo L v q a b) = epoch_new solo_set" "signing_profile (solo L v q a b) = Native"
  "local_public_key (solo L v q a b) = blst_sk_to_pk L [9]" "out_script (solo L v q a b) = []"
  "log_script (solo L v q a b) = []" "view_of (solo L v q a b) = v" "trace (solo L v q a b) = []"
  "locked_qc (round_state (solo L v q a b)) = q" "last_committed_qc (round_state (solo L v q a b)) = toy_genesis"
  "future_msg_buffer (solo L v q a b) = []" "last_voted_view (round_state (solo L v q a b)) = a"
  "last_commit_voted_view (round_state (solo L v q a b)) = b"
  "proposal_equivocation_tracker (solo L v q a b) = Map.empty"
  "pending_changes_hashes (solo L v q a b) = bf_new 64"
  by (simp_all add: solo_def restarted_def with_recovered_state_and_vote_log_def engine_from_def Let_def
      framed_tick bls_public_key_def round_from_snapshot_def toy_env_def tick_def)

lemma solo_set_facts:
  "set_for_view w (solo L v q a b) = solo_set"
  "leader_for_view w solo_set = Ok 0" "get_public_key solo_set 0 = Ok [9]"
  "index_of_public_key solo_set [9] = Some 0"
  "vset_len solo_set = 1" "quorum_size solo_set = 1" "vset_wf solo_set"
  "known_validator_set_for_view w (epoch_new solo_set) = Some solo_set"
  subgoal by (simp add: set_for_view_def solo_facts validator_set_for_view_def epoch_new_def solo_set_def epochs_enabled_def)
  subgoal by (simp add: leader_for_view_def solo_set_def vset_len_def vset_is_empty_def)
  subgoal by (simp add: get_public_key_def solo_set_def)
  subgoal by (simp add: index_of_public_key_def solo_set_def)
  subgoal by (simp add: vset_len_def solo_set_def)
  subgoal by (simp add: quorum_size_def solo_set_def)
  subgoal by (simp add: vset_wf_def solo_set_def)
  subgoal by (simp add: known_validator_set_for_view_def epoch_new_def epochs_enabled_def)
  done


definition toy_proposal :: "view_number \<Rightarrow> b256 \<Rightarrow> quorum_certificate \<Rightarrow> proposal" where
  "toy_proposal v b justify = \<lparr> p_view = v, p_block_hash = b, p_justify_qc = justify, p_proposer = 0,
     p_signature = proposal_signing_message (toy_lib (\<lambda>_. True)) v b None, p_prepare_qc = None, p_tx_root_hash = None,
     p_validator_changes = None \<rparr>"

lemma toy_verify_qc:
  assumes "P (vote_message Native v b)"
  shows "verify_qc_with_profile (toy_lib P) (toy_qc v b) solo_set Native = Ok ()"
  using assms by (simp add: verify_qc_Ok toy_qc_def solo_set_facts card_signer_set verify_aggregate_def)

text \<open>The engine is ready to vote for the proposal: every condition of the voting rule holds.\<close>

lemma solo_ready_to_vote:
  fixes P :: "bytes \<Rightarrow> bool" and b :: view_number and c :: b256
  assumes "a < v" and "qc_view q \<le> qc_view j" and "qc_view j = 0 \<or> j = q"
  defines "L \<equiv> toy_lib P"
  defines "s \<equiv> solo L v q a b" and "p \<equiv> toy_proposal v c j"
  shows "signing_profile s = Native"
    and "check_proposal L p s = Ok (proposal_signing_message L v c None)"
    and "proposal_equivocation_tracker s (p_proposer p) \<in> {None, Some (blake3 L (proposal_signing_message L v c None), 0)}"
    and "qc_view (p_justify_qc p) = 0 \<or> verify_qc_any_domain_or_known L (p_justify_qc p) s = Ok ()"
    and "is_safe_to_vote (p_justify_qc p) (round_state s)"
    and "\<not> carries_changes (p_validator_changes p)"
    and "is_local_validator_active_for_view (view_of s) s" and "may_vote_in (view_of s) (round_state s)"
    and "leader_index_for_view (view_of s) s = Ok 0" and "log_script s = []" and "out_script s = []"
proof -
  show "check_proposal L p s = Ok (proposal_signing_message L v c None)"
    by (simp add: check_proposal_def p_def s_def L_def toy_proposal_def solo_facts solo_set_facts
        proposal_signing_message_def validator_changes_hash_def Let_def bls_verify_prevalidated_def)
  show "qc_view (p_justify_qc p) = 0 \<or> verify_qc_any_domain_or_known L (p_justify_qc p) s = Ok ()"
    using assms(3) by (auto simp: p_def s_def toy_proposal_def verify_qc_any_domain_or_known_def solo_facts)
  show "is_local_validator_active_for_view (view_of s) s"
    by (simp add: s_def L_def is_local_validator_active_for_view_def local_validator_index_for_view_def solo_facts
        solo_set_facts)
qed (use assms(1,2) in \<open>simp_all add: p_def s_def solo_facts solo_set_facts toy_proposal_def may_vote_in_def
      is_safe_to_vote_def leader_index_for_view_def carries_changes_def\<close>)

lemma solo_proposal:
  assumes "a < v" and "qc_view q \<le> qc_view j" and "qc_view j = 0 \<or> j = q"
  shows "\<exists>t x. process_proposal (toy_lib P) (toy_proposal v c j) (solo (toy_lib P) v q a b) = (t, Ok ()) \<and>
    trace t = [Accepted (toy_proposal v c j), Delivered (ExecuteBlock c), Logged (LogVote v),
      Signed (vote_message Native v c), Delivered x]"
proof -
  let ?s = "solo (toy_lib P) v q a b" and ?p = "toy_proposal v c j"
  have "\<exists>t x. process_proposal (toy_lib P) ?p ?s = (t, Ok ()) \<and> trace t = trace ?s @ [Accepted ?p,
      Delivered (ExecuteBlock (p_block_hash ?p)), Logged (LogVote (view_of ?s)),
      Signed (vote_message Native (view_of ?s) (p_block_hash ?p)), Delivered (SendToValidator 0 (MVote x))]"
    by (rule proposal_votes_aux) (rule solo_ready_to_vote [OF assms])+
  then show ?thesis by (auto simp: solo_facts toy_proposal_def)
qed

lemma solo_votes_step:
  assumes "a < v" and "qc_view q \<le> qc_view j" and "qc_view j = 0 \<or> j = q"
  shows "\<exists>t x. engine_step (toy_lib P) (solo (toy_lib P) v q a b) t \<and>
    trace t = [Accepted (toy_proposal v c j), Delivered (ExecuteBlock c), Logged (LogVote v),
      Signed (vote_message Native v c), Delivered x]"
proof -
  let ?L = "toy_lib P" let ?s = "solo ?L v q a b" and ?p = "toy_proposal v c j"
  obtain t x where t: "process_proposal ?L ?p ?s = (t, Ok ())"
    "trace t = [Accepted ?p, Delivered (ExecuteBlock c), Logged (LogVote v), Signed (vote_message Native v c), Delivered x]"
    using solo_proposal [OF assms] by blast
  have "process_event ?L (EvMessage (MProposal ?p)) ?s = (t, Ok ())"
    using t(1) by (subst current_view_dispatch) (simp_all add: dispatch_message_def toy_proposal_def solo_facts)
  then have "engine_step ?L ?s t" by (blast intro: step_event)
  then show ?thesis using t(2) by blast
qed

lemma solo_votes:
  assumes "a < v" and "qc_view q \<le> qc_view j" and "qc_view j = 0 \<or> j = q"
  shows "\<exists>t x. run (toy_lib P) (solo (toy_lib P) v q a b) t \<and>
    trace t = [Accepted (toy_proposal v c j), Delivered (ExecuteBlock c), Logged (LogVote v),
      Signed (vote_message Native v c), Delivered x]"
  using solo_votes_step [OF assms] by blast

definition toy_prepare_qc :: "view_number \<Rightarrow> b256 \<Rightarrow> prepare_qc" where
  "toy_prepare_qc v c = \<lparr> pqc_view = v, pqc_block_hash = c, pqc_qc = toy_qc v c \<rparr>"

lemma solo_ready_to_commit:
  fixes a :: view_number and q :: quorum_certificate
  assumes "b < v" and "P (vote_message Native v c)"
  defines "L \<equiv> toy_lib P"
  defines "s \<equiv> solo L v q a b" and "m \<equiv> toy_prepare_qc v c"
  shows "pqc_view m = view_of s" and "qc_view (pqc_qc m) = view_of s"
    and "qc_block_hash (pqc_qc m) = pqc_block_hash m"
    and "resolve_qc_validator_set (pqc_qc m) s = Ok solo_set"
    and "verify_qc_with_profile L (pqc_qc m) solo_set (signing_profile s) = Ok ()"
    and "is_local_validator_active_for_view (view_of s) s"
    and "may_commit_vote_in (view_of s) (round_state s)"
    and "leader_index_for_view (view_of s) s = Ok 0" and "log_script s = []" and "out_script s = []"
proof -
  show "verify_qc_with_profile L (pqc_qc m) solo_set (signing_profile s) = Ok ()"
    using toy_verify_qc [of P v c] assms(2) by (simp add: L_def s_def m_def toy_prepare_qc_def solo_facts)
  show "is_local_validator_active_for_view (view_of s) s"
    by (simp add: s_def L_def is_local_validator_active_for_view_def local_validator_index_for_view_def solo_facts
        solo_set_facts)
qed (use assms(1) in \<open>simp_all add: s_def m_def toy_prepare_qc_def solo_facts solo_set_facts may_commit_vote_in_def
      leader_index_for_view_def resolve_qc_validator_set_def toy_qc_def\<close>)

lemma solo_prepare:
  assumes "b < v" and "qc_view q < v" and "P (vote_message Native v c)"
  shows "\<exists>t x. process_prepare_qc (toy_lib P) (toy_prepare_qc v c) (solo (toy_lib P) v q a b) = (t, Ok ()) \<and>
    trace t = [Logged (LogLock (toy_qc v c)), Logged (LogCommitVote v), Signed (commit_message Native v c 0),
      Delivered x]"
proof -
  let ?s = "solo (toy_lib P) v q a b"
  have "cached_changes_hash c ?s = 0"
    by (simp add: cached_changes_hash_def solo_facts bf_new_def bf_get_def)
  moreover have "locked_qc (update_locked_qc (toy_qc v c) (round_state ?s)) = toy_qc v c"
    using assms(2) by (simp add: update_locked_qc_def solo_facts toy_qc_def)
  moreover have "\<exists>t cv. process_prepare_qc (toy_lib P) (toy_prepare_qc v c) ?s = (t, Ok ()) \<and>
    trace t = trace ?s @ [Logged (LogLock (locked_qc (update_locked_qc (pqc_qc (toy_prepare_qc v c)) (round_state ?s)))),
      Logged (LogCommitVote (view_of ?s)),
      Signed (commit_message (signing_profile ?s) (view_of ?s) (pqc_block_hash (toy_prepare_qc v c))
        (cached_changes_hash (pqc_block_hash (toy_prepare_qc v c)) ?s)),
      Delivered (SendToValidator 0 (MCommitVote cv))]"
    by (rule prepare_qc_votes_aux) (rule solo_ready_to_commit, rule assms(1), rule assms(3))+
  ultimately show ?thesis by (auto simp: solo_facts toy_prepare_qc_def)
qed

lemma solo_commits_step:
  assumes "b < v" and "qc_view q < v" and "P (vote_message Native v c)"
  shows "\<exists>t x. engine_step (toy_lib P) (solo (toy_lib P) v q a b) t \<and>
    trace t = [Logged (LogLock (toy_qc v c)), Logged (LogCommitVote v), Signed (commit_message Native v c 0),
      Delivered x]"
proof -
  let ?L = "toy_lib P" let ?s = "solo ?L v q a b"
  obtain t x where t: "process_prepare_qc ?L (toy_prepare_qc v c) ?s = (t, Ok ())"
    "trace t = [Logged (LogLock (toy_qc v c)), Logged (LogCommitVote v), Signed (commit_message Native v c 0), Delivered x]"
    using solo_prepare [of b v q P c a] assms by blast
  have "process_event ?L (EvMessage (MPrepareQC (toy_prepare_qc v c))) ?s = (t, Ok ())"
    using t(1) by (subst current_view_dispatch) (simp_all add: dispatch_message_def solo_facts toy_prepare_qc_def)
  then have "engine_step ?L ?s t" by (blast intro: step_event)
  then show ?thesis using t(2) by blast
qed

lemma solo_commits:
  assumes "b < v" and "qc_view q < v" and "P (vote_message Native v c)"
  shows "\<exists>t x. run (toy_lib P) (solo (toy_lib P) v q a b) t \<and>
    trace t = [Logged (LogLock (toy_qc v c)), Logged (LogCommitVote v), Signed (commit_message Native v c 0),
      Delivered x]"
  using solo_commits_step [of b v q P c a] assms by blast

text \<open>With an empty buffer and no epochs, entering a later view succeeds.\<close>

lemma solo_advance:
  assumes "view_of s < v" and "future_msg_buffer s = []" and "\<not> epochs_enabled (epoch_manager s)"
  shows "\<exists>t. advance_to_view L v s = (t, Ok ()) \<and> out_script t = out_script s"
proof -
  have "out_script (enter_view v t) = out_script t" for t
    by (simp add: enter_view_def Let_def upd_round_def reset_pacemaker_def forget_imports_def
        sync_local_validator_index_def split: option.split)
  moreover have "\<not> v \<le> view_of s" using assms(1) by simp
  ultimately show ?thesis
    using assms(2,3)
    by (auto simp: advance_to_view_def advance_body_def cross_epochs.simps enter_view_buffer to_replay_def Let_def)
qed

lemma solo_jump:
  assumes "extract_qc_from_message msg = Some qc" and "0 < qc_view qc"
    and "verify_jump_qc L msg qc (solo L v q a b) = Some (Ok ())" and "v < saturating_add (qc_view qc) 1"
  shows "\<exists>t. try_qc_view_jump L msg (solo L v q a b) = (t, Ok True)"
proof -
  let ?s = "solo L v q a b"
  let ?l = "upd_round reset_consecutive_timeouts (upd_round (update_locked_qc qc) ?s)"
  let ?u = "?l\<lparr> trace := trace ?l @ [Delivered (SyncRequired v (saturating_add (qc_view qc) 1))] \<rparr>"
  have l: "out_script ?l = []" "future_msg_buffer ?l = []" "epoch_manager ?l = epoch_new solo_set"
    "view_of ?l = v"
    by (simp_all add: upd_round_def solo_facts reset_consecutive_timeouts_def update_locked_qc_def)
  have "\<not> epochs_enabled (epoch_manager ?u)" by (simp add: l epochs_enabled_def epoch_new_def)
  then obtain t where "advance_to_view L (saturating_add (qc_view qc) 1) ?u = (t, Ok ())" "out_script t = []"
    using solo_advance [of ?u] assms(4) l by auto
  moreover have "\<not> saturating_add (qc_view qc) 1 \<le> v" using assms(4) by simp
  ultimately show ?thesis
    using assms(1-3) l by (simp add: try_qc_view_jump_def Let_def emit_free solo_facts)
qed

section \<open>Three lifetimes\<close>

lemma next_solo:
  assumes "lifetimes L Native current h" and "run L (solo L v q a b) t" and "trace t = seg"
    and "\<And>v. Logged (LogVote v) \<in> set h \<Longrightarrow> v \<le> a"
    and "\<And>v. Logged (LogCommitVote v) \<in> set h \<Longrightarrow> v \<le> b"
    and "\<And>w. Logged (LogCommitVote w) \<in> set h \<Longrightarrow> w \<le> qc_view q"
    and "\<And>w. current \<Longrightarrow> Logged (LogVote w) \<in> set h \<Longrightarrow> w \<le> v"
  shows "lifetimes L Native current (h @ seg)"
  by (rule next_lifetime [OF assms(1) solo_def assms(4-7,2), where lost = "[]"]) (simp_all add: assms(3))

definition toy_messages :: "bytes \<Rightarrow> bool" where
  "toy_messages m \<longleftrightarrow> m \<in> {vote_message Native 8 77, commit_message Native 8 77 0, vote_message Native 9 88}"

lemma toy_history:
  "\<exists>h. lifetimes (toy_lib toy_messages) Native True h \<and> (\<forall>m. toy_messages m \<longrightarrow> Signed m \<in> set h)"
proof -
  let ?L = "toy_lib toy_messages"
  have in8: "toy_messages (vote_message Native 8 77)" by (simp add: toy_messages_def)
  obtain t1 x1 where t1: "run ?L (solo ?L 8 (toy_qc 0 0) 0 0) t1"
    "trace t1 = [Accepted (toy_proposal 8 77 (toy_qc 0 0)), Delivered (ExecuteBlock 77),
      Logged (LogVote 8), Signed (vote_message Native 8 77), Delivered x1]"
    using solo_votes [of 0 8 "toy_qc 0 0" "toy_qc 0 0" toy_messages 0 77] by auto
  obtain t2 x2 where t2: "run ?L (solo ?L 8 (toy_qc 0 0) 8 0) t2"
    "trace t2 = [Logged (LogLock (toy_qc 8 77)), Logged (LogCommitVote 8),
      Signed (commit_message Native 8 77 0), Delivered x2]"
    using solo_commits [of 0 8 "toy_qc 0 0" toy_messages 77 8] in8 by (auto simp: toy_qc_def)
  obtain t3 x3 where t3: "run ?L (solo ?L 9 (toy_qc 8 77) 8 8) t3"
    "trace t3 = [Accepted (toy_proposal 9 88 (toy_qc 8 77)), Delivered (ExecuteBlock 88),
      Logged (LogVote 9), Signed (vote_message Native 9 88), Delivered x3]"
    using solo_votes [of 8 9 "toy_qc 8 77" "toy_qc 8 77" toy_messages 8 88] by auto
  have "lifetimes ?L Native True (trace t1)"
    using next_solo [OF never_started t1(1) refl] by simp
  from next_solo [OF this t2(1) refl] have "lifetimes ?L Native True (trace t1 @ trace t2)"
    by (simp add: t1(2))
  from next_solo [OF this t3(1) refl] have "lifetimes ?L Native True ((trace t1 @ trace t2) @ trace t3)"
    by (auto simp: t1(2) t2(2) toy_qc_def)
  moreover have "\<forall>m. toy_messages m \<longrightarrow> Signed m \<in> set ((trace t1 @ trace t2) @ trace t3)"
    by (simp add: toy_messages_def t1(2) t2(2) t3(2))
  ultimately show ?thesis by blast
qed


lemma toy_unforgeable:
  assumes "\<forall>m. P m \<longrightarrow> Signed m \<in> set h"
  shows "aggregate_unforgeable (toy_lib P) Native solo_set {} (\<lambda>_. h)"
  using assms by (simp add: aggregate_unforgeable_def verify_aggregate_def Let_def split: if_splits)

lemma toy_system:
  "\<exists>h. lifetimes (toy_lib toy_messages) Native True h \<and> lifetimes (toy_lib toy_messages) Native False h \<and>
     aggregate_unforgeable (toy_lib toy_messages) Native solo_set {} (\<lambda>_. h)"
  using toy_history toy_unforgeable lifetimes_weaken by blast

lemma toy_certificates:
  "verify_commit_qc_with_profile (toy_lib toy_messages) (toy_qc 8 77) solo_set 0 Native = Ok ()"
  "verify_qc_with_profile (toy_lib toy_messages) (toy_qc 8 77) solo_set Native = Ok ()"
  "verify_qc_with_profile (toy_lib toy_messages) (toy_qc 9 88) solo_set Native = Ok ()"
  by (simp_all add: verify_commit_qc_Ok verify_qc_Ok toy_qc_def solo_set_facts card_signer_set
      verify_aggregate_def toy_messages_def)

end
