(* ===== verification/N42_Files.thy ===== *)
theory N42_Files
  imports N42_Prelude
begin

text \<open>
  The part of \<^verbatim>\<open>std::fs\<close> that the persistence code uses, with its crash behaviour. A file has a
  current content, the contents its blocks may hold after a crash, and the contents its directory
  entry may fall back to while the directory has not been synchronised. Every system call may
  fail; a failed write may have written a part. Writes that stay within one 512-byte sector are
  atomic, longer ones may be cut at a sector boundary: this is the assumption on the storage.
\<close>

section \<open>Files and what a crash may leave of them\<close>

datatype file_name = StateFile | StateTmp | VoteLogFile | LockFile | LockTmp | LineageFile | TreeFile | TreeTmp | WalFile

record fs_file =
  f_content :: "bytes option"
  f_data :: "bytes set"
  f_entry :: "bytes option set"

definition survivors :: "fs_file \<Rightarrow> bytes option set" where
  "survivors f = f_entry f \<union> (case f_content f of None \<Rightarrow> {None} | Some _ \<Rightarrow> Some ` f_data f)"

definition settled :: "bytes option \<Rightarrow> fs_file" where
  "settled c = \<lparr> f_content = c, f_data = set_option c, f_entry = {} \<rparr>"

definition sector :: nat where "sector = 512"

definition overlay :: "bytes \<Rightarrow> nat \<Rightarrow> bytes \<Rightarrow> bytes" where
  "overlay c off bs = take off (c @ replicate (off - length c) 0) @ bs @ drop (off + length bs) c"

definition tears :: "nat \<Rightarrow> bytes \<Rightarrow> nat set" where
  "tears off bs = {k. k \<le> length bs \<and> (k = 0 \<or> k = length bs \<or> sector dvd off + k)}"

definition file_write :: "nat \<Rightarrow> bytes \<Rightarrow> fs_file \<Rightarrow> fs_file" where
  "file_write off bs f = (case f_content f of
     None \<Rightarrow> f
   | Some c \<Rightarrow> f\<lparr> f_content := Some (overlay c off bs),
                 f_data := f_data f \<union> (\<lambda>k. overlay c off (take k bs)) ` tears off bs \<rparr>)"

definition file_open :: "fs_file \<Rightarrow> fs_file" where
  "file_open f = (case f_content f of
     None \<Rightarrow> f\<lparr> f_content := Some [], f_data := {[]}, f_entry := insert None (f_entry f) \<rparr>
   | Some _ \<Rightarrow> f)"

definition file_truncate :: "nat \<Rightarrow> fs_file \<Rightarrow> fs_file" where
  "file_truncate n f = (case f_content f of
     None \<Rightarrow> f
   | Some c \<Rightarrow> f\<lparr> f_content := Some (take n c), f_data := insert (take n c) (f_data f) \<rparr>)"

definition file_sync :: "fs_file \<Rightarrow> fs_file" where
  "file_sync f = f\<lparr> f_data := set_option (f_content f) \<rparr>"

section \<open>The disk and its system calls\<close>

text \<open>A call is done, or fails; the number says how much of a failed write was written.\<close>

datatype syscall = Done | Fails nat

record disk =
  dk_files :: "file_name \<Rightarrow> fs_file"
  dk_script :: "syscall list"

datatype data_error =
    LineageMagic | LineageChecksum
  | SnapshotRejected | SnapshotJson | SnapshotPredatesV2 nat | SnapshotMissingR2View
  | VoteLogLength nat
  | LockMagic | LockTruncated | LockChecksum | LockDecode

datatype io_error = NotFound | UnexpectedEof | InvalidData data_error | OtherIo

type_synonym 'a io_result = "disk \<times> (io_error, 'a) outcome"

definition on_file :: "file_name \<Rightarrow> (fs_file \<Rightarrow> fs_file) \<Rightarrow> disk \<Rightarrow> disk" where
  "on_file n g d = d\<lparr> dk_files := (dk_files d)(n := g (dk_files d n)) \<rparr>"

definition content_of :: "file_name \<Rightarrow> disk \<Rightarrow> bytes option" where
  "content_of n d = f_content (dk_files d n)"

definition call :: "(disk \<Rightarrow> 'a io_result) \<Rightarrow> (nat \<Rightarrow> disk \<Rightarrow> disk) \<Rightarrow> disk \<Rightarrow> 'a io_result" where
  "call act part d = (case dk_script d of
     [] \<Rightarrow> act d
   | Done # rs \<Rightarrow> act (d\<lparr> dk_script := rs \<rparr>)
   | Fails n # rs \<Rightarrow> (part n (d\<lparr> dk_script := rs \<rparr>), Err OtherIo))"

abbreviation plain_call :: "(disk \<Rightarrow> 'a io_result) \<Rightarrow> disk \<Rightarrow> 'a io_result" where
  "plain_call act \<equiv> call act (\<lambda>_ d. d)"

definition fs_touch :: "disk \<Rightarrow> unit io_result" where
  "fs_touch d = plain_call (\<lambda>d. (d, Ok ())) d"

abbreviation create_dir_all :: "disk \<Rightarrow> unit io_result" where "create_dir_all \<equiv> fs_touch"
abbreviation fs_seek :: "disk \<Rightarrow> unit io_result" where "fs_seek \<equiv> fs_touch"
abbreviation fs_lock :: "disk \<Rightarrow> unit io_result" where "fs_lock \<equiv> fs_touch"

definition fs_open :: "file_name \<Rightarrow> disk \<Rightarrow> unit io_result" where
  "fs_open n d = plain_call (\<lambda>d. (on_file n file_open d, Ok ())) d"

definition fs_open_existing :: "file_name \<Rightarrow> disk \<Rightarrow> unit io_result" where
  "fs_open_existing n d = plain_call (\<lambda>d. case content_of n d of
     None \<Rightarrow> (d, Err NotFound) | Some _ \<Rightarrow> (d, Ok ())) d"

definition fs_create :: "file_name \<Rightarrow> disk \<Rightarrow> unit io_result" where
  "fs_create n d = plain_call (\<lambda>d. (on_file n (file_truncate 0 \<circ> file_open) d, Ok ())) d"

definition fs_read :: "file_name \<Rightarrow> disk \<Rightarrow> bytes io_result" where
  "fs_read n d = plain_call (\<lambda>d. case content_of n d of
     None \<Rightarrow> (d, Err NotFound) | Some c \<Rightarrow> (d, Ok c)) d"

definition fs_len :: "file_name \<Rightarrow> disk \<Rightarrow> nat io_result" where
  "fs_len n d = plain_call (\<lambda>d. case content_of n d of
     None \<Rightarrow> (d, Err NotFound) | Some c \<Rightarrow> (d, Ok (length c))) d"

text \<open>\<open>read_exact\<close> of a fixed number of bytes at an offset.\<close>

definition fs_read_exact :: "file_name \<Rightarrow> nat \<Rightarrow> nat \<Rightarrow> disk \<Rightarrow> bytes io_result" where
  "fs_read_exact n off len d = plain_call (\<lambda>d. case content_of n d of
     None \<Rightarrow> (d, Err NotFound)
   | Some c \<Rightarrow> if off + len \<le> length c then (d, Ok (take len (drop off c))) else (d, Err UnexpectedEof)) d"

definition fs_write :: "file_name \<Rightarrow> nat \<Rightarrow> bytes \<Rightarrow> disk \<Rightarrow> unit io_result" where
  "fs_write n off bs d = call (\<lambda>d. (on_file n (file_write off bs) d, Ok ()))
     (\<lambda>k. on_file n (file_write off (take (if k \<in> tears off bs then k else 0) bs))) d"

definition fs_append :: "file_name \<Rightarrow> bytes \<Rightarrow> disk \<Rightarrow> unit io_result" where
  "fs_append n bs d = fs_write n (case content_of n d of None \<Rightarrow> 0 | Some c \<Rightarrow> length c) bs d"

definition fs_set_len :: "file_name \<Rightarrow> nat \<Rightarrow> disk \<Rightarrow> unit io_result" where
  "fs_set_len n len d = plain_call (\<lambda>d. (on_file n (file_truncate len) d, Ok ())) d"

definition fs_sync :: "file_name \<Rightarrow> disk \<Rightarrow> unit io_result" where
  "fs_sync n d = plain_call (\<lambda>d. (on_file n file_sync d, Ok ())) d"

definition fs_rename :: "file_name \<Rightarrow> file_name \<Rightarrow> disk \<Rightarrow> unit io_result" where
  "fs_rename a b d = plain_call (\<lambda>d. case content_of a d of
     None \<Rightarrow> (d, Err NotFound)
   | Some _ \<Rightarrow>
       let fa = dk_files d a; fb = dk_files d b in
       (d\<lparr> dk_files := (dk_files d)(b := fa\<lparr> f_entry := survivors fb \<rparr>,
           a := \<lparr> f_content = None, f_data = {}, f_entry = survivors fa \<rparr>) \<rparr>, Ok ())) d"

definition sync_parent_directory :: "disk \<Rightarrow> unit io_result" where
  "sync_parent_directory d = plain_call (\<lambda>d.
     (d\<lparr> dk_files := (\<lambda>n. (dk_files d n)\<lparr> f_entry := {} \<rparr>) \<rparr>, Ok ())) d"

text \<open>The match on a read in which a missing file is no error.\<close>

definition if_missing :: "'a io_result \<Rightarrow> 'b \<Rightarrow> ('a \<Rightarrow> disk \<Rightarrow> 'b io_result) \<Rightarrow> 'b io_result" where
  "if_missing p z k = (case p of
     (d, Ok a) \<Rightarrow> k a d
   | (d, Err e) \<Rightarrow> if e = NotFound then (d, Ok z) else (d, Err e)
   | (d, Panic) \<Rightarrow> (d, Panic))"

text \<open>After a crash every file holds one of its survivors.\<close>

definition crash :: "disk \<Rightarrow> disk \<Rightarrow> bool" where
  "crash d d' \<longleftrightarrow> (\<forall>n. \<exists>c \<in> survivors (dk_files d n). dk_files d' n = settled c)"

section \<open>Calls, by what they do to the files\<close>

definition fs_file_ok :: "fs_file \<Rightarrow> bool" where
  "fs_file_ok f \<longleftrightarrow> (case f_content f of None \<Rightarrow> f_data f = {} | Some c \<Rightarrow> c \<in> f_data f)"

text \<open>Every content the file may hold after a crash satisfies the predicate, and so does the current one.\<close>

definition keeps :: "file_name \<Rightarrow> (bytes option \<Rightarrow> bool) \<Rightarrow> disk \<Rightarrow> bool" where
  "keeps n P d \<longleftrightarrow> fs_file_ok (dk_files d n) \<and> (\<forall>c \<in> survivors (dk_files d n). P c)"

lemma keeps_content: "keeps n P d \<Longrightarrow> P (content_of n d)"
  by (auto simp: keeps_def fs_file_ok_def survivors_def content_of_def split: option.splits)

lemma keeps_mono: "keeps n P d \<Longrightarrow> (\<And>c. P c \<Longrightarrow> Q c) \<Longrightarrow> keeps n Q d"
  by (auto simp: keeps_def)

lemma settled_facts [simp]: "fs_file_ok (settled c)" "survivors (settled c) = {c}" "f_content (settled c) = c"
  by (cases c; simp add: settled_def fs_file_ok_def survivors_def)+

lemma keeps_crash: "keeps n P d \<Longrightarrow> crash d d' \<Longrightarrow> keeps n P d'"
proof -
  assume k: "keeps n P d" and "crash d d'"
  then obtain c where "c \<in> survivors (dk_files d n)" and "dk_files d' n = settled c" by (auto simp: crash_def)
  with k show "keeps n P d'" by (auto simp: keeps_def)
qed

text \<open>A call either acts or fails; the remaining script plays no part in the properties.\<close>

lemma call_cases:
  assumes "call act part d = (d', r)"
  obtains (acts) d0 where "dk_files d0 = dk_files d" and "act d0 = (d', r)"
  | (fails) d0 k where "dk_files d0 = dk_files d" and "d' = part k d0" and "r = Err OtherIo"
proof (cases "dk_script d")
  case Nil
  then show ?thesis using assms acts [of d] by (simp add: call_def)
next
  case (Cons c rs)
  then show ?thesis
    using assms acts [of "d\<lparr> dk_script := rs \<rparr>"] fails [of "d\<lparr> dk_script := rs \<rparr>"]
    by (cases c) (auto simp: call_def)
qed

lemma files_on_file [simp]: "dk_files (on_file n g d) = (dk_files d)(n := g (dk_files d n))"
  by (simp add: on_file_def)

section \<open>Which files a call keeps good\<close>

lemma keeps_files: "dk_files d' n = dk_files d n \<Longrightarrow> keeps n P d' = keeps n P d"
  by (simp add: keeps_def)

lemma keeps_file_open:
  "keeps n P d \<Longrightarrow> (content_of n d = None \<Longrightarrow> P (Some [])) \<Longrightarrow> dk_files d' n = file_open (dk_files d n) \<Longrightarrow>
     keeps n P d'"
  by (auto simp: keeps_def file_open_def fs_file_ok_def survivors_def content_of_def split: option.splits)

lemma keeps_file_truncate:
  "keeps n P d \<Longrightarrow> (\<And>c. content_of n d = Some c \<Longrightarrow> P (Some (take len c))) \<Longrightarrow>
     dk_files d' n = file_truncate len (dk_files d n) \<Longrightarrow> keeps n P d'"
  by (auto simp: keeps_def file_truncate_def fs_file_ok_def survivors_def content_of_def split: option.splits)

lemma keeps_file_sync: "keeps n P d \<Longrightarrow> dk_files d' n = file_sync (dk_files d n) \<Longrightarrow> keeps n P d'"
  by (auto simp: keeps_def file_sync_def fs_file_ok_def survivors_def split: option.splits)

lemma keeps_entry: "keeps n P d \<Longrightarrow> dk_files d' n = (dk_files d n)\<lparr> f_entry := {} \<rparr> \<Longrightarrow> keeps n P d'"
  by (auto simp: keeps_def fs_file_ok_def survivors_def split: option.splits)

lemma tears_take: "k \<in> tears off bs \<Longrightarrow> tears off (take k bs) \<subseteq> tears off bs"
  by (auto simp: tears_def)

lemma keeps_file_write:
  assumes "keeps n P d" and "k \<in> tears off bs" and "dk_files d' n = file_write off (take k bs) (dk_files d n)"
    and "\<And>c j. content_of n d = Some c \<Longrightarrow> j \<in> tears off bs \<Longrightarrow> P (Some (overlay c off (take j bs)))"
  shows "keeps n P d'"
proof (cases "content_of n d")
  case None
  then show ?thesis using assms(1,3) by (simp add: keeps_def file_write_def content_of_def)
next
  case (Some c)
  have j: "P (Some (overlay c off (take j (take k bs))))" if "j \<in> tears off (take k bs)" for j
  proof -
    have "j \<in> tears off bs" using that tears_take [OF assms(2)] by blast
    moreover have "j \<le> k" using that by (simp add: tears_def)
    then have "take j (take k bs) = take j bs" by (simp add: min_absorb1)
    ultimately show ?thesis using assms(4) [OF Some] by metis
  qed
  have "length (take k bs) \<in> tears off (take k bs)" by (simp add: tears_def)
  then have "overlay c off (take k bs) \<in> (\<lambda>j. overlay c off (take j (take k bs))) ` tears off (take k bs)"
    by (rule image_eqI [rotated]) (simp add: min_def)
  then show ?thesis
    using assms(1,3) Some j
    by (auto simp: keeps_def file_write_def content_of_def fs_file_ok_def survivors_def)
qed

section \<open>Rules for sequences of calls\<close>

text \<open>
  \<open>ends p E Q\<close>: the call ends, without a panic, with a disk that satisfies \<open>E\<close> if it fails and with
  a value and a disk that satisfy \<open>Q\<close> if it succeeds.
\<close>

definition ends :: "'s \<times> ('e, 'a) outcome \<Rightarrow> ('s \<Rightarrow> bool) \<Rightarrow> ('a \<Rightarrow> 's \<Rightarrow> bool) \<Rightarrow> bool" where
  "ends p E Q \<longleftrightarrow> (case snd p of Ok a \<Rightarrow> Q a (fst p) | Err _ \<Rightarrow> E (fst p) | Panic \<Rightarrow> False)"

lemma ends_simps [simp]: "ends (s, Ok a) E Q = Q a s" "ends (s, Err e) E Q = E s" "\<not> ends (s, Panic) E Q"
  by (simp_all add: ends_def)

lemma ends_andthen:
  "ends p E R \<Longrightarrow> (\<And>a s. R a s \<Longrightarrow> ends (k a s) E Q) \<Longrightarrow> ends (andthen p k) E Q"
  by (cases p; cases "snd p") auto

lemma ends_weaken:
  "ends p E Q \<Longrightarrow> (\<And>s. E s \<Longrightarrow> E' s) \<Longrightarrow> (\<And>a s. Q a s \<Longrightarrow> Q' a s) \<Longrightarrow> ends p E' Q'"
  by (cases p; cases "snd p") auto

lemma ends_conj: "ends p E Q \<Longrightarrow> ends p E' Q' \<Longrightarrow> ends p (\<lambda>s. E s \<and> E' s) (\<lambda>a s. Q a s \<and> Q' a s)"
  by (cases p; cases "snd p") auto

lemma endsD:
  "ends p E Q \<Longrightarrow> p = (s, Ok a) \<Longrightarrow> Q a s" "ends p E Q \<Longrightarrow> p = (s, Err e) \<Longrightarrow> E s"
  "ends p E Q \<Longrightarrow> snd p \<noteq> Panic"
  by (auto simp: ends_def)

lemma ends_call:
  "(\<And>d0 :: disk. dk_files d0 = dk_files d \<Longrightarrow> ends (act d0) E Q) \<Longrightarrow>
     (\<And>d0 k. dk_files d0 = dk_files d \<Longrightarrow> E (part k d0)) \<Longrightarrow> ends (call act part d) E Q"
proof -
  assume act: "\<And>d0. dk_files d0 = dk_files d \<Longrightarrow> ends (act d0) E Q"
    and part: "\<And>d0 k. dk_files d0 = dk_files d \<Longrightarrow> E (part k d0)"
  obtain d' r where c: "call act part d = (d', r)" by (rule prod.exhaust)
  then show ?thesis
  proof (cases rule: call_cases)
    case (acts d0)
    then show ?thesis using act [of d0] c by simp
  next
    case (fails d0 k)
    then show ?thesis using part [of d0 k] c by simp
  qed
qed

lemma ends_touch:
  "(\<And>d0 :: disk. dk_files d0 = dk_files d \<Longrightarrow> E d0 \<and> Q () d0) \<Longrightarrow> ends (fs_touch d) E Q"
  unfolding fs_touch_def by (rule ends_call) auto

lemma ends_open:
  "(\<And>d0 :: disk. dk_files d0 = dk_files d \<Longrightarrow> E d0) \<Longrightarrow>
     (\<And>d0. dk_files d0 = (dk_files d)(n := file_open (dk_files d n)) \<Longrightarrow> Q () d0) \<Longrightarrow> ends (fs_open n d) E Q"
  unfolding fs_open_def by (rule ends_call) auto

lemma ends_open_existing:
  "(\<And>d0 :: disk. dk_files d0 = dk_files d \<Longrightarrow> E d0) \<Longrightarrow>
     (\<And>d0. dk_files d0 = dk_files d \<Longrightarrow> content_of n d \<noteq> None \<Longrightarrow> Q () d0) \<Longrightarrow> ends (fs_open_existing n d) E Q"
  unfolding fs_open_existing_def by (rule ends_call) (auto simp: content_of_def split: option.split)

lemma ends_len:
  "(\<And>d0 :: disk. dk_files d0 = dk_files d \<Longrightarrow> E d0) \<Longrightarrow>
     (\<And>d0 c. dk_files d0 = dk_files d \<Longrightarrow> content_of n d = Some c \<Longrightarrow> Q (length c) d0) \<Longrightarrow> ends (fs_len n d) E Q"
  unfolding fs_len_def by (rule ends_call) (auto simp: content_of_def split: option.split)

lemma ends_read_exact:
  "(\<And>d0 :: disk. dk_files d0 = dk_files d \<Longrightarrow> E d0) \<Longrightarrow>
     (\<And>d0 c. dk_files d0 = dk_files d \<Longrightarrow> content_of n d = Some c \<Longrightarrow> off + len \<le> length c \<Longrightarrow>
        Q (take len (drop off c)) d0) \<Longrightarrow> ends (fs_read_exact n off len d) E Q"
  unfolding fs_read_exact_def by (rule ends_call) (auto simp: content_of_def split: option.split)

lemma ends_write:
  assumes "\<And>(d0 :: disk) k. k \<in> tears off bs \<Longrightarrow>
      dk_files d0 = (dk_files d)(n := file_write off (take k bs) (dk_files d n)) \<Longrightarrow> E d0"
    and "\<And>d0. dk_files d0 = (dk_files d)(n := file_write off bs (dk_files d n)) \<Longrightarrow> Q () d0"
  shows "ends (fs_write n off bs d) E Q"
  unfolding fs_write_def
proof (rule ends_call)
  fix d0 :: disk and k
  assume d0: "dk_files d0 = dk_files d"
  have "(if k \<in> tears off bs then k else 0) \<in> tears off bs" by (simp add: tears_def)
  then show "E (on_file n (file_write off (take (if k \<in> tears off bs then k else 0) bs)) d0)"
    by (rule assms(1)) (simp add: d0)
qed (use assms(2) in simp)

lemma ends_append:
  assumes "content_of n d = Some c"
    and "\<And>(d0 :: disk) k. k \<in> tears (length c) bs \<Longrightarrow>
      dk_files d0 = (dk_files d)(n := file_write (length c) (take k bs) (dk_files d n)) \<Longrightarrow> E d0"
    and "\<And>d0. dk_files d0 = (dk_files d)(n := file_write (length c) bs (dk_files d n)) \<Longrightarrow> Q () d0"
  shows "ends (fs_append n bs d) E Q"
  unfolding fs_append_def assms(1) option.case using assms(2,3) by (rule ends_write)

lemma ends_set_len:
  "(\<And>d0 :: disk. dk_files d0 = dk_files d \<Longrightarrow> E d0) \<Longrightarrow>
     (\<And>d0. dk_files d0 = (dk_files d)(n := file_truncate len (dk_files d n)) \<Longrightarrow> Q () d0) \<Longrightarrow>
     ends (fs_set_len n len d) E Q"
  unfolding fs_set_len_def by (rule ends_call) auto

lemma ends_sync:
  "(\<And>d0 :: disk. dk_files d0 = dk_files d \<Longrightarrow> E d0) \<Longrightarrow>
     (\<And>d0. dk_files d0 = (dk_files d)(n := file_sync (dk_files d n)) \<Longrightarrow> Q () d0) \<Longrightarrow> ends (fs_sync n d) E Q"
  unfolding fs_sync_def by (rule ends_call) auto

lemma ends_sync_parent:
  "(\<And>d0 :: disk. dk_files d0 = dk_files d \<Longrightarrow> E d0) \<Longrightarrow>
     (\<And>d0. dk_files d0 = (\<lambda>n. (dk_files d n)\<lparr> f_entry := {} \<rparr>) \<Longrightarrow> Q () d0) \<Longrightarrow>
     ends (sync_parent_directory d) E Q"
  unfolding sync_parent_directory_def by (rule ends_call) auto

lemma ends_create:
  "(\<And>d0 :: disk. dk_files d0 = dk_files d \<Longrightarrow> E d0) \<Longrightarrow>
     (\<And>d0. dk_files d0 = (dk_files d)(n := file_truncate 0 (file_open (dk_files d n))) \<Longrightarrow> Q () d0) \<Longrightarrow>
     ends (fs_create n d) E Q"
  unfolding fs_create_def by (rule ends_call) auto

lemma ends_rename:
  "(\<And>d0 :: disk. dk_files d0 = dk_files d \<Longrightarrow> E d0) \<Longrightarrow>
     (\<And>d0. dk_files d0 = (dk_files d)(b := (dk_files d a)\<lparr> f_entry := survivors (dk_files d b) \<rparr>,
        a := \<lparr> f_content = None, f_data = {}, f_entry = survivors (dk_files d a) \<rparr>) \<Longrightarrow> Q () d0) \<Longrightarrow>
     ends (fs_rename a b d) E Q"
  unfolding fs_rename_def by (rule ends_call) (auto simp: Let_def content_of_def split: option.split)

lemma ends_read:
  "(\<And>d0 :: disk. dk_files d0 = dk_files d \<Longrightarrow> E d0) \<Longrightarrow>
     (\<And>d0 c. dk_files d0 = dk_files d \<Longrightarrow> content_of n d = Some c \<Longrightarrow> Q c d0) \<Longrightarrow> ends (fs_read n d) E Q"
  unfolding fs_read_def by (rule ends_call) (auto simp: content_of_def split: option.split)

lemma ends_if_missing_read:
  "(\<And>d0 :: disk. dk_files d0 = dk_files d \<Longrightarrow> E d0) \<Longrightarrow>
     (\<And>d0. dk_files d0 = dk_files d \<Longrightarrow> content_of n d = None \<Longrightarrow> Q z d0) \<Longrightarrow>
     (\<And>d0 c. dk_files d0 = dk_files d \<Longrightarrow> content_of n d = Some c \<Longrightarrow> ends (k c d0) E Q) \<Longrightarrow>
     ends (if_missing (fs_read n d) z k) E Q"
  by (cases "fs_read n d") (auto simp: if_missing_def fs_read_def content_of_def elim!: call_cases
      split: option.splits)

lemma ends_if_missing_open:
  "(\<And>d0 :: disk. dk_files d0 = dk_files d \<Longrightarrow> E d0) \<Longrightarrow>
     (\<And>d0. dk_files d0 = dk_files d \<Longrightarrow> content_of n d = None \<Longrightarrow> Q z d0) \<Longrightarrow>
     (\<And>d0. dk_files d0 = dk_files d \<Longrightarrow> content_of n d \<noteq> None \<Longrightarrow> ends (k () d0) E Q) \<Longrightarrow>
     ends (if_missing (fs_open_existing n d) z k) E Q"
  by (cases "fs_open_existing n d") (auto simp: if_missing_def fs_open_existing_def content_of_def
      elim!: call_cases split: option.splits)

section \<open>Replacing a file\<close>

text \<open>
  The pattern of both replace-in-place files of the node: write a temporary file, synchronise it,
  rename it over the target, synchronise the directory.
\<close>

definition replace_file :: "file_name \<Rightarrow> file_name \<Rightarrow> bytes \<Rightarrow> disk \<Rightarrow> unit io_result" where
  "replace_file tmp n bs d =
     andthen (fs_create tmp d) (\<lambda>_ d.
       andthen (fs_write tmp 0 bs d) (\<lambda>_ d.
         andthen (fs_sync tmp d) (\<lambda>_ d.
           andthen (fs_rename tmp n d) (\<lambda>_ d. sync_parent_directory d))))"

definition durable :: "file_name \<Rightarrow> bytes \<Rightarrow> disk \<Rightarrow> bool" where
  "durable n bs d \<longleftrightarrow> content_of n d = Some bs \<and> survivors (dk_files d n) = {Some bs}"

text \<open>A file that was not named keeps its content; at most its directory entry becomes durable.\<close>

definition spared :: "file_name \<Rightarrow> disk \<Rightarrow> disk \<Rightarrow> bool" where
  "spared m d d' \<longleftrightarrow> dk_files d' m = dk_files d m \<or> dk_files d' m = (dk_files d m)\<lparr> f_entry := {} \<rparr>"

lemma spared_facts:
  assumes "spared m d d'"
  shows "keeps m P d \<Longrightarrow> keeps m P d'" and "content_of m d' = content_of m d"
    and "f_entry (dk_files d m) = {} \<Longrightarrow> f_entry (dk_files d' m) = {}"
  using assms keeps_entry [of m P d d'] keeps_files [of d' m d P] by (auto simp: spared_def content_of_def)

lemma replace_file_safe:
  assumes "tmp \<noteq> n" and "keeps n P d" and "P (Some bs)"
  defines "frame \<equiv> \<lambda>d'. keeps n P d' \<and> (\<forall>m. m \<noteq> tmp \<longrightarrow> m \<noteq> n \<longrightarrow> spared m d d')"
  shows "ends (replace_file tmp n bs d) frame (\<lambda>_ d'. frame d' \<and> durable n bs d')"
proof -
  let ?others = "\<lambda>d'. \<forall>m. m \<noteq> tmp \<longrightarrow> dk_files d' m = dk_files d m"
  have others: "frame d'" if "?others d'" for d'
    using that assms(1,2) keeps_files [of d' n d P] by (auto simp: frame_def spared_def)
  have renamed: "frame d'" if d1: "?others d1" "f_content (dk_files d1 tmp) = Some bs" "f_data (dk_files d1 tmp) = {bs}"
    and d': "dk_files d' = (dk_files d1)(n := (dk_files d1 tmp)\<lparr> f_entry := survivors (dk_files d1 n) \<rparr>,
        tmp := \<lparr> f_content = None, f_data = {}, f_entry = survivors (dk_files d1 tmp) \<rparr>)" for d1 d'
    using that assms(1-3) by (auto simp: frame_def spared_def keeps_def survivors_def fs_file_ok_def)
  show ?thesis
    unfolding replace_file_def
  proof (intro ends_andthen)
    show "ends (fs_create tmp d) frame (\<lambda>_ d1. ?others d1 \<and> f_content (dk_files d1 tmp) = Some [])"
      by (rule ends_create) (auto simp: others file_truncate_def file_open_def split: option.split)
    show "ends (fs_write tmp 0 bs d1) frame (\<lambda>_ d2. ?others d2 \<and> f_content (dk_files d2 tmp) = Some bs)"
      if "?others d1 \<and> f_content (dk_files d1 tmp) = Some []" for d1
      using that by (intro ends_write) (auto simp: others file_write_def overlay_def)
    show "ends (fs_sync tmp d2) frame (\<lambda>_ d3. ?others d3 \<and> f_content (dk_files d3 tmp) = Some bs \<and> f_data (dk_files d3 tmp) = {bs})"
      if "?others d2 \<and> f_content (dk_files d2 tmp) = Some bs" for d2
      using that by (intro ends_sync) (auto simp: others file_sync_def)
    show "ends (fs_rename tmp n d3) frame (\<lambda>_ d4. frame d4 \<and> f_content (dk_files d4 n) = Some bs \<and> f_data (dk_files d4 n) = {bs})"
      if "?others d3 \<and> f_content (dk_files d3 tmp) = Some bs \<and> f_data (dk_files d3 tmp) = {bs}" for d3
      using that assms(1) renamed [of d3] by (intro ends_rename) (simp_all add: others)
    show "ends (sync_parent_directory d4) frame (\<lambda>_ d'. frame d' \<and> durable n bs d')"
      if "frame d4 \<and> f_content (dk_files d4 n) = Some bs \<and> f_data (dk_files d4 n) = {bs}" for d4
    proof (rule ends_sync_parent)
      fix d0 :: disk
      assume d0: "dk_files d0 = dk_files d4"
      then show "frame d0" using that keeps_files [of d0 n d4 P] by (auto simp: frame_def spared_def)
    next
      fix d0 :: disk
      assume d0: "dk_files d0 = (\<lambda>n. (dk_files d4 n)\<lparr> f_entry := {} \<rparr>)"
      have k: "keeps n P d4" and s: "\<And>m. m \<noteq> tmp \<Longrightarrow> m \<noteq> n \<Longrightarrow> spared m d d4"
        using that by (simp_all add: frame_def)
      have "keeps n P d0" by (rule keeps_entry [OF k]) (simp add: d0)
      moreover have "spared m d d0" if "m \<noteq> tmp" "m \<noteq> n" for m
        using s [OF that] by (auto simp: spared_def d0)
      moreover have "durable n bs d0" using that by (simp add: d0 durable_def content_of_def survivors_def)
      ultimately show "frame d0 \<and> durable n bs d0" by (simp add: frame_def)
    qed
  qed
qed

end
