(* ===== verification/N42_Schedule.thy ===== *)
theory N42_Schedule
  imports N42_Epoch
begin

text \<open>
  The epoch schedule of \<^verbatim>\<open>n42-consensus-service/src/epoch_schedule.rs\<close> and the two places of
  \<^verbatim>\<open>n42-node/src/main.rs\<close> that read it: the epoch manager of a restarted node and the resolver that
  maps any view to a validator set. The main lemma shows that the two agree on every view the
  recovered manager knows.
\<close>

section \<open>The schedule\<close>

record epoch_entry =
  ee_start_epoch :: u64
  ee_validators :: "validator_info list"
  ee_fault_tolerance :: u32

type_synonym epoch_schedule = "(u64 \<times> validator_info list \<times> u32) list"

datatype schedule_error =
    ScheduleParse
  | EmptyValidatorSet u64
  | InvalidSetParameters u64
  | PartialPeerIds u64
  | InvalidPeerIds u64
  | DuplicateStartEpoch u64
  | MissingPeerBindings u64
  | ScheduleUnreadable

text \<open>
  The loop over the peer identifiers: a text that does not parse, or an identifier seen before,
  is refused. The parser is an argument.
\<close>

fun distinct_peer_ids :: "(string \<Rightarrow> bytes option) \<Rightarrow> bytes set \<Rightarrow> validator_info list \<Rightarrow> bool" where
  "distinct_peer_ids parse seen [] = True"
| "distinct_peer_ids parse seen (v # vs) = (case vi_p2p_peer_id v of
     None \<Rightarrow> distinct_peer_ids parse seen vs
   | Some text \<Rightarrow> (case parse text of
       None \<Rightarrow> False
     | Some peer_id \<Rightarrow> peer_id \<notin> seen \<and> distinct_peer_ids parse (insert peer_id seen) vs))"

definition peer_id_presence :: "validator_info list \<Rightarrow> nat" where
  "peer_id_presence vs = length (filter (\<lambda>v. vi_p2p_peer_id v \<noteq> None) vs)"

fun insert_entries ::
  "(string \<Rightarrow> bytes option) \<Rightarrow> epoch_entry list \<Rightarrow> epoch_schedule \<Rightarrow> (schedule_error, epoch_schedule) outcome" where
  "insert_entries parse [] m = Ok m"
| "insert_entries parse (e # es) m =
     (let start = ee_start_epoch e; vs = ee_validators e in
      if vs = [] then Err (EmptyValidatorSet start)
      else if \<not> is_ok (validate_params (length vs) (ee_fault_tolerance e)) then Err (InvalidSetParameters start)
      else if peer_id_presence vs \<noteq> 0 \<and> peer_id_presence vs \<noteq> length vs then Err (PartialPeerIds start)
      else if \<not> distinct_peer_ids parse {} vs then Err (InvalidPeerIds start)
      else if map_of m start \<noteq> None then Err (DuplicateStartEpoch start)
      else insert_entries parse es (btree_insert start (vs, ee_fault_tolerance e) m))"

datatype read_result = FileMissing | FileUnreadable | FileText bytes

definition schedule_load ::
  "(string \<Rightarrow> bytes option) \<Rightarrow> (bytes \<Rightarrow> epoch_entry list option) \<Rightarrow> read_result
   \<Rightarrow> (schedule_error, epoch_schedule option) outcome" where
  "schedule_load parse parse_entries r = (case r of
     FileText json \<Rightarrow> (case parse_entries json of
         None \<Rightarrow> Err ScheduleParse
       | Some entries \<Rightarrow> bind_outcome (insert_entries parse entries []) (\<lambda>m. Ok (Some m)))
   | FileMissing \<Rightarrow> Ok None
   | FileUnreadable \<Rightarrow> Err ScheduleUnreadable)"

definition get_for_epoch :: "u64 \<Rightarrow> epoch_schedule \<Rightarrow> (validator_info list \<times> u32) option" where
  "get_for_epoch epoch m = map_of m epoch"

text \<open>\<open>range(..=epoch).next_back()\<close> on the ordered map.\<close>

definition last_at_or_before :: "u64 \<Rightarrow> epoch_schedule \<Rightarrow> (validator_info list \<times> u32) option" where
  "last_at_or_before epoch m = (case filter (\<lambda>(k, _). k \<le> epoch) m of
     [] \<Rightarrow> None | es \<Rightarrow> Some (snd (last es)))"

definition active_config_for_epoch ::
  "u64 \<Rightarrow> validator_info list \<Rightarrow> u32 \<Rightarrow> epoch_schedule \<Rightarrow> validator_info list \<times> u32" where
  "active_config_for_epoch epoch infos f m = (case last_at_or_before epoch m of
     Some config \<Rightarrow> config | None \<Rightarrow> (infos, f))"

definition validate_peer_binding_policy :: "bool \<Rightarrow> epoch_schedule \<Rightarrow> (schedule_error, unit) outcome" where
  "validate_peer_binding_policy allow m =
     (if allow then Ok ()
      else case find (\<lambda>(_, vs, _). length vs > 1 \<and> list_all (\<lambda>v. vi_p2p_peer_id v = None) vs) m of
        Some (epoch, _) \<Rightarrow> Err (MissingPeerBindings epoch)
      | None \<Rightarrow> Ok ())"

definition recovery_window ::
  "validator_info list \<Rightarrow> u32 \<Rightarrow> u64 \<Rightarrow> nat \<Rightarrow> epoch_schedule \<Rightarrow> (u64 \<times> validator_info list \<times> u32) list" where
  "recovery_window infos f current history_depth m =
     (let start = saturating_sub current (word_of_nat history_depth) in
      map (\<lambda>n. let epoch = word_of_nat n in
             (case last_at_or_before epoch m of
                Some (vs, g) \<Rightarrow> (epoch, vs, g)
              | None \<Rightarrow> (epoch, infos, f)))
        [unat start..<Suc (unat current)])"

section \<open>The readers of the schedule\<close>

definition build_epoch_manager ::
  "ext_lib \<Rightarrow> validator_set \<Rightarrow> validator_info list \<Rightarrow> u64 \<Rightarrow> nat \<Rightarrow> epoch_schedule option
   \<Rightarrow> view_number option \<Rightarrow> (u64 \<times> validator_info list \<times> u32) option \<Rightarrow> epoch_manager consensus_result" where
  "build_epoch_manager L initial infos epoch_len hist schedule recovered_view snapshot_epoch =
     (if epoch_len = 0 then Ok (epoch_new initial)
      else let current = (case recovered_view of
                 Some view \<Rightarrow> saturating_sub view 1 div epoch_len | None \<Rightarrow> 0) in
        case snapshot_epoch of
          Some (snap_epoch, x # xs, snap_f) \<Rightarrow>
            bind_outcome (vset_try_new L (x # xs) snap_f) (\<lambda>vs.
              Ok (from_epoch_with_history vs epoch_len current hist))
        | _ \<Rightarrow> (case schedule of
              Some m \<Rightarrow> from_schedule_with_history L epoch_len
                  (recovery_window infos (fault_tolerance initial) current 3 m) hist
            | None \<Rightarrow>
                if current > 0 then Ok (from_epoch_with_history initial epoch_len current hist)
                else Ok (with_epoch_length_and_history initial epoch_len hist)))"

definition validator_set_resolver ::
  "ext_lib \<Rightarrow> validator_info list \<Rightarrow> u32 \<Rightarrow> u64 \<Rightarrow> epoch_schedule option \<Rightarrow> view_number \<Rightarrow> validator_set option" where
  "validator_set_resolver L infos f epoch_len schedule view =
     (let (vs, g) =
        (if epoch_len \<noteq> 0
         then (case schedule of
                 Some m \<Rightarrow> active_config_for_epoch (saturating_sub view 1 div epoch_len) infos f m
               | None \<Rightarrow> (infos, f))
         else (infos, f))
      in case vset_try_new L vs g of Ok s \<Rightarrow> Some s | _ \<Rightarrow> None)"

text \<open>The staged transition of a snapshot, kept when it targets the next epoch or did under the old numbering.\<close>

definition restore_staged_transition ::
  "ext_lib \<Rightarrow> (u64 \<times> validator_info list \<times> u32) option \<Rightarrow> (u64 \<times> validator_info list \<times> u32) option
   \<Rightarrow> epoch_manager \<Rightarrow> epoch_manager" where
  "restore_staged_transition L scheduled snapshot_epoch em = (case scheduled of
     None \<Rightarrow> em
   | Some (target_epoch, vs, f) \<Rightarrow>
       let expected_epoch = current_epoch em + 1;
           legacy_retarget = target_epoch \<noteq> expected_epoch \<and>
             (case snapshot_epoch of
                Some (epoch, _, _) \<Rightarrow> target_epoch = epoch + 1 \<and> epoch < current_epoch em
              | None \<Rightarrow> False)
       in if target_epoch \<noteq> expected_epoch \<and> \<not> legacy_retarget then em
          else fst (stage_next_epoch L vs f em))"

section \<open>A loaded schedule\<close>

lemma insert_entries_sorted:
  "insert_entries parse es m = Ok m' \<Longrightarrow> sorted_wrt (<) (map fst m) \<Longrightarrow> sorted_wrt (<) (map fst m')"
  by (induction parse es m rule: insert_entries.induct)
    (auto simp: Let_def sorted_btree_insert split: if_splits)

text \<open>The configuration of an epoch is the one with the greatest start at or before it.\<close>

lemma last_at_or_before_greatest:
  assumes "sorted_wrt (<) (map fst m)" and "(k, c) \<in> set m" and "k \<le> epoch"
    and "\<And>j. j \<in> fst ` set m \<Longrightarrow> j \<le> epoch \<Longrightarrow> j \<le> k"
  shows "last_at_or_before epoch m = Some c"
proof -
  let ?es = "filter (\<lambda>(k, _). k \<le> epoch) m"
  have mem: "(k, c) \<in> set ?es" using assms(2,3) by simp
  have ne: "?es \<noteq> []" using mem by (metis empty_iff empty_set)
  obtain k' c' where l: "last ?es = (k', c')" by (rule prod.exhaust)
  have in': "(k', c') \<in> set ?es" using last_in_set [OF ne] l by simp
  have es: "?es = butlast ?es @ [(k', c')]" using append_butlast_last_id [OF ne] l by simp
  have "sorted_wrt (<) (map fst ?es)"
    using assms(1) by (simp add: sorted_wrt_map sorted_wrt_filter)
  then have "\<forall>e \<in> set (butlast ?es). fst e < k'"
    by (subst (asm) es) (simp add: sorted_wrt_append)
  moreover have "(k, c) \<in> set (butlast ?es) \<or> (k, c) = (k', c')" using mem by (subst (asm) es) auto
  ultimately have "k \<le> k'" by (auto intro: less_imp_le)
  moreover have "k' \<le> k" using in' assms(4) by force
  ultimately have "k' = k" by simp
  moreover have "distinct (map fst m)" using assms(1) by (simp add: strict_sorted_iff)
  ultimately have "c' = c" using in' assms(2) by (auto dest: eq_key_imp_eq_value)
  with ne l show ?thesis by (auto simp: last_at_or_before_def split: list.split)
qed

section \<open>Recovery from the schedule\<close>

lemma btree_insert_last: "(\<And>j. j \<in> fst ` set m \<Longrightarrow> j < k) \<Longrightarrow> btree_insert k v m = m @ [(k, v)]"
  proof (induction k v m rule: btree_insert.induct)
  case (2 k v k' v' m)
  have "k' < k" using "2.prems" [of k'] by simp
  then have "\<not> k < k'" and "k \<noteq> k'" by auto
  moreover from this have "btree_insert k v m = m @ [(k, v)]" using "2.prems" by (intro "2.IH") auto
  ultimately show ?case by auto
qed simp

lemma schedule_history_map:
  "schedule_history L (map (\<lambda>e. (e, cfg e)) eps) acc = Ok h \<Longrightarrow> sorted_wrt (<) eps \<Longrightarrow>
     (\<And>j e. j \<in> fst ` set acc \<Longrightarrow> e \<in> set eps \<Longrightarrow> j < e) \<Longrightarrow>
     h = acc @ map (\<lambda>e. (e, case vset_try_new L (fst (cfg e)) (snd (cfg e)) of Ok vs \<Rightarrow> vs)) eps \<and>
     (\<forall>e \<in> set eps. is_ok (vset_try_new L (fst (cfg e)) (snd (cfg e))))"
proof (induction eps arbitrary: acc)
  case (Cons e eps)
  obtain infos f where c: "cfg e = (infos, f)" by fastforce
  from Cons.prems(1) obtain vs where vs: "vset_try_new L infos f = Ok vs"
    and h: "schedule_history L (map (\<lambda>e. (e, cfg e)) eps) (btree_insert e vs acc) = Ok h"
    by (auto simp: c elim: bind_outcome_OkE)
  have b: "btree_insert e vs acc = acc @ [(e, vs)]" using Cons.prems(3) by (intro btree_insert_last) simp
  have "h = (acc @ [(e, vs)]) @ map (\<lambda>e. (e, case vset_try_new L (fst (cfg e)) (snd (cfg e)) of Ok vs \<Rightarrow> vs)) eps \<and>
     (\<forall>e \<in> set eps. is_ok (vset_try_new L (fst (cfg e)) (snd (cfg e))))"
    using Cons.prems h unfolding b by (intro Cons.IH) auto
  then show ?case by (simp add: c vs)
qed simp

lemma recovery_window_eq:
  "recovery_window infos f cur 3 m =
     map (\<lambda>e. (e, active_config_for_epoch e infos f m)) (map word_of_nat [unat cur - 3..<unat cur] @ [cur])"
proof -
  have s: "unat (saturating_sub cur 3) = unat cur - 3" by (simp add: unat_saturating_sub)
  have "(case last_at_or_before e m of Some (vs, g) \<Rightarrow> (e, vs, g) | None \<Rightarrow> (e, infos, f))
      = (e, active_config_for_epoch e infos f m)" for e
    by (simp add: active_config_for_epoch_def split: option.split)
  then show ?thesis by (simp add: recovery_window_def s Let_def)
qed

lemma unat_word_of_nat: "n < 2 ^ LENGTH('a) \<Longrightarrow> unat (word_of_nat n :: 'a::len word) = n"
  by (simp add: unat_of_nat)

lemma sorted_words: "n \<le> 2 ^ 64 \<Longrightarrow> sorted_wrt (<) (map (word_of_nat :: nat \<Rightarrow> u64) [k..<n])"
  unfolding sorted_wrt_map
  by (rule sorted_wrt_mono_rel [OF _ sorted_wrt_upt]) (auto simp: word_less_nat_alt unat_word_of_nat)

text \<open>The number of epochs before the current one that the recovered manager keeps.\<close>

definition kept_epochs :: "nat \<Rightarrow> nat" where
  "kept_epochs hist = min 3 (clamp_max_historical hist)"

lemma recovered_manager:
  assumes "from_schedule_with_history L len (recovery_window infos f cur 3 m) hist = Ok em"
  defines "cfg \<equiv> \<lambda>e. active_config_for_epoch e infos f m"
  shows "epoch_length em = len" and "current_epoch em = cur" and "next_set em = None"
    and "vset_try_new L (fst (cfg cur)) (snd (cfg cur)) = Ok (current_set em)"
    and "map_of (historical_sets em) e =
      (if e < cur \<and> unat cur \<le> unat e + kept_epochs hist
       then (case vset_try_new L (fst (cfg e)) (snd (cfg e)) of Ok vs \<Rightarrow> Some vs | _ \<Rightarrow> None) else None)"
proof -
  let ?eps = "map word_of_nat [unat cur - 3..<unat cur] :: u64 list"
  let ?V = "\<lambda>e. case vset_try_new L (fst (cfg e)) (snd (cfg e)) of Ok vs \<Rightarrow> vs"
  let ?b = "clamp_max_historical hist"
  from assms obtain h vs where h: "schedule_history L (map (\<lambda>e. (e, cfg e)) ?eps) [] = Ok h"
    and vs: "vset_try_new L (fst (cfg cur)) (snd (cfg cur)) = Ok vs"
    and em: "em = \<lparr> epoch_length = len, current_epoch = cur, current_set = vs, next_set = None,
        staged_info = None, historical_sets = trim_to ?b h, max_historical_epochs = ?b,
        pending_adds = [], pending_removes = [] \<rparr>"
    by (cases "cfg cur") (auto simp: from_schedule_with_history_def recovery_window_eq butlast_append
        Let_def elim!: bind_outcome_OkE)
  have "sorted_wrt (<) ?eps" using unat_bound [of cur] by (intro sorted_words) simp
  from schedule_history_map [OF h this] have heq: "h = map (\<lambda>e. (e, ?V e)) ?eps"
    and ok: "\<forall>e \<in> set ?eps. is_ok (vset_try_new L (fst (cfg e)) (snd (cfg e)))" by simp_all
  define n where "n = length ?eps - ?b"
  have "trim_to ?b h = map (\<lambda>e. (e, ?V e)) (drop n ?eps)"
    by (simp add: trim_to_drop heq n_def drop_map)
  moreover have "drop n ?eps = map word_of_nat [unat cur - 3 + n..<unat cur]"
    by (simp add: drop_map)
  ultimately have tr: "trim_to ?b h = map (\<lambda>e. (e, ?V e)) (map word_of_nat [unat cur - 3 + n..<unat cur])" by simp
  have low: "unat cur - 3 + n = unat cur - kept_epochs hist"
    by (simp add: n_def kept_epochs_def)
  have mem: "e \<in> set (map word_of_nat [unat cur - kept_epochs hist..<unat cur]) \<longleftrightarrow>
      e < cur \<and> unat cur \<le> unat e + kept_epochs hist" for e
  proof
    assume "e \<in> set (map word_of_nat [unat cur - kept_epochs hist..<unat cur])"
    then obtain k where k: "unat cur - kept_epochs hist \<le> k" "k < unat cur" "e = word_of_nat k" by auto
    then have "unat e = k" using unat_bound [of cur] by (simp add: unat_word_of_nat)
    with k show "e < cur \<and> unat cur \<le> unat e + kept_epochs hist" by (simp add: word_less_nat_alt)
  next
    assume "e < cur \<and> unat cur \<le> unat e + kept_epochs hist"
    then show "e \<in> set (map word_of_nat [unat cur - kept_epochs hist..<unat cur])"
      by (auto simp: word_less_nat_alt intro!: image_eqI [of _ _ "unat e"])
  qed
  have sub: "e \<in> set ?eps" if "e \<in> set (map word_of_nat [unat cur - kept_epochs hist..<unat cur])" for e
    using that low by auto
  have "map_of (trim_to ?b h) e = (if e \<in> set (map word_of_nat [unat cur - kept_epochs hist..<unat cur])
      then Some (?V e) else None)" for e
    unfolding tr low by (rule map_of_tabulate)
  note hs = this [unfolded mem]
  show "map_of (historical_sets em) e =
      (if e < cur \<and> unat cur \<le> unat e + kept_epochs hist
       then (case vset_try_new L (fst (cfg e)) (snd (cfg e)) of Ok vs \<Rightarrow> Some vs | _ \<Rightarrow> None) else None)"
  proof (cases "e < cur \<and> unat cur \<le> unat e + kept_epochs hist")
    case True
    then have "is_ok (vset_try_new L (fst (cfg e)) (snd (cfg e)))" using ok sub [of e] mem by blast
    with True hs show ?thesis by (auto simp: em elim: is_ok.elims)
  qed (auto simp: em hs)
  show "epoch_length em = len" and "current_epoch em = cur" and "next_set em = None"
    and "vset_try_new L (fst (cfg cur)) (snd (cfg cur)) = Ok (current_set em)" by (simp_all add: em vs)
qed

section \<open>Recovered managers and the resolver\<close>

text \<open>
  C38. A restarted node and the view resolver agree. When a node rebuilds its epoch manager from the
  schedule at a recovered view, the manager knows the validator set of a view exactly when the view
  lies in the current epoch or in one of the last epochs it keeps, and the set is then the one that
  the resolver computes from the schedule; for every other view it knows none.
\<close>

theorem recovered_sets_match_resolver:
  assumes "len \<noteq> 0"
    and "build_epoch_manager L initial infos len hist (Some m) recovered None = Ok em"
  shows "known_validator_set_for_view view em =
    (let cur = (case recovered of Some v \<Rightarrow> saturating_sub v 1 div len | None \<Rightarrow> 0);
         epoch = saturating_sub view 1 div len
     in if epoch \<le> cur \<and> unat cur \<le> unat epoch + kept_epochs hist
        then validator_set_resolver L infos (fault_tolerance initial) len (Some m) view else None)"
proof -
  define cur where "cur = (case recovered of Some v \<Rightarrow> saturating_sub v 1 div len | None \<Rightarrow> 0)"
  define epoch where "epoch = saturating_sub view 1 div len"
  define cfg where "cfg = active_config_for_epoch epoch infos (fault_tolerance initial) m"
  have "from_schedule_with_history L len (recovery_window infos (fault_tolerance initial) cur 3 m) hist = Ok em"
    using assms by (simp add: build_epoch_manager_def Let_def cur_def)
  note r = recovered_manager [OF this]
  have e: "epoch_for_view view em = epoch" using assms(1) by (simp add: epoch_for_view_def r(1) epoch_def)
  have res: "validator_set_resolver L infos (fault_tolerance initial) len (Some m) view =
      (case vset_try_new L (fst cfg) (snd cfg) of Ok s \<Rightarrow> Some s | _ \<Rightarrow> None)"
    using assms(1) by (simp add: validator_set_resolver_def epoch_def cfg_def Let_def case_prod_beta)
  have "unat (saturating_sub v 1 div len) < 2 ^ 64 - 1" for v
    unfolding unat_div unat_saturating_sub unat_1
    by (rule le_less_trans [OF div_le_dividend]) (use unat_bound [of v] in simp)
  then have "unat cur < 2 ^ 64 - 1" by (simp add: cur_def split: option.split)
  then have "cur \<noteq> - 1" by auto
  then have top: "\<not> cur + 1 \<le> cur" using less_next_epoch [of cur cur] by (simp add: not_le)
  have "known_validator_set_for_view view em =
    (if epoch \<le> cur \<and> unat cur \<le> unat epoch + kept_epochs hist
     then validator_set_resolver L infos (fault_tolerance initial) len (Some m) view else None)"
  proof (cases "epoch = cur")
    case True
    then show ?thesis using assms(1) r(4) unfolding known_validator_set_for_view_def e r(1-3) res
      by (simp add: cfg_def)
  next
    case False
    have "known_validator_set_for_view view em =
        (if epoch = cur + 1 then None else map_of (historical_sets em) epoch)"
      using assms(1) False by (simp add: known_validator_set_for_view_def e r(1-3))
    then show ?thesis using False top unfolding r(5) res cfg_def by (auto simp: order_le_less)
  qed
  then show ?thesis by (simp add: cur_def epoch_def Let_def)
qed

definition toy_infos :: "validator_info list" where "toy_infos = map toy_info [0, 1, 2, 3]"

lemmas toy_infos_set = four_set_built [folded toy_infos_def]

definition toy_schedule :: epoch_schedule where
  "toy_schedule = [(2, toy_infos, 0)]"

lemma toy_schedule_config:
  "active_config_for_epoch e toy_infos 1 toy_schedule =
     (toy_infos, if 2 \<le> e then 0 else 1)"
  by (simp add: active_config_for_epoch_def last_at_or_before_def toy_schedule_def)

lemma toy_scheduled_set:
  "vset_try_new (toy_lib P) toy_infos 0 = Ok (four_set\<lparr> fault_tolerance := 0 \<rparr>)"
  using toy_infos_set [of P]
  by (auto simp: vset_try_new_def validate_params_def four_set_def elim!: bind_outcome_OkE split: if_splits)

lemma toy_recovered:
  "\<exists>em. build_epoch_manager (toy_lib P) four_set toy_infos 10 3 (Some toy_schedule) (Some 35) None
     = Ok em"
proof -
  have c: "saturating_sub 35 1 div 10 = (3 :: u64)" by (simp add: saturating_sub_def)
  have w: "recovery_window toy_infos 1 3 3 toy_schedule =
      [(0, toy_infos, 1), (1, toy_infos, 1),
       (2, toy_infos, 0), (3, toy_infos, 0)]"
    unfolding recovery_window_eq toy_schedule_config by (simp add: upt_rec word_le_nat_alt)
  have "fault_tolerance four_set = 1" by (simp add: four_set_def)
  then show ?thesis
    by (simp add: build_epoch_manager_def c w from_schedule_with_history_def toy_infos_set
        toy_scheduled_set)
qed

theorem recovered_sets_match_resolver_witness:
  "\<exists>em. build_epoch_manager (toy_lib (\<lambda>_. True)) four_set toy_infos 10 3
       (Some toy_schedule) (Some 35) None = Ok em \<and>
     known_validator_set_for_view 15 em = Some four_set \<and>
     known_validator_set_for_view 25 em = Some (four_set\<lparr> fault_tolerance := 0 \<rparr>)"
proof -
  let ?L = "toy_lib (\<lambda>_. True)"
  have c: "saturating_sub 35 1 div 10 = (3 :: u64)" "saturating_sub 15 1 div 10 = (1 :: u64)"
    "saturating_sub 25 1 div 10 = (2 :: u64)" by (simp_all add: saturating_sub_def)
  have f: "fault_tolerance four_set = 1" by (simp add: four_set_def)
  have r: "validator_set_resolver ?L toy_infos 1 10 (Some toy_schedule) 15 = Some four_set"
    "validator_set_resolver ?L toy_infos 1 10 (Some toy_schedule) 25
       = Some (four_set\<lparr> fault_tolerance := 0 \<rparr>)"
    by (simp_all add: validator_set_resolver_def c toy_schedule_config toy_infos_set toy_scheduled_set
        word_le_nat_alt)
  obtain em where em: "build_epoch_manager ?L four_set toy_infos 10 3
      (Some toy_schedule) (Some 35) None = Ok em" using toy_recovered by blast
  have "known_validator_set_for_view 15 em = Some four_set \<and>
      known_validator_set_for_view 25 em = Some (four_set\<lparr> fault_tolerance := 0 \<rparr>)"
    using recovered_sets_match_resolver [OF _ em, of 15] recovered_sets_match_resolver [OF _ em, of 25]
    unfolding f r option.case c
    by (simp add: Let_def kept_epochs_def clamp_max_historical_def MAX_HISTORICAL_EPOCHS_LIMIT_def)
  with em show ?thesis by blast
qed

end
