(* ===== verification/N42_Persistence.thy ===== *)
theory N42_Persistence
  imports N42_Files N42_EngineState N42_Schedule
begin

text \<open>
  The durable state of \<^verbatim>\<open>n42-consensus-service/src/persistence.rs\<close>: the vote log, the durable lock,
  the consensus snapshot and the execution lineage. The serializers (\<open>bincode\<close>, \<open>serde_json\<close>) and the
  parser of peer identifiers are third-party code and the fields of \<open>codec\<close>. The lemmas show the
  file formats to be read back, torn and legacy files to be handled as the comments of the code
  promise, and corruption to be refused.
\<close>

section \<open>The snapshot and the serializers\<close>

record consensus_snapshot =
  sn_version :: u32
  sn_current_view :: view_number
  sn_locked_qc :: quorum_certificate
  sn_last_committed_qc :: quorum_certificate
  sn_consecutive_timeouts :: u32
  sn_scheduled_epoch_transition :: "(u64 \<times> validator_info list \<times> u32) option"
  sn_authorized_verifiers :: "bytes list"
  sn_committed_block_count :: u64
  sn_last_voted_view :: view_number
  sn_last_commit_voted_view :: view_number
  sn_current_epoch_validators :: "(u64 \<times> validator_info list \<times> u32) option"
  sn_execution_validated_head_view :: view_number
  sn_execution_validated_head_hash :: b256

text \<open>
  \<open>json_probe\<close> gives the number under \<open>version\<close> and whether \<open>last_commit_voted_view\<close> is
  present; it fails on text that is no JSON. \<open>from_json\<close> fails on JSON that is no snapshot.
\<close>

record codec =
  enc_qc :: "quorum_certificate \<Rightarrow> bytes option"
  dec_qc :: "bytes \<Rightarrow> quorum_certificate option"
  to_json :: "consensus_snapshot \<Rightarrow> bytes option"
  json_probe :: "bytes \<Rightarrow> (nat option \<times> bool) option"
  from_json :: "bytes \<Rightarrow> consensus_snapshot option"
  parse_peer_id :: "string \<Rightarrow> bytes option"

definition SNAPSHOT_VERSION :: u32 where "SNAPSHOT_VERSION = 5"
definition MAX_DURABLE_VOTE_WATERMARK_AHEAD :: u64 where "MAX_DURABLE_VOTE_WATERMARK_AHEAD = 128"
definition DURABLE_LOCK_MAGIC :: bytes where "DURABLE_LOCK_MAGIC = ascii ''N42L''"
definition EXECUTION_LINEAGE_MAGIC :: bytes where "EXECUTION_LINEAGE_MAGIC = ascii ''N42E''"
definition EXECUTION_LINEAGE_RECORD_LEN :: nat where "EXECUTION_LINEAGE_RECORD_LEN = 4 + 8 + 32 + 16"

section \<open>The execution lineage\<close>

definition lineage_record :: "ext_lib \<Rightarrow> view_number \<Rightarrow> b256 \<Rightarrow> bytes" where
  "lineage_record L view hash =
     (let payload = EXECUTION_LINEAGE_MAGIC @ le_bytes 8 view @ be_bytes 32 hash in
      payload @ take 16 (be_bytes 32 (blake3 L payload)))"

definition append_execution_lineage_proof ::
  "ext_lib \<Rightarrow> view_number \<Rightarrow> b256 \<Rightarrow> disk \<Rightarrow> unit io_result" where
  "append_execution_lineage_proof L view hash d =
     andthen (create_dir_all d) (\<lambda>_ d.
       andthen (fs_open LineageFile d) (\<lambda>_ d.
         andthen (fs_len LineageFile d) (\<lambda>len d.
           let complete_len = len - len mod EXECUTION_LINEAGE_RECORD_LEN in
           andthen
             (if complete_len \<noteq> len
              then andthen (fs_open_existing LineageFile d) (\<lambda>_ d.
                andthen (fs_set_len LineageFile complete_len d) (\<lambda>_ d. fs_sync LineageFile d))
              else (d, Ok ()))
             (\<lambda>_ d. andthen (if complete_len = 0 then sync_parent_directory d else (d, Ok ()))
               (\<lambda>_ d. andthen (fs_append LineageFile (lineage_record L view hash) d)
                 (\<lambda>_ d. fs_sync LineageFile d))))))"

text \<open>The loop over the complete records; a record that does not check stops it with an error.\<close>

function scan_lineage ::
  "ext_lib \<Rightarrow> b256 \<Rightarrow> bytes \<Rightarrow> (view_number \<times> b256) option
   \<Rightarrow> (io_error, (view_number \<times> b256) option) outcome" where
  "scan_lineage L head bytes recovered =
     (if length bytes < EXECUTION_LINEAGE_RECORD_LEN then Ok recovered
      else let record = take EXECUTION_LINEAGE_RECORD_LEN bytes;
               payload = take 44 record
           in if take 4 payload \<noteq> EXECUTION_LINEAGE_MAGIC then Err (InvalidData LineageMagic)
              else if drop 44 record \<noteq> take 16 (be_bytes 32 (blake3 L payload))
              then Err (InvalidData LineageChecksum)
              else let view = from_le_bytes (take 8 (drop 4 payload));
                       hash = from_be_bytes (drop 12 payload)
                   in scan_lineage L head (drop EXECUTION_LINEAGE_RECORD_LEN bytes)
                        (if hash = head then Some (view, hash) else recovered))"
  by pat_completeness auto
termination
  by (relation "measure (\<lambda>(_, _, bytes, _). length bytes)") (auto simp: EXECUTION_LINEAGE_RECORD_LEN_def)

definition recover_execution_lineage_proof ::
  "ext_lib \<Rightarrow> b256 \<Rightarrow> disk \<Rightarrow> (view_number \<times> b256) option io_result" where
  "recover_execution_lineage_proof L head d =
     if_missing (fs_read LineageFile d) None (\<lambda>bytes d.
       let complete_len = length bytes - length bytes mod EXECUTION_LINEAGE_RECORD_LEN in
       (d, scan_lineage L head (take complete_len bytes) None))"

datatype head_source = SourceGenesis | SourceSnapshot | SourceEvidence | SourceCommitQc

text \<open>The view of the canonical head, from evidence that names the same hash, or nothing.\<close>

definition recover_execution_validated_head_view ::
  "consensus_snapshot \<Rightarrow> b256 \<Rightarrow> u64 \<Rightarrow> (view_number \<times> b256) option \<Rightarrow> (view_number \<times> head_source) option" where
  "recover_execution_validated_head_view sn head_hash head_number evidence =
     (if head_number = 0 then Some (0, SourceGenesis)
      else if sn_execution_validated_head_hash sn \<noteq> 0 \<and> sn_execution_validated_head_hash sn = head_hash
      then Some (sn_execution_validated_head_view sn, SourceSnapshot)
      else if (case evidence of Some (_, hash) \<Rightarrow> hash = head_hash | None \<Rightarrow> False)
      then Some (fst (the evidence), SourceEvidence)
      else if sn_committed_block_count sn = head_number \<and> qc_block_hash (sn_last_committed_qc sn) = head_hash
      then Some (qc_view (sn_last_committed_qc sn), SourceCommitQc)
      else None)"

section \<open>Snapshots\<close>

definition snapshot_validate :: "codec \<Rightarrow> consensus_snapshot \<Rightarrow> bool" where
  "snapshot_validate C sn =
     (if qc_view (sn_locked_qc sn) > sn_current_view sn then False
      else if qc_view (sn_last_committed_qc sn) > qc_view (sn_locked_qc sn) then False
      else let maximum_vote_watermark = saturating_add (sn_current_view sn) MAX_DURABLE_VOTE_WATERMARK_AHEAD in
        if sn_last_voted_view sn > maximum_vote_watermark then False
        else if sn_last_commit_voted_view sn > maximum_vote_watermark then False
        else case sn_scheduled_epoch_transition sn of
          None \<Rightarrow> True
        | Some (target_epoch, vs, f) \<Rightarrow>
            if target_epoch = 0 then False
            else if vs = [] then False
            else if \<not> is_ok (validate_params (length vs) f) then False
            else if peer_id_presence vs \<noteq> 0 \<and> peer_id_presence vs \<noteq> length vs then False
            else distinct_peer_ids (parse_peer_id C) {} vs)"

definition save_consensus_state :: "codec \<Rightarrow> consensus_snapshot \<Rightarrow> disk \<Rightarrow> unit io_result" where
  "save_consensus_state C sn d =
     (if \<not> snapshot_validate C sn then (d, Err (InvalidData SnapshotRejected))
      else case to_json C sn of
        None \<Rightarrow> (d, Err (InvalidData SnapshotJson))
      | Some json \<Rightarrow> andthen (create_dir_all d) (\<lambda>_ d. replace_file StateTmp StateFile json d))"

text \<open>Reading a snapshot: the version is probed first, older formats are completed or refused.\<close>

definition parse_snapshot :: "codec \<Rightarrow> bytes \<Rightarrow> (io_error, consensus_snapshot) outcome" where
  "parse_snapshot C json = (case json_probe C json of
     None \<Rightarrow> Err (InvalidData SnapshotJson)
   | Some (version, has_r2_vote_view) \<Rightarrow>
       let probed_version = (case version of Some v \<Rightarrow> v | None \<Rightarrow> 1) in
       if probed_version < 2 then Err (InvalidData (SnapshotPredatesV2 probed_version))
       else case from_json C json of
         None \<Rightarrow> Err (InvalidData SnapshotJson)
       | Some sn \<Rightarrow>
           if sn_version sn < 5
           then let sn = sn\<lparr> sn_last_commit_voted_view :=
                               max (sn_last_commit_voted_view sn) (sn_last_voted_view sn) \<rparr> in
             if snapshot_validate C sn then Ok sn else Err (InvalidData SnapshotRejected)
           else if \<not> has_r2_vote_view then Err (InvalidData SnapshotMissingR2View)
           else if snapshot_validate C sn then Ok sn else Err (InvalidData SnapshotRejected))"

definition load_consensus_state :: "codec \<Rightarrow> disk \<Rightarrow> consensus_snapshot option io_result" where
  "load_consensus_state C d = if_missing (fs_read StateFile d) None (\<lambda>json d.
     (d, bind_outcome (parse_snapshot C json) (\<lambda>sn. Ok (Some sn))))"

section \<open>The vote log\<close>

definition VOTE_LOG_FIELD_BYTES :: nat where "VOTE_LOG_FIELD_BYTES = 8"
definition VOTE_LOG_BYTES :: nat where "VOTE_LOG_BYTES = 16"

definition load_last_vote_views :: "disk \<Rightarrow> (view_number \<times> view_number) io_result" where
  "load_last_vote_views d = if_missing (fs_open_existing VoteLogFile d) (0, 0) (\<lambda>_ d.
       andthen (fs_len VoteLogFile d) (\<lambda>len d.
         if len \<noteq> VOTE_LOG_FIELD_BYTES \<and> len \<noteq> VOTE_LOG_BYTES
         then (d, Err (InvalidData (VoteLogLength len)))
         else andthen (fs_read_exact VoteLogFile 0 8 d) (\<lambda>prepare d.
           let prepare_view = from_le_bytes prepare in
           if len = VOTE_LOG_FIELD_BYTES then (d, Ok (prepare_view, prepare_view))
           else andthen (fs_read_exact VoteLogFile 8 8 d) (\<lambda>commit d.
             (d, Ok (prepare_view, from_le_bytes commit))))))"

definition load_last_voted_view :: "disk \<Rightarrow> view_number io_result" where
  "load_last_voted_view d = andthen (load_last_vote_views d) (\<lambda>(prepare_view, _) d. (d, Ok prepare_view))"

text \<open>\<open>write_all\<close> followed by \<open>sync_all\<close>.\<close>

definition write_synced :: "file_name \<Rightarrow> nat \<Rightarrow> bytes \<Rightarrow> disk \<Rightarrow> unit io_result" where
  "write_synced n off bs d = andthen (fs_write n off bs d) (\<lambda>_ d. fs_sync n d)"

definition file_vote_log_open :: "disk \<Rightarrow> unit io_result" where
  "file_vote_log_open d =
     andthen (create_dir_all d) (\<lambda>_ d.
       andthen (fs_open VoteLogFile d) (\<lambda>_ d.
         andthen (fs_len VoteLogFile d) (\<lambda>len d.
           andthen
             (if len = 0
              then write_synced VoteLogFile 0 (replicate VOTE_LOG_BYTES 0) d
              else if len = VOTE_LOG_FIELD_BYTES
              then andthen (fs_seek d) (\<lambda>_ d.
                andthen (fs_read_exact VoteLogFile 0 8 d) (\<lambda>prepare d.
                  andthen (fs_seek d) (\<lambda>_ d.
                    write_synced VoteLogFile VOTE_LOG_FIELD_BYTES prepare d)))
              else if len = VOTE_LOG_BYTES then (d, Ok ())
              else (d, Err (InvalidData (VoteLogLength len))))
             (\<lambda>_ d. sync_parent_directory d))))"

fun map_io_err :: "'a io_result \<Rightarrow> disk \<times> 'a consensus_result" where
  "map_io_err (d, Ok a) = (d, Ok a)"
| "map_io_err (d, Err e) = (d, Err (VoteLogFsync []))"
| "map_io_err (d, Panic) = (d, Panic)"

definition record_at :: "nat \<Rightarrow> view_number \<Rightarrow> disk \<Rightarrow> disk \<times> unit consensus_result" where
  "record_at offset view d = map_io_err (
     andthen (fs_lock d) (\<lambda>_ d.
       andthen (fs_seek d) (\<lambda>_ d.
         andthen (fs_write VoteLogFile offset (le_bytes 8 view) d) (\<lambda>_ d. fs_sync VoteLogFile d))))"

definition record_vote :: "view_number \<Rightarrow> disk \<Rightarrow> disk \<times> unit consensus_result" where
  "record_vote view = record_at 0 view"

definition record_commit_vote :: "view_number \<Rightarrow> disk \<Rightarrow> disk \<times> unit consensus_result" where
  "record_commit_vote view = record_at VOTE_LOG_FIELD_BYTES view"

section \<open>The durable lock\<close>

definition lock_file_bytes :: "ext_lib \<Rightarrow> bytes \<Rightarrow> bytes" where
  "lock_file_bytes L encoded = DURABLE_LOCK_MAGIC @ be_bytes 32 (blake3 L encoded) @ encoded"

definition record_lock :: "ext_lib \<Rightarrow> codec \<Rightarrow> quorum_certificate \<Rightarrow> disk \<Rightarrow> disk \<times> unit consensus_result" where
  "record_lock L C qc d = (case enc_qc C qc of
     None \<Rightarrow> (d, Err (VoteLogFsync []))
   | Some encoded \<Rightarrow> map_io_err (
       andthen (fs_lock d) (\<lambda>_ d. replace_file LockTmp LockFile (lock_file_bytes L encoded) d)))"

definition parse_lock :: "ext_lib \<Rightarrow> codec \<Rightarrow> bytes \<Rightarrow> (io_error, quorum_certificate) outcome" where
  "parse_lock L C bytes =
     (if take 4 bytes \<noteq> DURABLE_LOCK_MAGIC then Err (InvalidData LockMagic)
      else let body = drop 4 bytes in
        if length body < 32 then Err (InvalidData LockTruncated)
        else let checksum = take 32 body; encoded = drop 32 body in
          if be_bytes 32 (blake3 L encoded) \<noteq> checksum then Err (InvalidData LockChecksum)
          else case dec_qc C encoded of
            None \<Rightarrow> Err (InvalidData LockDecode)
          | Some qc \<Rightarrow> Ok qc)"

definition load_durable_lock :: "ext_lib \<Rightarrow> codec \<Rightarrow> disk \<Rightarrow> quorum_certificate option io_result" where
  "load_durable_lock L C d = if_missing (fs_read LockFile d) None (\<lambda>bytes d.
     (d, bind_outcome (parse_lock L C bytes) (\<lambda>qc. Ok (Some qc))))"

definition higher_lock :: "quorum_certificate \<Rightarrow> quorum_certificate option \<Rightarrow> quorum_certificate" where
  "higher_lock snapshot_lock durable_lock = (case durable_lock of
     Some lock \<Rightarrow> if qc_view lock > qc_view snapshot_lock then lock else snapshot_lock
   | None \<Rightarrow> snapshot_lock)"

section \<open>The vote log\<close>

text \<open>The two watermarks that a content of the vote log stands for; other lengths are corrupt.\<close>

fun vote_views :: "bytes option \<Rightarrow> (view_number \<times> view_number) option" where
  "vote_views None = Some (0, 0)"
| "vote_views (Some bs) =
     (if bs = [] then Some (0, 0)
      else if length bs = 8 then Some (from_le_bytes bs, from_le_bytes bs)
      else if length bs = 16 then Some (from_le_bytes (take 8 bs), from_le_bytes (drop 8 bs))
      else None)"

definition log_covers :: "view_number set \<Rightarrow> view_number set \<Rightarrow> bytes option \<Rightarrow> bool" where
  "log_covers V W c \<longleftrightarrow> (\<exists>a b. vote_views c = Some (a, b) \<and> (\<forall>v \<in> V. v \<le> a) \<and> (\<forall>w \<in> W. w \<le> b))"

text \<open>An opened log: sixteen bytes under a durable directory entry.\<close>

definition log_ready :: "disk \<Rightarrow> bool" where
  "log_ready d \<longleftrightarrow> (\<exists>bs. content_of VoteLogFile d = Some bs \<and> length bs = 16) \<and> f_entry (dk_files d VoteLogFile) = {}"

lemma tears_small: "off + length bs \<le> 16 \<Longrightarrow> k \<in> tears off bs \<Longrightarrow> k = 0 \<or> k = length bs"
  by (auto simp: tears_def sector_def dest!: dvd_imp_le)

lemma overlay_none [simp]: "off \<le> length c \<Longrightarrow> overlay c off [] = c"
  by (simp add: overlay_def)

lemma ends_map_io_err [simp]: "ends (map_io_err p) E Q = ends p E Q"
  by (cases p rule: map_io_err.cases) simp_all

definition fields :: "bytes \<Rightarrow> view_number \<times> view_number" where
  "fields bs = (from_le_bytes (take 8 bs), from_le_bytes (drop 8 bs))"

lemma vote_views_ready: "length bs = 16 \<Longrightarrow> vote_views (Some bs) = Some (fields bs)"
  by (auto simp: fields_def)

lemma overlay_field:
  assumes "length c = 16" and "off = 0 \<or> off = 8"
  shows "length (overlay c off (le_bytes 8 w)) = 16"
    and "fields (overlay c off (le_bytes 8 w)) = (if off = 0 then (w, snd (fields c)) else (fst (fields c), w))"
  using assms by (auto simp: overlay_def fields_def min_absorb2)

text \<open>
  Recording a view no lower than the recorded ones keeps them covered whatever fails, and covers the
  new view once it has succeeded.
\<close>

lemma record_at_safe:
  assumes off: "off = 0 \<or> off = 8" and ready: "log_ready d" and kept: "keeps VoteLogFile (log_covers V W) d"
    and above: "off = 0 \<Longrightarrow> \<forall>v \<in> V. v \<le> w" "off = 8 \<Longrightarrow> \<forall>v \<in> W. v \<le> w"
  defines "frame \<equiv> \<lambda>d'. log_ready d' \<and> keeps VoteLogFile (log_covers V W) d' \<and>
      (\<forall>m. m \<noteq> VoteLogFile \<longrightarrow> dk_files d' m = dk_files d m)"
  shows "ends (record_at off w d) frame (\<lambda>_ d'. frame d' \<and> keeps VoteLogFile
    (log_covers (if off = 0 then insert w V else V) (if off = 8 then insert w W else W)) d')"
proof -
  obtain c where c: "content_of VoteLogFile d = Some c" "length c = 16" using ready by (auto simp: log_ready_def)
  have entry: "f_entry (dk_files d VoteLogFile) = {}" using ready by (simp add: log_ready_def)
  have cov: "log_covers V W (Some c)" using keeps_content [OF kept] c by simp
  let ?bs = "le_bytes 8 w" let ?new = "overlay c off ?bs"
  note new = overlay_field [OF c(2) off, of w]
  have strong: "log_covers (if off = 0 then insert w V else V) (if off = 8 then insert w W else W) (Some ?new)"
    using cov off above new by (auto simp: log_covers_def vote_views_ready c(2) simp del: vote_views.simps)
  have weak: "log_covers V W (Some ?new)"
    using strong by (auto simp: log_covers_def simp del: vote_views.simps split: if_splits)
  have tear: "log_covers V W (Some (overlay c off (take k ?bs))) \<and> length (overlay c off (take k ?bs)) = 16"
    if "k \<in> tears off ?bs" for k
    using tears_small [OF _ that] off cov weak c(2) new(1) by auto
  have same: "frame d0" if "dk_files d0 = dk_files d" for d0
    using that ready kept keeps_files [of d0 VoteLogFile d] by (auto simp: frame_def log_ready_def content_of_def)
  have torn: "frame d0" if "k \<in> tears off ?bs"
      and d0: "dk_files d0 = (dk_files d)(VoteLogFile := file_write off (take k ?bs) (dk_files d VoteLogFile))" for d0 k
  proof -
    have "keeps VoteLogFile (log_covers V W) d0"
      by (rule keeps_file_write [OF kept that(1)]) (use d0 tear c(1) in auto)
    then show ?thesis using tear [OF that(1)] c(1) entry
      by (simp add: frame_def log_ready_def content_of_def d0 file_write_def)
  qed
  have all: "8 \<in> tears off ?bs" by (simp add: tears_def)
  show ?thesis
    unfolding record_at_def ends_map_io_err
  proof (intro ends_andthen)
    show "ends (fs_lock d) frame (\<lambda>_ d1. dk_files d1 = dk_files d)" by (rule ends_touch) (simp add: same)
    show "ends (fs_seek d1) frame (\<lambda>_ d2. dk_files d2 = dk_files d)" if "dk_files d1 = dk_files d" for d1
      using that by (intro ends_touch) (simp add: same)
    show "ends (fs_write VoteLogFile off ?bs d2) frame (\<lambda>_ d3. dk_files d3 =
        (dk_files d)(VoteLogFile := file_write off ?bs (dk_files d VoteLogFile)))" if "dk_files d2 = dk_files d" for d2
      using that by (intro ends_write) (auto intro: torn)
    show "ends (fs_sync VoteLogFile d3) frame (\<lambda>_ d'. frame d' \<and> keeps VoteLogFile
        (log_covers (if off = 0 then insert w V else V) (if off = 8 then insert w W else W)) d')"
      if d3: "dk_files d3 = (dk_files d)(VoteLogFile := file_write off ?bs (dk_files d VoteLogFile))" for d3
    proof (rule ends_sync)
      show "frame d0" if "dk_files d0 = dk_files d3" for d0
        using that torn [OF all, of d0] by (simp add: d3)
      fix d0 :: disk
      assume d0: "dk_files d0 = (dk_files d3)(VoteLogFile := file_sync (dk_files d3 VoteLogFile))"
      have "f_content (dk_files d0 VoteLogFile) = Some ?new" "f_data (dk_files d0 VoteLogFile) = {?new}"
        "f_entry (dk_files d0 VoteLogFile) = {}"
        using c(1) entry by (simp_all add: d0 d3 file_sync_def file_write_def content_of_def)
      then show "frame d0 \<and> keeps VoteLogFile
          (log_covers (if off = 0 then insert w V else V) (if off = 8 then insert w W else W)) d0"
        using strong weak new(1) d0 d3
        by (auto simp: frame_def log_ready_def keeps_def survivors_def fs_file_ok_def content_of_def)
    qed
  qed
qed

text \<open>Opening the log makes it ready; a missing, empty or legacy log stands for the same watermarks after it.\<close>

lemma overlay_append: "overlay c (length c) bs = c @ bs"
  by (simp add: overlay_def)

lemma log_covers_empty: "log_covers V W None \<Longrightarrow> log_covers V W (Some [])"
  by (simp add: log_covers_def)

lemma log_covers_init: "log_covers V W (Some []) \<Longrightarrow> log_covers V W (Some (replicate 16 0))"
  by (simp add: log_covers_def) 

lemma log_covers_legacy: "length c = 8 \<Longrightarrow> log_covers V W (Some c) \<Longrightarrow> log_covers V W (Some (c @ c))"
  by (auto simp: log_covers_def)

definition log_state :: "view_number set \<Rightarrow> view_number set \<Rightarrow> disk \<Rightarrow> disk \<Rightarrow> bool" where
  "log_state V W d d' \<longleftrightarrow> keeps VoteLogFile (log_covers V W) d' \<and>
     (\<forall>m. m \<noteq> VoteLogFile \<longrightarrow> dk_files d' m = dk_files d m)"

lemma log_state_same: "log_state V W d d1 \<Longrightarrow> dk_files d' = dk_files d1 \<Longrightarrow> log_state V W d d'"
  using keeps_files [of d' VoteLogFile d1] by (simp add: log_state_def)

lemma log_state_written:
  assumes st: "log_state V W d d1" and c: "content_of VoteLogFile d1 = Some c" "off = length c" "off + length bs \<le> 16"
    and cov: "log_covers V W (Some (c @ bs))" and k: "k \<in> tears off bs"
    and d': "dk_files d' = (dk_files d1)(VoteLogFile := file_write off (take k bs) (dk_files d1 VoteLogFile))"
  shows "log_state V W d d'"
proof -
  have kept: "keeps VoteLogFile (log_covers V W) d1" using st by (simp add: log_state_def)
  have old: "log_covers V W (Some c)" using keeps_content [OF kept] c(1) by simp
  have "log_covers V W (Some (overlay c off (take j bs)))" if j: "j \<in> tears off bs" for j
    using tears_small [OF c(3) j]
  proof
    assume "j = 0"
    then show ?thesis using old c(2) by simp
  next
    assume "j = length bs"
    then show ?thesis using cov c(2) by (simp add: overlay_append)
  qed
  then have "keeps VoteLogFile (log_covers V W) d'"
    by (intro keeps_file_write [OF kept k]) (simp_all add: d' c(1))
  then show ?thesis using st by (simp add: log_state_def d')
qed

lemma log_state_extended:
  assumes st: "log_state V W d d1" and c: "content_of VoteLogFile d1 = Some c" "off = length c" "off + length bs = 16"
    and cov: "log_covers V W (Some (c @ bs))"
  shows "ends (write_synced VoteLogFile off bs d1) (log_state V W d)
      (\<lambda>_ d'. log_state V W d d' \<and> (\<exists>c. content_of VoteLogFile d' = Some c \<and> length c = 16))"
  unfolding write_synced_def
proof (intro ends_andthen)
  have le: "off + length bs \<le> 16" using c(3) by simp
  have all: "length bs \<in> tears off bs" by (simp add: tears_def)
  note w = log_state_written [OF st c(1,2) le cov]
  show "ends (fs_write VoteLogFile off bs d1) (log_state V W d)
      (\<lambda>_ d2. log_state V W d d2 \<and> content_of VoteLogFile d2 = Some (c @ bs))"
  proof (rule ends_write)
    show "log_state V W d d0" if "k \<in> tears off bs"
      "dk_files d0 = (dk_files d1)(VoteLogFile := file_write off (take k bs) (dk_files d1 VoteLogFile))" for d0 k
      using that by (rule w)
    show "log_state V W d d0 \<and> content_of VoteLogFile d0 = Some (c @ bs)"
      if d0: "dk_files d0 = (dk_files d1)(VoteLogFile := file_write off bs (dk_files d1 VoteLogFile))" for d0
      using w [OF all, of d0] d0 c(1,2) by (simp add: content_of_def file_write_def overlay_append)
  qed
  show "ends (fs_sync VoteLogFile d2) (log_state V W d)
      (\<lambda>_ d'. log_state V W d d' \<and> (\<exists>c. content_of VoteLogFile d' = Some c \<and> length c = 16))"
    if d2: "log_state V W d d2 \<and> content_of VoteLogFile d2 = Some (c @ bs)" for d2
  proof (rule ends_sync)
    show "log_state V W d d0" if "dk_files d0 = dk_files d2" for d0 using d2 that by (blast intro: log_state_same)
    fix d0 :: disk
    assume d0: "dk_files d0 = (dk_files d2)(VoteLogFile := file_sync (dk_files d2 VoteLogFile))"
    have "keeps VoteLogFile (log_covers V W) d0"
      by (rule keeps_file_sync [of VoteLogFile _ d2]) (use d2 d0 in \<open>simp_all add: log_state_def\<close>)
    then show "log_state V W d d0 \<and> (\<exists>c. content_of VoteLogFile d0 = Some c \<and> length c = 16)"
      using d2 d0 c(2,3) by (simp add: log_state_def content_of_def file_sync_def)
  qed
qed

definition log_kept :: "view_number set \<Rightarrow> view_number set \<Rightarrow> disk \<Rightarrow> disk \<Rightarrow> bool" where
  "log_kept V W d d' \<longleftrightarrow> keeps VoteLogFile (log_covers V W) d' \<and> (\<forall>m. m \<noteq> VoteLogFile \<longrightarrow> spared m d d')"

definition log_sized :: "view_number set \<Rightarrow> view_number set \<Rightarrow> disk \<Rightarrow> disk \<Rightarrow> bool" where
  "log_sized V W d d' \<longleftrightarrow> log_state V W d d' \<and> (\<exists>c. content_of VoteLogFile d' = Some c \<and> length c = 16)"

lemma log_state_kept: "log_state V W d d' \<Longrightarrow> log_kept V W d d'"
  by (simp add: log_kept_def log_state_def spared_def)

lemma log_state_content: "log_state V W d d' \<Longrightarrow> content_of VoteLogFile d' = Some c \<Longrightarrow> log_covers V W (Some c)"
  using keeps_content [of VoteLogFile "log_covers V W" d'] by (simp add: log_state_def)

lemma log_extended:
  assumes "log_state V W d d1" and "content_of VoteLogFile d1 = Some c" and "off = length c" and "off + length bs = 16"
    and "log_covers V W (Some (c @ bs))"
  shows "ends (write_synced VoteLogFile off bs d1) (log_kept V W d)
      (\<lambda>_. log_sized V W d)"
  by (rule ends_weaken [OF log_state_extended [OF assms]]) (auto simp: log_sized_def intro: log_state_kept)

lemma open_legacy:
  assumes d3: "log_state V W d d3" "content_of VoteLogFile d3 = Some c" "length c = 8"
  shows "ends (andthen (fs_seek d3) (\<lambda>_ d. andthen (fs_read_exact VoteLogFile 0 8 d) (\<lambda>prepare d.
        andthen (fs_seek d) (\<lambda>_ d. write_synced VoteLogFile VOTE_LOG_FIELD_BYTES prepare d)))) (log_kept V W d) (\<lambda>_. log_sized V W d)"
proof (intro ends_andthen)
  let ?same = "\<lambda>d'. dk_files d' = dk_files d3"
  have kept: "log_kept V W d d'" if "?same d'" for d' using log_state_same [OF d3(1) that] by (rule log_state_kept)
  have seek: "ends (fs_seek d') (log_kept V W d) (\<lambda>_. ?same)" if "?same d'" for d'
    by (rule ends_touch) (use that kept in auto)
  then show "ends (fs_seek d3) (log_kept V W d) (\<lambda>_. ?same)" by simp
  show "ends (fs_read_exact VoteLogFile 0 8 d4) (log_kept V W d) (\<lambda>prepare d'. prepare = c \<and> ?same d')"
    if "?same d4" for d4
    using that d3 kept by (intro ends_read_exact) (auto simp: content_of_def)
  show "ends (fs_seek d5) (log_kept V W d) (\<lambda>_. ?same)" if "prepare = c \<and> ?same d5" for prepare d5
    using that seek by blast
  show "ends (write_synced VoteLogFile VOTE_LOG_FIELD_BYTES prepare d6)
      (log_kept V W d) (\<lambda>_. log_sized V W d)" if "prepare = c \<and> ?same d5" "?same d6" for prepare d5 d6
    using that d3 log_state_content [OF d3(1,2)]
    by (intro log_extended [of _ _ _ _ c] log_state_same [OF d3(1)])
      (auto simp: content_of_def VOTE_LOG_FIELD_BYTES_def log_covers_legacy)
qed

lemma open_sizes:
  assumes d3: "log_state V W d d3" "content_of VoteLogFile d3 = Some c" "len = length c"
  shows "ends (if len = 0
      then write_synced VoteLogFile 0 (replicate VOTE_LOG_BYTES 0) d3
      else if len = VOTE_LOG_FIELD_BYTES
      then andthen (fs_seek d3) (\<lambda>_ d. andthen (fs_read_exact VoteLogFile 0 8 d) (\<lambda>prepare d.
        andthen (fs_seek d) (\<lambda>_ d. write_synced VoteLogFile VOTE_LOG_FIELD_BYTES prepare d)))
      else if len = VOTE_LOG_BYTES then (d3, Ok ()) else (d3, Err (InvalidData (VoteLogLength len))))
      (log_kept V W d) (\<lambda>_. log_sized V W d)"
proof -
  have "ends (write_synced VoteLogFile 0 (replicate VOTE_LOG_BYTES 0) d3)
      (log_kept V W d) (\<lambda>_. log_sized V W d)" if "len = 0"
    using that d3 log_state_content [OF d3(1,2)] log_covers_init
    by (intro log_extended [of _ _ _ _ c]) (auto simp: VOTE_LOG_BYTES_def)
  then show ?thesis
    using d3 open_legacy [of V W d d3 c] log_state_kept
    by (auto simp: VOTE_LOG_FIELD_BYTES_def VOTE_LOG_BYTES_def log_sized_def)
qed

lemma open_safe:
  assumes kept: "keeps VoteLogFile (log_covers V W) d"
  shows "ends (file_vote_log_open d) (log_kept V W d) (\<lambda>_ d'. log_kept V W d d' \<and> log_ready d')"
proof -
  let ?st = "log_state V W d"
  have st: "?st d" using kept by (simp add: log_state_def)
  have opened: "?st d'" if "?st d1" "dk_files d' = (dk_files d1)(VoteLogFile := file_open (dk_files d1 VoteLogFile))" for d1 d'
  proof -
    have k: "keeps VoteLogFile (log_covers V W) d1" using that by (simp add: log_state_def)
    have "keeps VoteLogFile (log_covers V W) d'"
      by (rule keeps_file_open [OF k]) (use keeps_content [OF k] that(2) log_covers_empty in auto)
    then show ?thesis using that by (simp add: log_state_def)
  qed
  have ready: "log_kept V W d d' \<and> log_ready d'" if "log_sized V W d d1"
      and d': "dk_files d' = (\<lambda>n. (dk_files d1 n)\<lparr> f_entry := {} \<rparr>)" for d1 d'
  proof -
    have "keeps VoteLogFile (log_covers V W) d1" using that by (simp add: log_sized_def log_state_def)
    then have "keeps VoteLogFile (log_covers V W) d'" by (rule keeps_entry) (simp add: d')
    then show ?thesis using that
      by (auto simp: log_kept_def log_sized_def log_state_def spared_def log_ready_def content_of_def)
  qed
  note same = log_state_same [THEN log_state_kept]
  show ?thesis
    unfolding file_vote_log_open_def
  proof (intro ends_andthen)
    show "ends (create_dir_all d) (log_kept V W d) (\<lambda>_. ?st)"
      by (rule ends_touch) (use st log_state_same log_state_kept in blast)
    show "ends (fs_open VoteLogFile d1) (log_kept V W d) (\<lambda>_. ?st)" if "?st d1" for d1
      using that by (intro ends_open) (blast intro: same opened)+
    show "ends (fs_len VoteLogFile d2) (log_kept V W d)
        (\<lambda>len d3. ?st d3 \<and> (\<exists>c. content_of VoteLogFile d3 = Some c \<and> len = length c))" if "?st d2" for d2
      using that log_state_same [OF that] log_state_kept by (intro ends_len) (auto simp: content_of_def)
    show "ends (sync_parent_directory d4) (log_kept V W d) (\<lambda>_ d'. log_kept V W d d' \<and> log_ready d')"
      if "log_sized V W d d4" for d4
      using that same ready by (intro ends_sync_parent) (auto simp: log_sized_def)
  qed (use open_sizes in blast)
qed

text \<open>Reading the watermarks back.\<close>

lemma load_views_exact:
  "ends (load_last_vote_views d) (\<lambda>d'. dk_files d' = dk_files d)
     (\<lambda>(a, b) d'. dk_files d' = dk_files d \<and> vote_views (content_of VoteLogFile d) = Some (a, b))"
  unfolding load_last_vote_views_def Let_def
proof (rule ends_if_missing_open)
  let ?same = "\<lambda>d'. dk_files d' = dk_files d"
  let ?Q = "\<lambda>(a, b) d'. ?same d' \<and> vote_views (content_of VoteLogFile d) = Some (a, b)"
  fix d1 :: disk
  assume d1: "?same d1"
  show "ends (andthen (fs_len VoteLogFile d1) (\<lambda>len d.
      if len \<noteq> VOTE_LOG_FIELD_BYTES \<and> len \<noteq> VOTE_LOG_BYTES then (d, Err (InvalidData (VoteLogLength len)))
      else andthen (fs_read_exact VoteLogFile 0 8 d) (\<lambda>prepare d.
        if len = VOTE_LOG_FIELD_BYTES then (d, Ok (from_le_bytes prepare, from_le_bytes prepare))
        else andthen (fs_read_exact VoteLogFile 8 8 d) (\<lambda>commit d.
          (d, Ok (from_le_bytes prepare, from_le_bytes commit)))))) ?same ?Q"
  proof (rule ends_andthen)
    show "ends (fs_len VoteLogFile d1) ?same (\<lambda>len d'. ?same d' \<and> (\<exists>c. content_of VoteLogFile d = Some c \<and> len = length c))"
      using d1 by (intro ends_len) (auto simp: content_of_def)
    fix len and d2 :: disk
    assume "?same d2 \<and> (\<exists>c. content_of VoteLogFile d = Some c \<and> len = length c)"
    then obtain c where d2: "?same d2" and c: "content_of VoteLogFile d = Some c" "len = length c" by blast
    have read: "ends (fs_read_exact VoteLogFile off 8 d') ?same (\<lambda>bs d''. ?same d'' \<and> bs = take 8 (drop off c))"
      if "?same d'" for d' off
      using that c by (intro ends_read_exact) (auto simp: content_of_def)
    show "ends (if len \<noteq> VOTE_LOG_FIELD_BYTES \<and> len \<noteq> VOTE_LOG_BYTES then (d2, Err (InvalidData (VoteLogLength len)))
      else andthen (fs_read_exact VoteLogFile 0 8 d2) (\<lambda>prepare d.
        if len = VOTE_LOG_FIELD_BYTES then (d, Ok (from_le_bytes prepare, from_le_bytes prepare))
        else andthen (fs_read_exact VoteLogFile 8 8 d) (\<lambda>commit d.
          (d, Ok (from_le_bytes prepare, from_le_bytes commit))))) ?same ?Q"
      using d2 c by (auto simp: VOTE_LOG_FIELD_BYTES_def VOTE_LOG_BYTES_def
          intro!: ends_andthen [OF read] ends_andthen [OF read [of _ 8]])
  qed
qed auto

section \<open>The lock file\<close>

text \<open>The documented law of the serializer: what it encodes it decodes.\<close>

definition qc_codec_ok :: "codec \<Rightarrow> bool" where
  "qc_codec_ok C \<longleftrightarrow> (\<forall>qc bs. enc_qc C qc = Some bs \<longrightarrow> dec_qc C bs = Some qc)"

definition lock_covers :: "ext_lib \<Rightarrow> codec \<Rightarrow> view_number set \<Rightarrow> bytes option \<Rightarrow> bool" where
  "lock_covers L C Q c = (case c of
     None \<Rightarrow> Q = {}
   | Some bs \<Rightarrow> \<exists>qc. parse_lock L C bs = Ok qc \<and> (\<forall>q \<in> Q. q \<le> qc_view qc))"

lemma parse_lock_roundtrip:
  "qc_codec_ok C \<Longrightarrow> enc_qc C qc = Some bs \<Longrightarrow> parse_lock L C (lock_file_bytes L bs) = Ok qc"
  by (simp add: parse_lock_def lock_file_bytes_def qc_codec_ok_def DURABLE_LOCK_MAGIC_def)

lemma keeps_durable: "durable n bs d \<Longrightarrow> keeps n P d \<Longrightarrow> Q (Some bs) \<Longrightarrow> keeps n Q d"
  by (simp add: durable_def keeps_def)

lemma record_lock_safe:
  assumes "qc_codec_ok C" and kept: "keeps LockFile (lock_covers L C Q) d" and above: "\<forall>q \<in> Q. q \<le> qc_view qc"
  defines "frame \<equiv> \<lambda>d'. keeps LockFile (lock_covers L C Q) d' \<and> (\<forall>m. m \<noteq> LockTmp \<longrightarrow> m \<noteq> LockFile \<longrightarrow> spared m d d')"
  shows "ends (record_lock L C qc d) frame
    (\<lambda>_ d'. frame d' \<and> keeps LockFile (lock_covers L C (insert (qc_view qc) Q)) d')"
proof (cases "enc_qc C qc")
  case None
  then show ?thesis using kept by (simp add: record_lock_def frame_def spared_def)
next
  case (Some encoded)
  let ?bs = "lock_file_bytes L encoded"
  have parse: "parse_lock L C ?bs = Ok qc" using assms(1) Some by (rule parse_lock_roundtrip)
  then have new: "lock_covers L C Q (Some ?bs)" "lock_covers L C (insert (qc_view qc) Q) (Some ?bs)"
    using above by (simp_all add: lock_covers_def)
  have "ends (replace_file LockTmp LockFile ?bs d1) frame
      (\<lambda>_ d'. frame d' \<and> keeps LockFile (lock_covers L C (insert (qc_view qc) Q)) d')"
    if d1: "dk_files d1 = dk_files d" for d1
  proof (rule ends_weaken [OF replace_file_safe [where P = "lock_covers L C Q"]])
    show "keeps LockFile (lock_covers L C Q) d1" using kept d1 by (simp add: keeps_def)
  qed (use new d1 in \<open>auto simp: frame_def spared_def intro: keeps_durable\<close>)
  then show ?thesis
    unfolding record_lock_def Some option.case ends_map_io_err
    using kept by (intro ends_andthen [of _ _ "\<lambda>_ d1. dk_files d1 = dk_files d"] ends_touch)
      (auto simp: frame_def spared_def keeps_def)
qed

lemma load_lock_exact:
  "ends (load_durable_lock L C d) (\<lambda>d'. dk_files d' = dk_files d)
     (\<lambda>found d'. dk_files d' = dk_files d \<and> (case found of
        None \<Rightarrow> content_of LockFile d = None
      | Some qc \<Rightarrow> \<exists>bs. content_of LockFile d = Some bs \<and> parse_lock L C bs = Ok qc))"
  unfolding load_durable_lock_def
proof (rule ends_if_missing_read)
  fix d0 :: disk and c
  assume "dk_files d0 = dk_files d" and "content_of LockFile d = Some c"
  moreover have "parse_lock L C c \<noteq> Panic" by (simp add: parse_lock_def Let_def split: option.split)
  ultimately show "ends (d0, bind_outcome (parse_lock L C c) (\<lambda>qc. Ok (Some qc))) (\<lambda>d'. dk_files d' = dk_files d)
     (\<lambda>found d'. dk_files d' = dk_files d \<and> (case found of
        None \<Rightarrow> content_of LockFile d = None
      | Some qc \<Rightarrow> \<exists>bs. content_of LockFile d = Some bs \<and> parse_lock L C bs = Ok qc))"
    by (cases "parse_lock L C c") auto
qed auto

lemma higher_lock_ge:
  "qc_view snapshot_lock \<le> qc_view (higher_lock snapshot_lock durable_lock)"
  "durable_lock = Some lock \<Longrightarrow> qc_view lock \<le> qc_view (higher_lock snapshot_lock durable_lock)"
  by (auto simp: higher_lock_def split: option.split)

section \<open>Snapshots on disk\<close>

definition json_codec_ok :: "codec \<Rightarrow> bool" where
  "json_codec_ok C \<longleftrightarrow> (\<forall>sn js. to_json C sn = Some js \<longrightarrow>
     from_json C js = Some sn \<and> json_probe C js = Some (Some (unat (sn_version sn)), True))"

lemma parse_snapshot_roundtrip:
  assumes "json_codec_ok C" and "to_json C sn = Some js" and "snapshot_validate C sn" and "sn_version sn = SNAPSHOT_VERSION"
  shows "parse_snapshot C js = Ok sn"
  using assms by (simp add: parse_snapshot_def json_codec_ok_def SNAPSHOT_VERSION_def Let_def)

text \<open>The snapshot a node would load from a content; \<open>Ok None\<close> stands for a missing file.\<close>

definition loaded :: "codec \<Rightarrow> bytes option \<Rightarrow> (io_error, consensus_snapshot option) outcome" where
  "loaded C c = (case c of None \<Rightarrow> Ok None | Some js \<Rightarrow> bind_outcome (parse_snapshot C js) (\<lambda>sn. Ok (Some sn)))"

lemma load_state_exact:
  "ends (load_consensus_state C d) (\<lambda>d'. dk_files d' = dk_files d)
     (\<lambda>found d'. dk_files d' = dk_files d \<and> loaded C (content_of StateFile d) = Ok found)"
  unfolding load_consensus_state_def
proof (rule ends_if_missing_read)
  fix d0 :: disk and c
  assume "dk_files d0 = dk_files d" and "content_of StateFile d = Some c"
  moreover have "parse_snapshot C c \<noteq> Panic" by (simp add: parse_snapshot_def Let_def split: option.split)
  ultimately show "ends (d0, bind_outcome (parse_snapshot C c) (\<lambda>sn. Ok (Some sn))) (\<lambda>d'. dk_files d' = dk_files d)
     (\<lambda>found d'. dk_files d' = dk_files d \<and> loaded C (content_of StateFile d) = Ok found)"
    by (cases "parse_snapshot C c") (auto simp: loaded_def)
qed (auto simp: loaded_def)

lemma save_safe:
  assumes "json_codec_ok C" and "sn_version sn = SNAPSHOT_VERSION" and kept: "keeps StateFile (\<lambda>c. loaded C c \<in> S) d"
  defines "frame \<equiv> \<lambda>d'. keeps StateFile (\<lambda>c. loaded C c \<in> insert (Ok (Some sn)) S) d' \<and>
      (\<forall>m. m \<noteq> StateTmp \<longrightarrow> m \<noteq> StateFile \<longrightarrow> spared m d d')"
  shows "ends (save_consensus_state C sn d) frame
    (\<lambda>_ d'. frame d' \<and> keeps StateFile (\<lambda>c. loaded C c = Ok (Some sn)) d')"
proof -
  have k: "keeps StateFile (\<lambda>c. loaded C c \<in> insert (Ok (Some sn)) S) d" using kept by (rule keeps_mono) simp
  then have same: "frame d1" if "dk_files d1 = dk_files d" for d1 using that by (auto simp: frame_def spared_def keeps_def)
  have "ends (andthen (create_dir_all d) (\<lambda>_ d. replace_file StateTmp StateFile js d)) frame
    (\<lambda>_ d'. frame d' \<and> keeps StateFile (\<lambda>c. loaded C c = Ok (Some sn)) d')"
    if js: "to_json C sn = Some js" and v: "snapshot_validate C sn" for js
  proof (rule ends_andthen [of _ _ "\<lambda>_ d1. dk_files d1 = dk_files d"])
    have new: "loaded C (Some js) = Ok (Some sn)"
      using parse_snapshot_roundtrip [OF assms(1) js v assms(2)] by (simp add: loaded_def)
    show "ends (replace_file StateTmp StateFile js d1) frame
      (\<lambda>_ d'. frame d' \<and> keeps StateFile (\<lambda>c. loaded C c = Ok (Some sn)) d')"
      if d1: "dk_files d1 = dk_files d" for d1
    proof (rule ends_weaken [OF replace_file_safe [where P = "\<lambda>c. loaded C c \<in> insert (Ok (Some sn)) S"]])
      show "keeps StateFile (\<lambda>c. loaded C c \<in> insert (Ok (Some sn)) S) d1" using k d1 by (simp add: keeps_def)
    qed (use new d1 in \<open>auto simp: frame_def spared_def intro: keeps_durable\<close>)
    show "ends (create_dir_all d) frame (\<lambda>_ d1. dk_files d1 = dk_files d)" by (rule ends_touch) (simp add: same)
  qed
  then show ?thesis using same by (auto simp: save_consensus_state_def split: option.split)
qed

end

