(* ===== verification/N42_Lineage.thy ===== *)
theory N42_Lineage
  imports N42_Persistence
begin

text \<open>
  The execution lineage across crashes. The log is append-only; a crash or a failed write leaves at
  most a torn last record, which the next append cuts off and which recovery ignores. The lemmas
  follow the file through any sequence of appends, failures and crashes.
\<close>

section \<open>Records\<close>

definition records :: "ext_lib \<Rightarrow> (view_number \<times> b256) list \<Rightarrow> bytes" where
  "records L rs = concat (map (\<lambda>(v, h). lineage_record L v h) rs)"

lemma length_lineage_record [simp]: "length (lineage_record L v h) = EXECUTION_LINEAGE_RECORD_LEN"
  by (simp add: lineage_record_def Let_def EXECUTION_LINEAGE_RECORD_LEN_def EXECUTION_LINEAGE_MAGIC_def)

lemma records_simps [simp]:
  "records L [] = []" "records L ((v, h) # rs) = lineage_record L v h @ records L rs"
  "records L (rs @ rs') = records L rs @ records L rs'"
  by (simp_all add: records_def)

lemma length_records [simp]: "length (records L rs) = length rs * EXECUTION_LINEAGE_RECORD_LEN"
  by (induction rs) auto

text \<open>The newest record of a hash.\<close>

definition newest :: "b256 \<Rightarrow> (view_number \<times> b256) list \<Rightarrow> (view_number \<times> b256) option" where
  "newest head rs = fold (\<lambda>(v, h) best. if h = head then Some (v, h) else best) rs None"

declare scan_lineage.simps [simp del]

lemma scan_record:
  "scan_lineage L head (lineage_record L v h @ bytes) best =
     scan_lineage L head bytes (if h = head then Some (v, h) else best)"
  by (subst scan_lineage.simps)
    (simp add: lineage_record_def Let_def EXECUTION_LINEAGE_RECORD_LEN_def EXECUTION_LINEAGE_MAGIC_def)

lemma scan_records:
  "scan_lineage L head (records L rs) best =
     Ok (fold (\<lambda>(v, h) best. if h = head then Some (v, h) else best) rs best)"
proof (induction rs arbitrary: best)
  case Nil
  show ?case by (subst scan_lineage.simps) (simp add: EXECUTION_LINEAGE_RECORD_LEN_def)
next
  case (Cons r rs)
  then show ?case by (cases r) (simp add: scan_record)
qed

lemma fold_newest:
  "fold (\<lambda>(v, h) best. if h = head then Some (v, h) else best) rs best =
     (case newest head rs of None \<Rightarrow> best | Some r \<Rightarrow> Some r)"
proof (induction rs arbitrary: best rule: rev_induct)
  case (snoc r rs)
  show ?case using snoc [of best] by (cases r) (simp add: newest_def)
qed (simp add: newest_def)

lemma newest_snoc: "newest head (rs @ [(v, h)]) = (if h = head then Some (v, h) else newest head rs)"
  by (simp add: newest_def)

lemma newest_mem: "newest head rs = Some (v, h) \<Longrightarrow> h = head \<and> (v, h) \<in> set rs"
proof (induction rs rule: rev_induct)
  case (snoc r rs)
  then show ?case by (cases r) (auto simp: newest_snoc split: if_splits)
qed (simp add: newest_def)

lemma newest_found: "(v, head) \<in> set rs \<Longrightarrow> newest head rs \<noteq> None"
  by (induction rs rule: rev_induct) (auto simp: newest_snoc)

section \<open>Contents of the log\<close>

text \<open>Complete records, all of the pairs in \<open>A\<close> and only of pairs in \<open>S\<close>, and at most a torn one behind them.\<close>

definition lineage_form :: "ext_lib \<Rightarrow> (view_number \<times> b256) set \<Rightarrow> (view_number \<times> b256) set \<Rightarrow> bytes option \<Rightarrow> bool" where
  "lineage_form L A S c \<longleftrightarrow> (c = None \<and> A = {}) \<or>
     (\<exists>rs tail. c = Some (records L rs @ tail) \<and> length tail < EXECUTION_LINEAGE_RECORD_LEN \<and> A \<subseteq> set rs \<and> set rs \<subseteq> S)"

lemma lineage_form_Some:
  "lineage_form L A S (Some bs) \<longleftrightarrow>
     (\<exists>rs tail. bs = records L rs @ tail \<and> length tail < EXECUTION_LINEAGE_RECORD_LEN \<and> A \<subseteq> set rs \<and> set rs \<subseteq> S)"
  by (simp add: lineage_form_def)

lemma lineage_form_mono: "lineage_form L A S c \<Longrightarrow> S \<subseteq> S' \<Longrightarrow> lineage_form L A S' c"
  unfolding lineage_form_def by blast

lemma complete_part:
  assumes "length tail < EXECUTION_LINEAGE_RECORD_LEN"
  shows "length (records L rs @ tail) - length (records L rs @ tail) mod EXECUTION_LINEAGE_RECORD_LEN
    = length (records L rs)"
  using assms by simp

lemma lineage_form_cut:
  assumes "lineage_form L A S (Some bs)"
  shows "\<exists>rs. take (length bs - length bs mod EXECUTION_LINEAGE_RECORD_LEN) bs = records L rs \<and> A \<subseteq> set rs \<and> set rs \<subseteq> S"
proof -
  obtain rs tail where bs: "bs = records L rs @ tail" "length tail < EXECUTION_LINEAGE_RECORD_LEN" "A \<subseteq> set rs \<and> set rs \<subseteq> S"
    using assms by (auto simp: lineage_form_Some)
  then show ?thesis using complete_part [OF bs(2), of L rs] by (intro exI [of _ rs]) simp
qed

lemma lineage_form_append:
  assumes "A \<subseteq> set rs \<and> set rs \<subseteq> S" and "k \<le> EXECUTION_LINEAGE_RECORD_LEN"
  shows "lineage_form L A (insert (v, h) S) (Some (records L rs @ take k (lineage_record L v h)))"
proof (cases "k = EXECUTION_LINEAGE_RECORD_LEN")
  case True
  then have "records L rs @ take k (lineage_record L v h) = records L (rs @ [(v, h)]) @ []" by simp
  with assms(1) show ?thesis unfolding lineage_form_Some
    by (intro exI [of _ "rs @ [(v, h)]"] exI [of _ "[]"]) (auto simp: EXECUTION_LINEAGE_RECORD_LEN_def)
next
  case False
  with assms show ?thesis unfolding lineage_form_Some
    by (intro exI [of _ rs] exI [of _ "take k (lineage_record L v h)"]) auto
qed

text \<open>The invariant: every content that may survive is well formed, and the name is durable once records are.\<close>

definition lineage_inv :: "ext_lib \<Rightarrow> (view_number \<times> b256) set \<Rightarrow> (view_number \<times> b256) set \<Rightarrow> disk \<Rightarrow> bool" where
  "lineage_inv L A S d \<longleftrightarrow> keeps LineageFile (lineage_form L A S) d \<and>
     (f_entry (dk_files d LineageFile) = {} \<or>
      (\<forall>c. content_of LineageFile d = Some c \<longrightarrow> length c < EXECUTION_LINEAGE_RECORD_LEN))"

lemma lineage_inv_crash: "lineage_inv L A S d \<Longrightarrow> crash d d' \<Longrightarrow> lineage_inv L A S d'"
proof -
  assume i: "lineage_inv L A S d" and c: "crash d d'"
  then have "keeps LineageFile (lineage_form L A S) d'" by (auto simp: lineage_inv_def intro: keeps_crash)
  moreover obtain x where "dk_files d' LineageFile = settled x" using c unfolding crash_def by blast
  then have "f_entry (dk_files d' LineageFile) = {}" by (simp add: settled_def)
  ultimately show ?thesis by (simp add: lineage_inv_def)
qed

lemma lineage_inv_mono: "lineage_inv L A S d \<Longrightarrow> S \<subseteq> S' \<Longrightarrow> lineage_inv L A S' d"
  using lineage_form_mono by (auto simp: lineage_inv_def elim: keeps_mono)

lemma lineage_inv_same: "lineage_inv L A S d \<Longrightarrow> dk_files d' = dk_files d \<Longrightarrow> lineage_inv L A S d'"
  by (simp add: lineage_inv_def keeps_def content_of_def)

lemma lineage_inv_open:
  assumes "lineage_inv L A S d" and d': "dk_files d' = (dk_files d)(LineageFile := file_open (dk_files d LineageFile))"
  shows "lineage_inv L A S d'" and "content_of LineageFile d' \<noteq> None"
proof -
  have k: "keeps LineageFile (lineage_form L A S) d" using assms(1) by (simp add: lineage_inv_def)
  have empty: "lineage_form L A S (Some [])" if "content_of LineageFile d = None"
    using keeps_content [OF k] that unfolding lineage_form_Some
    by (intro exI [of _ "[]"]) (simp add: EXECUTION_LINEAGE_RECORD_LEN_def lineage_form_def)
  have "keeps LineageFile (lineage_form L A S) d'"
    by (rule keeps_file_open [OF k empty]) (simp_all add: d')
  then show "lineage_inv L A S d'" using assms
    by (auto simp: lineage_inv_def content_of_def file_open_def EXECUTION_LINEAGE_RECORD_LEN_def split: option.splits)
  show "content_of LineageFile d' \<noteq> None"
    by (simp add: d' content_of_def file_open_def split: option.split)
qed

lemma lineage_inv_cut:
  assumes "lineage_inv L A S d" and c: "content_of LineageFile d = Some c"
    and d': "dk_files d' = (dk_files d)(LineageFile := file_truncate (length c - length c mod EXECUTION_LINEAGE_RECORD_LEN)
      (dk_files d LineageFile))"
  shows "lineage_inv L A S d'"
proof -
  have k: "keeps LineageFile (lineage_form L A S) d" using assms(1) by (simp add: lineage_inv_def)
  have "lineage_form L A S (Some c)" using keeps_content [OF k] c by simp
  then obtain rs where rs: "take (length c - length c mod EXECUTION_LINEAGE_RECORD_LEN) c = records L rs" "A \<subseteq> set rs \<and> set rs \<subseteq> S"
    using lineage_form_cut by blast
  have "lineage_form L A S (Some (records L rs))" unfolding lineage_form_Some using rs(2)
    by (intro exI [of _ rs] exI [of _ "[]"]) (simp add: EXECUTION_LINEAGE_RECORD_LEN_def)
  then have "keeps LineageFile (lineage_form L A S) d'"
    by (intro keeps_file_truncate [OF k]) (use c d' rs in auto)
  then show ?thesis using assms(1) c
    by (auto simp: lineage_inv_def d' content_of_def file_truncate_def intro: order.strict_trans1)
qed

lemma lineage_inv_sync:
  assumes "lineage_inv L A S d" and "dk_files d' = (dk_files d)(LineageFile := file_sync (dk_files d LineageFile))"
  shows "lineage_inv L A S d'"
proof -
  have "keeps LineageFile (lineage_form L A S) d'"
    by (rule keeps_file_sync [of _ _ d]) (use assms in \<open>simp_all add: lineage_inv_def\<close>)
  then show ?thesis using assms by (simp add: lineage_inv_def content_of_def file_sync_def)
qed

lemma lineage_inv_dir:
  assumes "lineage_inv L A S d" and d': "dk_files d' = (\<lambda>n. (dk_files d n)\<lparr> f_entry := {} \<rparr>)"
  shows "lineage_inv L A S d'"
proof -
  have "keeps LineageFile (lineage_form L A S) d'"
    by (rule keeps_entry [of _ _ d]) (use assms in \<open>simp_all add: lineage_inv_def\<close>)
  then show ?thesis by (simp add: lineage_inv_def d')
qed

lemma lineage_inv_write:
  assumes i: "lineage_inv L A S d" and c: "content_of LineageFile d = Some (records L rs)" "A \<subseteq> set rs \<and> set rs \<subseteq> S"
    and entry: "f_entry (dk_files d LineageFile) = {}" and k: "k \<in> tears (length (records L rs)) (lineage_record L v h)"
    and d': "dk_files d' = (dk_files d)(LineageFile :=
      file_write (length (records L rs)) (take k (lineage_record L v h)) (dk_files d LineageFile))"
  shows "lineage_inv L A (insert (v, h) S) d'"
proof -
  have kept: "keeps LineageFile (lineage_form L A (insert (v, h) S)) d"
    using lineage_inv_mono [OF i, of "insert (v, h) S"] by (auto simp: lineage_inv_def)
  have "keeps LineageFile (lineage_form L A (insert (v, h) S)) d'"
  proof (rule keeps_file_write [OF kept k])
    fix c j
    assume "content_of LineageFile d = Some c" and j: "j \<in> tears (length (records L rs)) (lineage_record L v h)"
    then have "overlay c (length (records L rs)) (take j (lineage_record L v h))
        = records L rs @ take j (lineage_record L v h)" using assms(2) overlay_append [of "records L rs"] by simp
    moreover have "j \<le> EXECUTION_LINEAGE_RECORD_LEN" using j by (simp add: tears_def)
    ultimately show "lineage_form L A (insert (v, h) S) (Some (overlay c (length (records L rs)) (take j (lineage_record L v h))))"
      using lineage_form_append [OF c(2)] by simp
  qed (simp add: d')
  then show ?thesis using c entry by (simp add: lineage_inv_def d' file_write_def split: option.split)
qed

section \<open>Appending\<close>

text \<open>The repaired log: complete records only, under the invariant.\<close>

definition lineage_clean :: "ext_lib \<Rightarrow> (view_number \<times> b256) set \<Rightarrow> (view_number \<times> b256) set \<Rightarrow> (view_number \<times> b256) list \<Rightarrow> disk \<Rightarrow> bool" where
  "lineage_clean L A S rs d \<longleftrightarrow> lineage_inv L A S d \<and> content_of LineageFile d = Some (records L rs) \<and> A \<subseteq> set rs \<and> set rs \<subseteq> S"

lemma lineage_clean_sync:
  assumes "lineage_clean L A S rs d"
  shows "ends (fs_sync LineageFile d) (lineage_inv L A S) (\<lambda>_. lineage_clean L A S rs)"
proof (rule ends_sync)
  have i: "lineage_inv L A S d" using assms by (simp add: lineage_clean_def)
  show "lineage_inv L A S d0" if "dk_files d0 = dk_files d" for d0 using i that by (rule lineage_inv_same)
  show "lineage_clean L A S rs d0" if d0: "dk_files d0 = (dk_files d)(LineageFile := file_sync (dk_files d LineageFile))" for d0
    using lineage_inv_sync [OF i d0] assms by (simp add: lineage_clean_def content_of_def d0 file_sync_def)
qed

lemma lineage_repair:
  assumes i: "lineage_inv L A S d" and c: "content_of LineageFile d = Some c"
    and rs: "take (length c - length c mod EXECUTION_LINEAGE_RECORD_LEN) c = records L rs" "A \<subseteq> set rs \<and> set rs \<subseteq> S"
  shows "ends (if length c - length c mod EXECUTION_LINEAGE_RECORD_LEN \<noteq> length c
      then andthen (fs_open_existing LineageFile d) (\<lambda>_ d.
        andthen (fs_set_len LineageFile (length c - length c mod EXECUTION_LINEAGE_RECORD_LEN) d) (\<lambda>_ d. fs_sync LineageFile d))
      else (d, Ok ())) (lineage_inv L A S) (\<lambda>_. lineage_clean L A S rs)"
proof (cases "length c - length c mod EXECUTION_LINEAGE_RECORD_LEN \<noteq> length c")
  case False
  then have "c = records L rs" using rs(1) by simp
  with False show ?thesis using i c rs(2) by (simp add: lineage_clean_def)
next
  case True
  let ?n = "length c - length c mod EXECUTION_LINEAGE_RECORD_LEN"
  have "ends (andthen (fs_open_existing LineageFile d) (\<lambda>_ d.
        andthen (fs_set_len LineageFile ?n d) (\<lambda>_ d. fs_sync LineageFile d))) (lineage_inv L A S) (\<lambda>_. lineage_clean L A S rs)"
  proof (intro ends_andthen)
    show "ends (fs_open_existing LineageFile d) (lineage_inv L A S) (\<lambda>_ d1. dk_files d1 = dk_files d)"
      using lineage_inv_same [OF i] by (intro ends_open_existing)
    show "ends (fs_set_len LineageFile ?n d1) (lineage_inv L A S) (\<lambda>_. lineage_clean L A S rs)"
      if d1: "dk_files d1 = dk_files d" for d1
    proof (rule ends_set_len)
      show "lineage_inv L A S d0" if "dk_files d0 = dk_files d1" for d0
        using that d1 lineage_inv_same [OF i] by simp
      show "lineage_clean L A S rs d0" if d0: "dk_files d0 = (dk_files d1)(LineageFile := file_truncate ?n (dk_files d1 LineageFile))" for d0
        using lineage_inv_cut [OF i c, of d0] d0 d1 c rs
        by (simp add: lineage_clean_def content_of_def file_truncate_def)
    qed
    show "ends (fs_sync LineageFile d2) (lineage_inv L A S) (\<lambda>_. lineage_clean L A S rs)" if "lineage_clean L A S rs d2" for d2
      using that by (rule lineage_clean_sync)
  qed
  with True show ?thesis by simp
qed

lemma lineage_name:
  assumes "lineage_clean L A S rs d"
  shows "ends (if length (records L rs) = 0 then sync_parent_directory d else (d, Ok ())) (lineage_inv L A S)
    (\<lambda>_ d'. lineage_clean L A S rs d' \<and> f_entry (dk_files d' LineageFile) = {})"
proof (cases "rs = []")
  case True
  have i: "lineage_inv L A S d" using assms by (simp add: lineage_clean_def)
  have "ends (sync_parent_directory d) (lineage_inv L A S)
      (\<lambda>_ d'. lineage_clean L A S rs d' \<and> f_entry (dk_files d' LineageFile) = {})"
  proof (rule ends_sync_parent)
    show "lineage_inv L A S d0" if "dk_files d0 = dk_files d" for d0 using i that by (rule lineage_inv_same)
    show "lineage_clean L A S rs d0 \<and> f_entry (dk_files d0 LineageFile) = {}"
      if d0: "dk_files d0 = (\<lambda>n. (dk_files d n)\<lparr> f_entry := {} \<rparr>)" for d0
      using lineage_inv_dir [OF i d0] assms by (simp add: lineage_clean_def content_of_def d0)
  qed
  with True show ?thesis by simp
next
  case False
  then have "EXECUTION_LINEAGE_RECORD_LEN \<le> length (records L rs)" by (cases rs) auto
  then have "f_entry (dk_files d LineageFile) = {}" using assms by (auto simp: lineage_clean_def lineage_inv_def)
  then show ?thesis using assms False by (simp add: EXECUTION_LINEAGE_RECORD_LEN_def)
qed

lemma lineage_extend:
  assumes st: "lineage_clean L A S rs d" and entry: "f_entry (dk_files d LineageFile) = {}"
  shows "ends (andthen (fs_append LineageFile (lineage_record L v h) d) (\<lambda>_ d. fs_sync LineageFile d))
    (lineage_inv L A (insert (v, h) S))
    (\<lambda>_ d'. lineage_inv L A (insert (v, h) S) d' \<and> durable LineageFile (records L (rs @ [(v, h)])) d')"
proof (intro ends_andthen)
  let ?S = "insert (v, h) S" and ?off = "length (records L rs)" and ?r = "lineage_record L v h"
  have c: "content_of LineageFile d = Some (records L rs)" and i: "lineage_inv L A S d" and rs: "A \<subseteq> set rs \<and> set rs \<subseteq> S"
    using st by (simp_all add: lineage_clean_def)
  note w = lineage_inv_write [OF i c rs entry, of _ v h]
  have all: "EXECUTION_LINEAGE_RECORD_LEN \<in> tears ?off ?r" by (simp add: tears_def)
  let ?done = "\<lambda>d'. lineage_inv L A ?S d' \<and> content_of LineageFile d' = Some (records L (rs @ [(v, h)])) \<and>
      f_entry (dk_files d' LineageFile) = {}"
  show "ends (fs_append LineageFile ?r d) (lineage_inv L A ?S) (\<lambda>_. ?done)"
  proof (rule ends_append [OF c])
    show "lineage_inv L A ?S d0" if "k \<in> tears ?off ?r"
      "dk_files d0 = (dk_files d)(LineageFile := file_write ?off (take k ?r) (dk_files d LineageFile))" for d0 k
      using that by (rule w)
    show "?done d0" if "dk_files d0 = (dk_files d)(LineageFile := file_write ?off ?r (dk_files d LineageFile))" for d0
      using w [OF all, of d0] that c entry overlay_append [of "records L rs" ?r]
      by (simp add: content_of_def file_write_def)
  qed
  show "ends (fs_sync LineageFile d1) (lineage_inv L A ?S)
      (\<lambda>_ d'. lineage_inv L A ?S d' \<and> durable LineageFile (records L (rs @ [(v, h)])) d')" if d1: "?done d1" for d1
  proof (rule ends_sync)
    show "lineage_inv L A ?S d0" if "dk_files d0 = dk_files d1" for d0 using d1 that by (blast intro: lineage_inv_same)
    fix d0 :: disk
    assume d0: "dk_files d0 = (dk_files d1)(LineageFile := file_sync (dk_files d1 LineageFile))"
    have "lineage_inv L A ?S d0" using d1 d0 by (blast intro: lineage_inv_sync)
    moreover have "durable LineageFile (records L (rs @ [(v, h)])) d0"
      using d1 by (simp add: durable_def content_of_def file_sync_def survivors_def d0)
    ultimately show "lineage_inv L A ?S d0 \<and> durable LineageFile (records L (rs @ [(v, h)])) d0" by blast
  qed
qed

lemma append_safe:
  assumes i: "lineage_inv L A S d"
  shows "ends (append_execution_lineage_proof L v h d) (lineage_inv L A (insert (v, h) S))
    (\<lambda>_ d'. lineage_inv L A (insert (v, h) S) d' \<and>
       (\<exists>rs. A \<subseteq> set rs \<and> set rs \<subseteq> S \<and> durable LineageFile (records L (rs @ [(v, h)])) d'))"
proof -
  let ?E = "lineage_inv L A (insert (v, h) S)"
  have E: "?E d'" if "lineage_inv L A S d'" for d' using that by (rule lineage_inv_mono) blast
  let ?tail = "\<lambda>d. andthen (fs_append LineageFile (lineage_record L v h) d) (\<lambda>_ d. fs_sync LineageFile d)"
  let ?Q = "\<lambda>_ d'. ?E d' \<and> (\<exists>rs. A \<subseteq> set rs \<and> set rs \<subseteq> S \<and> durable LineageFile (records L (rs @ [(v, h)])) d')"
  have after_len: "ends (andthen
      (if length c - length c mod EXECUTION_LINEAGE_RECORD_LEN \<noteq> length c
       then andthen (fs_open_existing LineageFile d1) (\<lambda>_ d.
         andthen (fs_set_len LineageFile (length c - length c mod EXECUTION_LINEAGE_RECORD_LEN) d) (\<lambda>_ d. fs_sync LineageFile d))
       else (d1, Ok ()))
      (\<lambda>_ d. andthen (if length c - length c mod EXECUTION_LINEAGE_RECORD_LEN = 0 then sync_parent_directory d else (d, Ok ()))
        (\<lambda>_ d. ?tail d))) ?E ?Q"
    if d1: "lineage_inv L A S d1" "content_of LineageFile d1 = Some c" for d1 c
  proof -
    have "lineage_form L A S (Some c)"
      using d1 keeps_content [of LineageFile "lineage_form L A S" d1] by (simp add: lineage_inv_def)
    then obtain rs where rs: "take (length c - length c mod EXECUTION_LINEAGE_RECORD_LEN) c = records L rs" "A \<subseteq> set rs \<and> set rs \<subseteq> S"
      using lineage_form_cut by blast
    have n: "length c - length c mod EXECUTION_LINEAGE_RECORD_LEN = length (records L rs)"
      unfolding rs(1) [symmetric] by simp
    show ?thesis
    proof (rule ends_andthen [OF ends_weaken [OF lineage_repair [OF d1 rs]]])
      fix d2
      assume d2: "lineage_clean L A S rs d2"
      show "ends (andthen (if length c - length c mod EXECUTION_LINEAGE_RECORD_LEN = 0 then sync_parent_directory d2
          else (d2, Ok ())) (\<lambda>_ d. ?tail d)) ?E ?Q" unfolding n
      proof (rule ends_andthen [OF ends_weaken [OF lineage_name [OF d2]]])
        fix d3
        assume "lineage_clean L A S rs d3 \<and> f_entry (dk_files d3 LineageFile) = {}"
        then have "ends (?tail d3) ?E (\<lambda>_ d'. ?E d' \<and> durable LineageFile (records L (rs @ [(v, h)])) d')"
          by (intro lineage_extend) simp_all
        then show "ends (?tail d3) ?E ?Q" by (rule ends_weaken) (use rs(2) in blast)+
      qed (rule E)
    qed (rule E)
  qed
  show ?thesis
    unfolding append_execution_lineage_proof_def Let_def
  proof (rule ends_andthen [of _ _ "\<lambda>_. lineage_inv L A S"], goal_cases)
    case 1
    show ?case using lineage_inv_same [OF i] E by (intro ends_touch) blast
  next
    case (2 _ d1)
    show ?case
    proof (rule ends_andthen [of _ _ "\<lambda>_ d'. lineage_inv L A S d' \<and> content_of LineageFile d' \<noteq> None"], goal_cases)
      case 1
      show ?case using lineage_inv_same [OF 2] lineage_inv_open [OF 2] E by (intro ends_open) blast+
    next
      case (2 _ d2)
      then have "lineage_inv L A S d2" by blast
      note same = lineage_inv_same [OF this]
      show ?case
      proof (rule ends_andthen [of _ _ "\<lambda>len d'. \<exists>c. len = length c \<and> lineage_inv L A S d' \<and> content_of LineageFile d' = Some c"], goal_cases)
        case 1
        show ?case by (rule ends_len) (use same E in \<open>auto simp: content_of_def\<close>)
      next
        case (2 len d3)
        then obtain c where "len = length c" "lineage_inv L A S d3" "content_of LineageFile d3 = Some c" by blast
        then show ?case by (simp only: after_len)
      qed
    qed
  qed
qed

lemma acknowledged:
  assumes i: "lineage_inv L A S d" and dur: "durable LineageFile (records L rs) d" and "A' \<subseteq> set rs" and "set rs \<subseteq> S"
  shows "lineage_inv L A' S d"
proof -
  have "lineage_form L A' S (Some (records L rs))" unfolding lineage_form_Some using assms(3,4)
    by (intro exI [of _ rs] exI [of _ "[]"]) (simp add: EXECUTION_LINEAGE_RECORD_LEN_def)
  then show ?thesis using i dur by (simp add: lineage_inv_def keeps_def durable_def)
qed

section \<open>Histories of the log\<close>

text \<open>
  The log through a node's life: it is missing at first, then appends are attempted with any system
  calls failing, and crashes happen between them. The first set collects the pairs whose append
  returned, the second the attempted pairs.
\<close>

inductive lineage_history ::
  "ext_lib \<Rightarrow> (view_number \<times> b256) set \<Rightarrow> (view_number \<times> b256) set \<Rightarrow> disk \<Rightarrow> bool" for L where
  no_log: "dk_files d LineageFile = settled None \<Longrightarrow> lineage_history L {} {} d"
| log_appended: "lineage_history L A S d \<Longrightarrow>
     append_execution_lineage_proof L v h (d\<lparr> dk_script := sc \<rparr>) = (d', Ok ()) \<Longrightarrow>
     lineage_history L (insert (v, h) A) (insert (v, h) S) d'"
| log_failed: "lineage_history L A S d \<Longrightarrow>
     append_execution_lineage_proof L v h (d\<lparr> dk_script := sc \<rparr>) = (d', Err e) \<Longrightarrow>
     lineage_history L A (insert (v, h) S) d'"
| log_crash: "lineage_history L A S d \<Longrightarrow> crash d d' \<Longrightarrow> lineage_history L A S d'"

lemma append_inv:
  assumes "lineage_inv L A S d" and "append_execution_lineage_proof L v h (d\<lparr> dk_script := sc \<rparr>) = (d', r)"
  shows "r = Err e \<Longrightarrow> lineage_inv L A (insert (v, h) S) d'"
    and "r = Ok () \<Longrightarrow> lineage_inv L (insert (v, h) A) (insert (v, h) S) d' \<and>
      (\<exists>rs. durable LineageFile (records L (rs @ [(v, h)])) d')"
proof -
  have i: "lineage_inv L A S (d\<lparr> dk_script := sc \<rparr>)" by (rule lineage_inv_same [OF assms(1)]) simp
  show "r = Err e \<Longrightarrow> lineage_inv L A (insert (v, h) S) d'" using endsD(2) [OF append_safe [OF i]] assms(2) by simp
  show "lineage_inv L (insert (v, h) A) (insert (v, h) S) d' \<and> (\<exists>rs. durable LineageFile (records L (rs @ [(v, h)])) d')"
    if ok: "r = Ok ()"
  proof -
    obtain rs where rs: "A \<subseteq> set rs \<and> set rs \<subseteq> S" "durable LineageFile (records L (rs @ [(v, h)])) d'"
      and "lineage_inv L A (insert (v, h) S) d'"
      using endsD(1) [OF append_safe [OF i]] assms(2) ok by blast
    then show ?thesis using acknowledged [OF _ rs(2), of A "insert (v, h) S" "insert (v, h) A"] by auto
  qed
qed

lemma lineage_history_inv: "lineage_history L A S d \<Longrightarrow> lineage_inv L A S d"
proof (induction rule: lineage_history.induct)
  case (no_log d)
  then show ?case by (simp add: lineage_inv_def keeps_def lineage_form_def content_of_def)
next
  case (log_appended A S d v h sc d')
  then show ?case using append_inv(2) by blast
next
  case (log_failed A S d v h sc d' e)
  then show ?case using append_inv(1) by blast
next
  case (log_crash A S d d')
  then show ?case using lineage_inv_crash by blast
qed

lemma recover_exact:
  assumes "lineage_form L A S (content_of LineageFile d)"
  shows "\<exists>rs. snd (recover_execution_lineage_proof L head (d\<lparr> dk_script := [] \<rparr>)) = Ok (newest head rs) \<and>
    A \<subseteq> set rs \<and> set rs \<subseteq> S \<and>
    (\<forall>rs'. content_of LineageFile d = Some (records L rs') \<longrightarrow> newest head rs = newest head rs')"
proof (cases "content_of LineageFile d")
  case None
  then show ?thesis using assms by (intro exI [of _ "[]"])
    (simp add: recover_execution_lineage_proof_def if_missing_def fs_read_def call_def content_of_def newest_def lineage_form_def)
next
  case (Some c)
  have r: "snd (recover_execution_lineage_proof L head (d\<lparr> dk_script := [] \<rparr>)) =
      scan_lineage L head (take (length c - length c mod EXECUTION_LINEAGE_RECORD_LEN) c) None"
    using Some by (simp add: recover_execution_lineage_proof_def if_missing_def fs_read_def call_def content_of_def Let_def)
  obtain rs where rs: "take (length c - length c mod EXECUTION_LINEAGE_RECORD_LEN) c = records L rs"
    "A \<subseteq> set rs \<and> set rs \<subseteq> S"
    using lineage_form_cut assms Some by metis
  have ok: "snd (recover_execution_lineage_proof L head (d\<lparr> dk_script := [] \<rparr>)) = Ok (newest head rs)"
    unfolding r rs(1) scan_records by (simp add: newest_def)
  have "newest head rs = newest head rs'" if "c = records L rs'" for rs'
  proof -
    have "scan_lineage L head (records L rs) None = scan_lineage L head (records L rs') None"
      using that rs(1) by simp
    then show ?thesis by (simp add: scan_records newest_def)
  qed
  with ok rs(2) Some show ?thesis by (intro exI [of _ rs]) auto
qed

text \<open>
  C37. The execution lineage survives crashes. After any sequence of appends with failing system
  calls, torn writes and crashes, recovery succeeds, returns only a pair that was appended for the
  canonical head, and returns one whenever any append for that head ever returned. Right after an
  append that returned, and a crash, it returns the pair of that append.
\<close>

theorem lineage_survives:
  assumes "lineage_history L A S d"
  shows "(\<exists>found. snd (recover_execution_lineage_proof L head (d\<lparr> dk_script := [] \<rparr>)) = Ok found \<and>
      (\<forall>v h. found = Some (v, h) \<longrightarrow> h = head \<and> (v, h) \<in> S) \<and> (\<forall>v. (v, head) \<in> A \<longrightarrow> found \<noteq> None)) \<and>
    (\<forall>v sc d1 d2. append_execution_lineage_proof L v head (d\<lparr> dk_script := sc \<rparr>) = (d1, Ok ()) \<longrightarrow> crash d1 d2 \<longrightarrow>
      snd (recover_execution_lineage_proof L head (d2\<lparr> dk_script := [] \<rparr>)) = Ok (Some (v, head)))"
proof (intro conjI allI impI)
  have inv: "lineage_inv L A S d" using assms by (rule lineage_history_inv)
  then have "lineage_form L A S (content_of LineageFile d)" by (auto simp: lineage_inv_def dest: keeps_content)
  then obtain rs where "snd (recover_execution_lineage_proof L head (d\<lparr> dk_script := [] \<rparr>)) = Ok (newest head rs)"
    and "A \<subseteq> set rs" "set rs \<subseteq> S" using recover_exact by blast
  then show "\<exists>found. snd (recover_execution_lineage_proof L head (d\<lparr> dk_script := [] \<rparr>)) = Ok found \<and>
      (\<forall>v h. found = Some (v, h) \<longrightarrow> h = head \<and> (v, h) \<in> S) \<and> (\<forall>v. (v, head) \<in> A \<longrightarrow> found \<noteq> None)"
    using newest_mem [of head rs] newest_found [of _ head rs] by blast
  fix v sc d1 d2
  assume a: "append_execution_lineage_proof L v head (d\<lparr> dk_script := sc \<rparr>) = (d1, Ok ())" and c: "crash d1 d2"
  from append_inv(2) [OF inv a] obtain rs where i1: "lineage_inv L (insert (v, head) A) (insert (v, head) S) d1"
    and dur: "durable LineageFile (records L (rs @ [(v, head)])) d1" by blast
  obtain x where "dk_files d2 LineageFile = settled x" "x \<in> survivors (dk_files d1 LineageFile)"
    using c unfolding crash_def by blast
  then have c2: "content_of LineageFile d2 = Some (records L (rs @ [(v, head)]))"
    using dur by (simp add: durable_def content_of_def del: records_simps)
  have "lineage_form L (insert (v, head) A) (insert (v, head) S) (content_of LineageFile d2)"
    using lineage_inv_crash [OF i1 c] by (auto simp: lineage_inv_def dest: keeps_content)
  from recover_exact [OF this, of head] c2
  show "snd (recover_execution_lineage_proof L head (d2\<lparr> dk_script := [] \<rparr>)) = Ok (Some (v, head))"
    by (auto simp: newest_snoc simp del: records_simps)
qed

definition empty_disk :: disk where
  "empty_disk = \<lparr> dk_files = (\<lambda>_. settled None), dk_script = [] \<rparr>"

lemma crash_settled:
  assumes "\<And>n. fs_file_ok (dk_files d n)"
  shows "crash d (d\<lparr> dk_files := (\<lambda>n. settled (f_content (dk_files d n))) \<rparr>)"
proof -
  have "f_content (dk_files d n) \<in> survivors (dk_files d n)" for n
    using assms [of n] by (auto simp: fs_file_ok_def survivors_def split: option.splits)
  then show ?thesis by (auto simp: crash_def)
qed

theorem lineage_survives_witness:
  "\<exists>d1 d2. append_execution_lineage_proof (toy_lib (\<lambda>_. True)) 7 99 empty_disk = (d1, Ok ()) \<and> crash d1 d2 \<and>
     snd (recover_execution_lineage_proof (toy_lib (\<lambda>_. True)) 99 (d2\<lparr> dk_script := [] \<rparr>)) = Ok (Some (7, 99))"
proof -
  let ?L = "toy_lib (\<lambda>_. True)"
  have start: "lineage_history ?L {} {} empty_disk" by (rule no_log) (simp add: empty_disk_def)
  have same: "empty_disk\<lparr> dk_script := [] \<rparr> = empty_disk" by (simp add: empty_disk_def)
  note defs = append_execution_lineage_proof_def empty_disk_def fs_touch_def fs_open_def fs_len_def call_def
    on_file_def content_of_def file_open_def settled_def sync_parent_directory_def fs_append_def fs_write_def fs_sync_def Let_def
  obtain d1 r where a: "append_execution_lineage_proof ?L 7 99 empty_disk = (d1, r)" by fastforce
  moreover have "snd (append_execution_lineage_proof ?L 7 99 empty_disk) = Ok ()" by (simp add: defs)
  ultimately have r: "append_execution_lineage_proof ?L 7 99 (empty_disk\<lparr> dk_script := [] \<rparr>) = (d1, Ok ())"
    by (simp add: same)
  have "fs_file_ok (dk_files (fst (append_execution_lineage_proof ?L 7 99 empty_disk)) n)" for n
    by (simp add: defs fs_file_ok_def file_sync_def split: option.split)
  then obtain d2 where c: "crash d1 d2" using crash_settled [of d1] a by auto
  then have "snd (recover_execution_lineage_proof ?L 99 (d2\<lparr> dk_script := [] \<rparr>)) = Ok (Some (7, 99))"
    using conjunct2 [OF lineage_survives [OF start, of 99]] r by blast
  then show ?thesis using r c unfolding same by blast
qed

end
