(* ===== verification/N42_LogOrder.thy ===== *)
theory N42_LogOrder
  imports N42_VoteSafety
begin

text \<open>
  The order of durable writes. The vote log overwrites its two watermarks in place and the lock file
  is replaced as a whole, so a recorded value survives only if no later write is lower. This theory
  shows that the engine never attempts such a write: along every run the attempted votes and commit
  votes rise strictly, the attempted locks never fall, and all of them lie between the round state
  the run started with and the one it reached. A write counts as attempted whether it succeeded
  or not.
\<close>

section \<open>Attempted writes\<close>

fun attempt :: "effect \<Rightarrow> log_entry option" where
  "attempt (Logged e) = Some e"
| "attempt (LogFailed e) = Some e"
| "attempt _ = None"

definition attempts :: "effect list \<Rightarrow> log_entry list" where
  "attempts seg = List.map_filter attempt seg"

lemma attempts_simps [simp]:
  "attempts [] = []" "attempts (xs @ ys) = attempts xs @ attempts ys"
  "attempts (Logged e # xs) = e # attempts xs" "attempts (LogFailed e # xs) = e # attempts xs"
  "attempts (Signed m # xs) = attempts xs" "attempts (Delivered d # xs) = attempts xs"
  "attempts (Accepted p # xs) = attempts xs"
  by (simp_all add: attempts_def map_filter_simps) (simp add: List.map_filter_def)

lemma logged_attempts: "Logged e \<in> set seg \<Longrightarrow> e \<in> set (attempts seg)"
  by (induction seg rule: list.induct) (auto simp: attempts_def map_filter_simps split: option.split)

fun entry_above :: "round_state \<Rightarrow> log_entry \<Rightarrow> bool" where
  "entry_above r (LogVote v) \<longleftrightarrow> last_voted_view r < v"
| "entry_above r (LogCommitVote v) \<longleftrightarrow> last_commit_voted_view r < v"
| "entry_above r (LogLock qc) \<longleftrightarrow> qc_view (locked_qc r) \<le> qc_view qc"

fun entry_below :: "round_state \<Rightarrow> log_entry \<Rightarrow> bool" where
  "entry_below r (LogVote v) \<longleftrightarrow> v \<le> last_voted_view r"
| "entry_below r (LogCommitVote v) \<longleftrightarrow> v \<le> last_commit_voted_view r"
| "entry_below r (LogLock qc) \<longleftrightarrow> qc_view qc \<le> qc_view (locked_qc r)"

fun entry_before :: "log_entry \<Rightarrow> log_entry \<Rightarrow> bool" where
  "entry_before (LogVote v) (LogVote w) \<longleftrightarrow> v < w"
| "entry_before (LogCommitVote v) (LogCommitVote w) \<longleftrightarrow> v < w"
| "entry_before (LogLock qc) (LogLock qc') \<longleftrightarrow> qc_view qc \<le> qc_view qc'"
| "entry_before _ _ \<longleftrightarrow> True"

lemma entry_below_above_before: "entry_below r e \<Longrightarrow> entry_above r e' \<Longrightarrow> entry_before e e'"
  by (cases "(e, e')" rule: entry_before.cases) auto

lemma entry_below_mono: "entry_below r e \<Longrightarrow> round_le r r' \<Longrightarrow> entry_below r' e"
  by (cases e) (auto simp: round_le_def)

lemma entry_above_mono: "entry_above r' e \<Longrightarrow> round_le r r' \<Longrightarrow> entry_above r e"
  by (cases e) (auto simp: round_le_def)

definition rising :: "round_state \<Rightarrow> round_state \<Rightarrow> log_entry list \<Rightarrow> bool" where
  "rising r r' es \<longleftrightarrow> sorted_wrt entry_before es \<and> (\<forall>e \<in> set es. entry_above r e \<and> entry_below r' e)"

lemma rising_simps [simp]:
  "rising r r' []" "rising r r' [e] \<longleftrightarrow> entry_above r e \<and> entry_below r' e"
  by (simp_all add: rising_def)

lemma rising_append:
  assumes "rising r r' xs" and "rising r' r'' ys" and "round_le r r'" and "round_le r' r''"
  shows "rising r r'' (xs @ ys)"
  using assms unfolding rising_def sorted_wrt_append set_append
  by (blast intro: entry_below_above_before entry_below_mono entry_above_mono)

section \<open>The step relation\<close>

definition log_ordered :: "engine \<Rightarrow> engine \<Rightarrow> bool" where
  "log_ordered s t \<longleftrightarrow> round_le (round_state s) (round_state t) \<and>
     (\<exists>seg. trace t = trace s @ seg \<and> rising (round_state s) (round_state t) (attempts seg))"

lemma log_orderedI:
  "round_le (round_state s) (round_state t) \<Longrightarrow> trace t = trace s @ seg \<Longrightarrow>
     rising (round_state s) (round_state t) (attempts seg) \<Longrightarrow> log_ordered s t"
  unfolding log_ordered_def by blast

lemma log_ordered_trans: "log_ordered s t \<Longrightarrow> log_ordered t u \<Longrightarrow> log_ordered s u"
proof -
  assume st: "log_ordered s t" and tu: "log_ordered t u"
  from st obtain x where x: "round_le (round_state s) (round_state t)" "trace t = trace s @ x"
    "rising (round_state s) (round_state t) (attempts x)" unfolding log_ordered_def by blast
  from tu obtain y where y: "round_le (round_state t) (round_state u)" "trace u = trace t @ y"
    "rising (round_state t) (round_state u) (attempts y)" unfolding log_ordered_def by blast
  show "log_ordered s u"
    by (rule log_orderedI [where seg = "x @ y"])
      (use x y in \<open>auto intro: round_le_trans rising_append\<close>)
qed

lemma log_ordered_quiet:
  "round_le (round_state s) (round_state t) \<Longrightarrow> trace t = trace s @ seg \<Longrightarrow> attempts seg = [] \<Longrightarrow>
     log_ordered s t"
  by (rule log_orderedI, assumption+) simp

lemma log_ordered_same_trace:
  "round_le (round_state s) (round_state t) \<Longrightarrow> trace t = trace s \<Longrightarrow> log_ordered s t"
  by (rule log_ordered_quiet [where seg = "[]"]) simp_all

lemma log_ordered_refl: "log_ordered s s"
  by (rule log_ordered_same_trace) simp_all

lemma log_ordered_emit: "log_ordered s (fst (emit out s))"
proof -
  obtain rs tr where e: "fst (emit out s) = s\<lparr> out_script := rs, trace := trace s @ tr \<rparr>"
    and tr: "tr = [] \<or> tr = [Delivered out]" by (rule emit_cases)
  show ?thesis by (rule log_ordered_quiet [where seg = tr]) (use tr in \<open>auto simp: e\<close>)
qed

lemma log_ordered_sign: "log_ordered s (fst (sign_with L m s))"
  by (rule log_ordered_quiet [where seg = "[Signed m]"]) (simp_all add: sign_with_def)

lemma log_ordered_note: "log_ordered s (note_accepted p s)"
  by (rule log_ordered_quiet [where seg = "[Accepted p]"]) (simp_all add: note_accepted_def)

lemma log_ordered_clock: "log_ordered s (stamp f s)" "log_ordered s (reset_pacemaker s)"
  by (rule log_ordered_same_trace; simp add: stamp_def reset_pacemaker_def Let_def framed_tick)+

lemma log_ordered_round: "(\<And>r. round_le r (f r)) \<Longrightarrow> log_ordered s (upd_round f s)"
  by (rule log_ordered_same_trace) (simp_all add: upd_round_def)

lemma log_ordered_round_steps:
  "log_ordered s (upd_round enter_pre_commit s)" "log_ordered s (upd_round enter_voting s)"
  "log_ordered s (upd_round (update_locked_qc qc) s)" "log_ordered s (upd_round (round_commit qc) s)"
  "log_ordered s (upd_round reset_consecutive_timeouts s)" "log_ordered s (upd_round round_timeout s)"
  by (rule log_ordered_round, rule round_le_intros)+

text \<open>The three kinds of write: in the code each follows the update of the round state it records.\<close>

lemma log_ordered_write:
  assumes "round_le (round_state s) (round_state t)" and "trace t = trace s"
    and "entry_above (round_state s) e" and "entry_below (round_state t) e"
  shows "log_ordered s (fst (vote_log_write e t))"
proof -
  obtain rs tr where w: "fst (vote_log_write e t) = t\<lparr> log_script := rs, trace := trace t @ tr \<rparr>"
    and tr: "tr = [LogFailed e] \<or> tr = [Logged e]" using vote_log_write_cases by blast
  show ?thesis by (rule log_orderedI [where seg = tr]) (use tr assms in \<open>auto simp: w\<close>)
qed

lemma log_ordered_vote:
  "may_vote_in v (round_state s) \<Longrightarrow>
     log_ordered s (fst (vote_log_write (LogVote v) (upd_round (round_record_vote v) s)))"
  using round_le_record_vote [of v "round_state s"] by (intro log_ordered_write)
    (simp_all add: upd_round_def round_record_vote_def may_vote_in_def)

lemma log_ordered_noted_vote:
  "may_vote_in v (round_state s) \<Longrightarrow>
     log_ordered s (fst (vote_log_write (LogVote v) (upd_round (round_record_vote v) (note_accepted p s))))"
  by (rule log_ordered_trans [OF log_ordered_note log_ordered_vote]) (simp add: note_accepted_def)

lemma log_ordered_commit_vote:
  "may_commit_vote_in v (round_state s) \<Longrightarrow>
     log_ordered s (fst (vote_log_write (LogCommitVote v) (upd_round (round_record_commit_vote v) s)))"
  using round_le_record_commit_vote [of v "round_state s"] by (intro log_ordered_write)
    (simp_all add: upd_round_def round_record_commit_vote_def may_commit_vote_in_def)

lemma log_ordered_lock: "log_ordered s (fst (vote_log_write (LogLock (locked_qc (round_state s))) s))"
  by (rule log_ordered_write) simp_all

lemma log_ordered_fields:
  "log_ordered s (s\<lparr> timeout_collector := a \<rparr>)" "log_ordered s (s\<lparr> future_timeout_collectors := b \<rparr>)"
  "log_ordered s (s\<lparr> prepare_qc := c \<rparr>)" "log_ordered s (s\<lparr> previous_prepare_qc := c \<rparr>)"
  "log_ordered s (s\<lparr> equivocation_tracker := d \<rparr>)" "log_ordered s (s\<lparr> commit_equivocation_tracker := d \<rparr>)"
  "log_ordered s (s\<lparr> proposal_equivocation_tracker := e \<rparr>)" "log_ordered s (s\<lparr> pending_tx_roots := f \<rparr>)"
  "log_ordered s (s\<lparr> pending_changes_hashes := f \<rparr>)" "log_ordered s (s\<lparr> pending_proposal := g \<rparr>)"
  "log_ordered s (s\<lparr> future_msg_buffer := h \<rparr>)" "log_ordered s (upd_epochs i s)"
  "log_ordered s (fst (on_epochs j s))" "log_ordered s (forget_imports s)"
  "log_ordered s (cross_boundary s)" "log_ordered s (s\<lparr> epoch_manager := k \<rparr>)"
  "log_ordered s (s\<lparr> vote_collector := vc \<rparr>)" "log_ordered s (s\<lparr> commit_collector := vc \<rparr>)"
  by (rule log_ordered_same_trace;
      simp add: upd_epochs_def on_epochs_def forget_imports_def cross_boundary_def Let_def
        split: prod.split option.split)+

lemmas log_ordered_then = log_ordered_sign [THEN log_ordered_trans [rotated]]
  log_ordered_emit [THEN log_ordered_trans [rotated]] log_ordered_note [THEN log_ordered_trans [rotated]]
  log_ordered_clock [THEN log_ordered_trans [rotated]] log_ordered_fields [THEN log_ordered_trans [rotated]]
  log_ordered_round_steps [THEN log_ordered_trans [rotated]] log_ordered_lock [THEN log_ordered_trans [rotated]]

lemma log_ordered_trying:
  "log_ordered s t \<Longrightarrow> (\<And>a. log_ordered s (fst (k a))) \<Longrightarrow> log_ordered s (fst (trying r t k))"
  by (cases r) auto

lemma log_ordered_andthen:
  "log_ordered s (fst p) \<Longrightarrow> (\<And>a t. log_ordered s t \<Longrightarrow> log_ordered s (fst (k a t))) \<Longrightarrow>
     log_ordered s (fst (andthen p k))"
  by (cases p; cases "snd p") auto

lemma log_ordered_pair: "log_ordered s t \<Longrightarrow> log_ordered s (fst (t, r))"
  by simp

lemmas log_ordered_intros = log_ordered_andthen log_ordered_trying log_ordered_pair log_ordered_then
  log_ordered_refl

section \<open>The handlers\<close>

lemma log_ordered_send_vote: "log_ordered s (fst (send_vote L v b s))"
  unfolding send_vote_def Let_def
  by (auto simp: case_prod_beta Let_def intro!: log_ordered_intros log_ordered_vote)

lemma log_ordered_commit_block:
  assumes "may_commit_vote_in v (round_state s)" and "\<And>u. log_ordered s u \<Longrightarrow> log_ordered s (fst (k u))"
  shows "log_ordered s (fst (andthen (vote_log_write (LogLock (locked_qc (round_state s))) s) (\<lambda>_ s.
    andthen (vote_log_write (LogCommitVote v) (upd_round (round_record_commit_vote v) s)) (\<lambda>_ s. k s))))"
proof (rule andthen_from [where P = "log_ordered s"])
  show "log_ordered s (fst (vote_log_write (LogLock (locked_qc (round_state s))) s))"
    by (rule log_ordered_lock)
  fix a :: unit and t
  assume t: "vote_log_write (LogLock (locked_qc (round_state s))) s = (t, Ok a)"
  have "log_ordered s t" using log_ordered_lock [of s] by (simp add: t)
  moreover have "may_commit_vote_in v (round_state t)" using assms(1) log_frame [OF t, of round_state] by simp
  ultimately show "log_ordered s (fst (andthen (vote_log_write (LogCommitVote v)
      (upd_round (round_record_commit_vote v) t)) (\<lambda>_ s. k s)))"
    by (intro log_ordered_andthen assms(2)) (rule log_ordered_trans [OF _ log_ordered_commit_vote])
qed

lemma log_ordered_leader_commit: "log_ordered s (fst (leader_commit_vote L v b s))"
  unfolding leader_commit_vote_def Let_def
  by (auto simp: case_prod_beta Let_def split: option.split
      intro!: log_ordered_commit_block log_ordered_trying log_ordered_pair log_ordered_then log_ordered_refl)

lemma log_ordered_prepare: "log_ordered s (fst (process_prepare_qc L pqc s))"
proof -
  let ?v = "view_of s"
  let ?s = "upd_round enter_pre_commit (upd_round (update_locked_qc (pqc_qc pqc)) s)"
  have s: "log_ordered s ?s" by (intro log_ordered_then log_ordered_refl)
  have block: "log_ordered s (fst (andthen (vote_log_write (LogLock (locked_qc (round_state ?s))) ?s) (\<lambda>_ s.
      andthen (vote_log_write (LogCommitVote ?v) (upd_round (round_record_commit_vote ?v) s)) (\<lambda>_ s.
        let changes_hash = cached_changes_hash (pqc_block_hash pqc) s;
            commit_msg = commit_message (signing_profile s) ?v (pqc_block_hash pqc) changes_hash;
            (s, commit_sig) = sign_with L commit_msg s
        in trying (leader_index_for_view ?v s) s (\<lambda>leader.
          let cv = \<lparr> cv_view = ?v, cv_block_hash = pqc_block_hash pqc,
                     cv_voter = my_index s, cv_signature = commit_sig \<rparr>;
              s = stamp (\<lambda>t vt. vt\<lparr> commit_vote_sent := Some t \<rparr>) s
          in emit (SendToValidator leader (MCommitVote cv)) s)))))"
    if "may_commit_vote_in ?v (round_state ?s)"
    by (rule log_ordered_trans [OF s], rule log_ordered_commit_block [OF that])
      (auto simp: Let_def case_prod_beta intro!: log_ordered_trying log_ordered_then)
  show ?thesis
    unfolding process_prepare_qc_def Let_def
    using s block by (auto simp: Let_def intro!: log_ordered_trying log_ordered_refl)
qed

lemma log_ordered_form_prepare: "log_ordered s (fst (form_prepare_qc L s))"
  unfolding form_prepare_qc_def Let_def
  by (auto split: option.split
      intro!: log_ordered_intros log_ordered_leader_commit [THEN log_ordered_trans [rotated]])

lemma log_ordered_accept: "log_ordered s (fst (accept_proposal L p s))"
  unfolding accept_proposal_def Let_def
  by (auto split: option.split intro!: log_ordered_intros log_ordered_send_vote [THEN log_ordered_trans [rotated]])

lemma log_ordered_absorb: "log_ordered s (absorb_piggybacked_qc L qco s)"
  unfolding absorb_piggybacked_qc_def
  by (auto split: option.split outcome.split intro!: log_ordered_intros)

lemma log_ordered_tracked: "log_ordered s (fst (process_tracked_proposal L p s))"
  unfolding process_tracked_proposal_def Let_def
  by (auto intro!: log_ordered_intros log_ordered_accept [THEN log_ordered_trans [rotated]]
      log_ordered_absorb [THEN log_ordered_trans [rotated]])

lemma log_ordered_proposal: "log_ordered s (fst (process_proposal L p s))"
  unfolding process_proposal_def Let_def
  by (auto split: option.split intro!: log_ordered_intros log_ordered_tracked [THEN log_ordered_trans [rotated]])

lemma log_ordered_recover: "log_ordered s (fst (recover_late_committed_proposal L p s))"
  unfolding recover_late_committed_proposal_def Let_def
  by (auto split: option.split outcome.split intro!: log_ordered_intros)

lemma log_ordered_propose: "log_ordered s (fst (propose_block L b tx s))"
  unfolding propose_block_def Let_def
  by (auto simp: case_prod_beta Let_def split: option.split
      intro!: log_ordered_intros log_ordered_noted_vote [THEN log_ordered_trans [rotated]])

lemma log_ordered_import: "log_ordered s (fst (on_block_imported L b p s))"
proof -
  have r: "log_ordered s (record_import b p s)"
    by (rule log_ordered_same_trace) (simp_all add: record_import_frame)
  show ?thesis unfolding on_block_imported_def Let_def using r
    by (auto split: option.split intro: log_ordered_trans [OF _ log_ordered_send_vote])
qed

lemma log_ordered_sign_timeout: "log_ordered s (fst (sign_timeout L s))"
  using log_ordered_sign [of s L] by (simp add: sign_timeout_def Let_def case_prod_beta)

lemma log_ordered_enter: "log_ordered s (enter_view v s)"
  by (rule log_ordered_same_trace)
    (auto simp: enter_view_def Let_def framed_tick sync_local_validator_index_def forget_imports_def
      reset_pacemaker_def upd_round_def round_le_advance split: option.split)

interpretation log_order: engine_event_relation L log_ordered for L
proof unfold_locales
  fix s t u :: engine
  show "log_ordered s s" by (rule log_ordered_refl)
  show "log_ordered s t \<Longrightarrow> log_ordered t u \<Longrightarrow> log_ordered s u" by (rule log_ordered_trans)
  show "log_ordered s (fst (emit out s))" for out by (rule log_ordered_emit)
  show "log_ordered s (stamp f s)" for f by (rule log_ordered_clock)
  show "log_ordered s (reset_pacemaker s)" by (rule log_ordered_clock)
  show "log_ordered s (fst (form_prepare_qc L s))" by (rule log_ordered_form_prepare)
  show "log_ordered s (fst (process_prepare_qc L pqc s))" for pqc by (rule log_ordered_prepare)
  show "log_ordered s (fst (process_proposal L p s))" for p by (rule log_ordered_proposal)
  show "log_ordered s (fst (sign_timeout L s))" by (rule log_ordered_sign_timeout)
  show "log_ordered s (fst (sign_with L (new_view_msg_bytes (signing_profile s) v) s))" for v
    by (rule log_ordered_sign)
  show "log_ordered s (enter_view v s)" for v by (rule log_ordered_enter)
  show "log_ordered s (fst (recover_late_committed_proposal L p s))" for p by (rule log_ordered_recover)
  show "log_ordered s (fst (propose_block L b tx s))" for b tx by (rule log_ordered_propose)
  show "log_ordered s (fst (on_block_imported L b parent s))" for b parent by (rule log_ordered_import)
  show "log_ordered s (buffer_push w m s)" for w m
    unfolding buffer_push_def by (rule log_ordered_fields)
  show "log_ordered s (buffer_message w m s)" for w m
    unfolding buffer_message_def buffer_push_def Let_def by (auto intro: log_ordered_intros)
qed (rule log_ordered_round_steps log_ordered_fields)+

lemma engine_step_log_ordered: "engine_step L s t \<Longrightarrow> log_ordered s t"
proof (induction rule: engine_step.induct)
  case (step_event ev s t r)
  then show ?case using log_order.rel_process_event [of s L ev] by simp
next
  case (step_timeout s t r)
  then show ?case using log_order.rel_timeout_event [of s L] by simp
next
  case (step_authenticated a s t r)
  then show ?case using log_order.rel_authenticated [of s L a] by simp
next
  case (step_add info s t r)
  then show ?case using log_ordered_fields(13) [of s "propose_add_validator info"] by simp
next
  case (step_remove addr s t r)
  then show ?case using log_ordered_fields(13) [of s "propose_remove_validator addr"] by simp
next
  case (step_sync_index s)
  show ?case by (rule log_ordered_same_trace)
    (simp_all add: sync_local_validator_index_def Let_def split: option.split)
qed (rule log_ordered_same_trace; simp)+

lemma run_log_ordered: "run L s t \<Longrightarrow> log_ordered s t"
proof (induction rule: rtranclp_induct)
  case base
  show ?case by (rule log_ordered_refl)
next
  case (step t u)
  then show ?case using engine_step_log_ordered log_ordered_trans by blast
qed

end
