(* ===== verification/N42_Recovery.thy ===== *)
theory N42_Recovery
  imports N42_Lineage N42_LogOrder N42_Agreement
begin

text \<open>
  A node on its disk. The start-up of \<^verbatim>\<open>bin/n42-node/src/main.rs\<close> rebuilds the engine from the
  snapshot, the vote log and the lock file; while the engine runs, its records go to these files, and
  \<^verbatim>\<open>orchestrator/state_mgmt.rs\<close> replaces the snapshot now and then. System calls fail and the machine
  crashes at any moment. The lemmas show that what the start-up reads back covers every vote the
  engine ever recorded, so that the lifetimes of a node are lifetimes in the sense of
  \<^verbatim>\<open>N42_Agreement\<close>.
\<close>

section \<open>Starting a node\<close>

record node_config =
  nc_index :: u32
  nc_secret_key :: secret_key
  nc_initial_set :: validator_set
  nc_epoch_length :: u64
  nc_max_historical :: nat
  nc_schedule :: "epoch_schedule option"
  nc_base_timeout_ms :: u64
  nc_max_timeout_ms :: u64
  nc_profile :: signing_profile

datatype start_error =
    StartIo io_error
  | StartConsensus consensus_error
  | UnsafeFreshStart view_number view_number

fun start_io :: "'a io_result \<Rightarrow> disk \<times> (start_error, 'a) outcome" where
  "start_io (d, Ok a) = (d, Ok a)"
| "start_io (d, Err e) = (d, Err (StartIo e))"
| "start_io (d, Panic) = (d, Panic)"

fun start_consensus :: "'a consensus_result \<Rightarrow> (start_error, 'a) outcome" where
  "start_consensus (Ok a) = Ok a"
| "start_consensus (Err e) = Err (StartConsensus e)"
| "start_consensus Panic = Panic"

definition restart_entry_view :: "view_number \<Rightarrow> view_number \<Rightarrow> view_number \<Rightarrow> view_number" where
  "restart_entry_view snapshot_view last_voted last_commit_voted = snapshot_view"

record durable_state =
  ds_snapshot :: "consensus_snapshot option"
  ds_voted :: view_number
  ds_commit_voted :: view_number
  ds_lock :: "quorum_certificate option"

definition read_durable_state :: "ext_lib \<Rightarrow> codec \<Rightarrow> disk \<Rightarrow> disk \<times> (start_error, durable_state) outcome" where
  "read_durable_state L C d =
     andthen (start_io (load_consensus_state C d)) (\<lambda>snapshot d.
       andthen (start_io (file_vote_log_open d)) (\<lambda>_ d.
         andthen (start_io (load_last_vote_views d)) (\<lambda>(voted, commit_voted) d.
           andthen (start_io (load_durable_lock L C d)) (\<lambda>durable_lock d.
             (d, Ok \<lparr> ds_snapshot = snapshot, ds_voted = voted, ds_commit_voted = commit_voted,
                      ds_lock = durable_lock \<rparr>)))))"

text \<open>
  The epoch manager is built from the same arguments at start-up and again with the engine; the
  model builds it once. The signing profile is switched on when the service is assembled.
\<close>

definition assemble_engine ::
  "ext_lib \<Rightarrow> node_config \<Rightarrow> environment \<Rightarrow> durable_state \<Rightarrow> (start_error, engine) outcome" where
  "assemble_engine L cfg env ds =
     bind_outcome (start_consensus (build_epoch_manager L (nc_initial_set cfg)
         (validator_infos (nc_initial_set cfg)) (nc_epoch_length cfg) (nc_max_historical cfg)
         (nc_schedule cfg) (map_option sn_current_view (ds_snapshot ds))
         (Option.bind (ds_snapshot ds) sn_current_epoch_validators))) (\<lambda>em.
       case ds_snapshot ds of
         Some sn \<Rightarrow>
           let em = restore_staged_transition L (sn_scheduled_epoch_transition sn)
                      (sn_current_epoch_validators sn) em;
               lvv = max (sn_last_voted_view sn) (ds_voted ds);
               lcvv = max (sn_last_commit_voted_view sn) (ds_commit_voted ds);
               recovered_view = restart_entry_view (sn_current_view sn) lvv lcvv;
               s = with_recovered_state_and_vote_log L (nc_index cfg) (nc_secret_key cfg) em
                     (nc_base_timeout_ms cfg) (nc_max_timeout_ms cfg) env recovered_view
                     (higher_lock (sn_locked_qc sn) (ds_lock ds)) (sn_last_committed_qc sn)
                     (sn_consecutive_timeouts sn) lvv lcvv
           in Ok (s\<lparr> signing_profile := nc_profile cfg \<rparr>)
       | None \<Rightarrow>
           if ds_voted ds \<noteq> 0 \<or> ds_commit_voted ds \<noteq> 0
           then Err (UnsafeFreshStart (ds_voted ds) (ds_commit_voted ds))
           else bind_outcome (start_consensus (with_epoch_manager_and_vote_log L (nc_index cfg)
                  (nc_secret_key cfg) em (nc_base_timeout_ms cfg) (nc_max_timeout_ms cfg) env))
                  (\<lambda>s. Ok (s\<lparr> signing_profile := nc_profile cfg \<rparr>)))"

definition start_node ::
  "ext_lib \<Rightarrow> codec \<Rightarrow> node_config \<Rightarrow> environment \<Rightarrow> disk \<Rightarrow> disk \<times> (start_error, engine) outcome" where
  "start_node L C cfg env d =
     andthen (read_durable_state L C d) (\<lambda>ds d. (d, assemble_engine L cfg env ds))"

section \<open>A running node\<close>

definition collect_scheduled_epoch :: "engine \<Rightarrow> (u64 \<times> validator_info list \<times> u32) option" where
  "collect_scheduled_epoch s = staged_epoch_info (epoch_manager s)"

definition build_snapshot :: "u64 \<Rightarrow> view_number \<Rightarrow> b256 \<Rightarrow> engine \<Rightarrow> consensus_snapshot" where
  "build_snapshot block_count head_view head_hash s =
     (let em = epoch_manager s;
          current_epoch_validators =
            (if epochs_enabled em
             then Some (current_epoch em, validator_infos (current_set em), fault_tolerance (current_set em))
             else None)
      in \<lparr> sn_version = 5, sn_current_view = current_view (round_state s),
           sn_locked_qc = locked_qc (round_state s),
           sn_last_committed_qc = last_committed_qc (round_state s),
           sn_consecutive_timeouts = consecutive_timeouts (round_state s),
           sn_scheduled_epoch_transition = collect_scheduled_epoch s,
           sn_authorized_verifiers = [], sn_committed_block_count = block_count,
           sn_last_voted_view = last_voted_view (round_state s),
           sn_last_commit_voted_view = last_commit_voted_view (round_state s),
           sn_current_epoch_validators = current_epoch_validators,
           sn_execution_validated_head_view = head_view,
           sn_execution_validated_head_hash = head_hash \<rparr>)"

fun record_entry :: "ext_lib \<Rightarrow> codec \<Rightarrow> log_entry \<Rightarrow> disk \<Rightarrow> disk \<times> unit consensus_result" where
  "record_entry L C (LogVote v) d = record_vote v d"
| "record_entry L C (LogCommitVote v) d = record_commit_vote v d"
| "record_entry L C (LogLock qc) d = record_lock L C qc d"

text \<open>
  The writes of a piece of history, each with its own pattern of failing calls: a record that the
  engine saw succeed succeeds on the disk, one that failed fails there.
\<close>

inductive persisted :: "ext_lib \<Rightarrow> codec \<Rightarrow> disk \<Rightarrow> effect list \<Rightarrow> disk \<Rightarrow> bool" for L C where
  no_write: "persisted L C d [] d"
| other_effect: "attempt e = None \<Longrightarrow> persisted L C d es d' \<Longrightarrow> persisted L C d (e # es) d'"
| write_done: "record_entry L C x (d\<lparr> dk_script := sc \<rparr>) = (d1, Ok ()) \<Longrightarrow> persisted L C d1 es d' \<Longrightarrow>
    persisted L C d (Logged x # es) d'"
| write_failed: "record_entry L C x (d\<lparr> dk_script := sc \<rparr>) = (d1, Err err) \<Longrightarrow> persisted L C d1 es d' \<Longrightarrow>
    persisted L C d (LogFailed x # es) d'"

text \<open>
  The life of a node: the phase it is in, its disk, and the history of its finished lifetimes. A
  crash may come between two events, within an event after any effect, within a write, within a
  save and within the start-up; a write, save or start-up cut short by a crash is one that fails at that
  call. With \<open>current\<close> a restart that would resume below a recorded vote does not happen.
\<close>

datatype node_phase = Down | Up engine

inductive node :: "ext_lib \<Rightarrow> codec \<Rightarrow> node_config \<Rightarrow> bool \<Rightarrow> node_phase \<Rightarrow> disk \<Rightarrow> effect list \<Rightarrow> bool"
  for L C cfg current where
  installed: "\<forall>n. dk_files d n = settled None \<Longrightarrow> node L C cfg current Down d []"
| boot: "node L C cfg current Down d h \<Longrightarrow> start_node L C cfg env (d\<lparr> dk_script := sc \<rparr>) = (d', Ok s) \<Longrightarrow>
    (current \<Longrightarrow> \<forall>v. Logged (LogVote v) \<in> set h \<longrightarrow> v \<le> view_of s) \<Longrightarrow> node L C cfg current (Up s) d' h"
| boot_refused: "node L C cfg current Down d h \<Longrightarrow> start_node L C cfg env (d\<lparr> dk_script := sc \<rparr>) = (d', r) \<Longrightarrow>
    \<forall>s. r \<noteq> Ok s \<Longrightarrow> node L C cfg current Down d' h"
| event: "node L C cfg current (Up s) d h \<Longrightarrow> engine_step L s t \<Longrightarrow> persisted L C d (new_effects s t) d' \<Longrightarrow>
    node L C cfg current (Up t) d' h"
| save: "node L C cfg current (Up s) d h \<Longrightarrow>
    save_consensus_state C (build_snapshot n hv hh s) (d\<lparr> dk_script := sc \<rparr>) = (d', r) \<Longrightarrow>
    node L C cfg current (Up s) d' h"
| stop: "node L C cfg current (Up s) d h \<Longrightarrow> node L C cfg current Down d (h @ trace s)"
| stop_within: "node L C cfg current (Up s) d h \<Longrightarrow> engine_step L s t \<Longrightarrow> new_effects s t = es @ x # lost \<Longrightarrow>
    persisted L C d es d1 \<Longrightarrow>
    (case attempt x of None \<Rightarrow> d' = d1 | Some y \<Rightarrow> \<exists>sc r. record_entry L C y (d1\<lparr> dk_script := sc \<rparr>) = (d', r)) \<Longrightarrow>
    node L C cfg current Down d' (h @ trace s @ es)"
| power_loss: "node L C cfg current Down d h \<Longrightarrow> crash d d' \<Longrightarrow> node L C cfg current Down d' h"

section \<open>What the disk covers\<close>

definition votes :: "effect list \<Rightarrow> view_number set" where
  "votes h = {v. Logged (LogVote v) \<in> set h}"

definition commits :: "effect list \<Rightarrow> view_number set" where
  "commits h = {v. Logged (LogCommitVote v) \<in> set h}"

definition locks :: "effect list \<Rightarrow> view_number set" where
  "locks h = {v. \<exists>qc. Logged (LogLock qc) \<in> set h \<and> v = qc_view qc}"

lemma recorded_sets [simp]:
  "votes [] = {}" "commits [] = {}" "locks [] = {}"
  "votes (a @ b) = votes a \<union> votes b" "commits (a @ b) = commits a \<union> commits b" "locks (a @ b) = locks a \<union> locks b"
  "votes [Logged (LogVote v)] = {v}" "commits [Logged (LogVote v)] = {}" "locks [Logged (LogVote v)] = {}"
  "votes [Logged (LogCommitVote v)] = {}" "commits [Logged (LogCommitVote v)] = {v}" "locks [Logged (LogCommitVote v)] = {}"
  "votes [Logged (LogLock qc)] = {}" "commits [Logged (LogLock qc)] = {}" "locks [Logged (LogLock qc)] = {qc_view qc}"
  "votes [LogFailed x] = {}" "commits [LogFailed x] = {}" "locks [LogFailed x] = {}"
  by (auto simp: votes_def commits_def locks_def)

lemma unrecorded [simp]:
  assumes "attempt e = None"
  shows "votes [e] = {}" and "commits [e] = {}" and "locks [e] = {}"
  using assms by (auto simp: votes_def commits_def locks_def)

text \<open>
  On the disk of a node that is down, and on that of a running node with current history \<open>tr\<close>. The
  snapshot is whole in both.
\<close>

definition snapshot_kept :: "codec \<Rightarrow> disk \<Rightarrow> bool" where
  "snapshot_kept C d \<longleftrightarrow> keeps StateFile (\<lambda>c. loaded C c \<in> range Ok) d"

definition down_kept :: "ext_lib \<Rightarrow> codec \<Rightarrow> disk \<Rightarrow> effect list \<Rightarrow> bool" where
  "down_kept L C d h \<longleftrightarrow> keeps VoteLogFile (log_covers (votes h) (commits h)) d \<and>
     keeps LockFile (lock_covers L C (commits h)) d \<and> snapshot_kept C d"

definition up_kept :: "ext_lib \<Rightarrow> codec \<Rightarrow> effect list \<Rightarrow> effect list \<Rightarrow> disk \<Rightarrow> bool" where
  "up_kept L C h tr d \<longleftrightarrow> log_ready d \<and>
     keeps VoteLogFile (log_covers (votes (h @ tr)) (commits (h @ tr))) d \<and>
     keeps LockFile (lock_covers L C (commits (h @ tr) \<union> locks tr)) d \<and> snapshot_kept C d"

definition covered_by :: "round_state \<Rightarrow> effect list \<Rightarrow> bool" where
  "covered_by r h \<longleftrightarrow> (\<forall>v \<in> votes h. v \<le> last_voted_view r) \<and>
     (\<forall>v \<in> commits h. v \<le> last_commit_voted_view r \<and> v \<le> qc_view (locked_qc r))"

text \<open>The history of a lifetime that started from round state \<open>r\<close> and is about to write.\<close>

definition in_order :: "signing_profile \<Rightarrow> round_state \<Rightarrow> effect list \<Rightarrow> bool" where
  "in_order pr r tr \<longleftrightarrow> sorted_wrt entry_before (attempts tr) \<and> (\<forall>x \<in> set (attempts tr). entry_above r x) \<and> supported pr tr"

lemma in_order_prefix: "in_order pr r (a @ b) \<Longrightarrow> in_order pr r a"
  by (auto simp: in_order_def sorted_wrt_append intro: supported_prefix)

lemma lock_covers_mono: "lock_covers L C Q c \<Longrightarrow> Q' \<subseteq> Q \<Longrightarrow> lock_covers L C Q' c"
  by (auto simp: lock_covers_def split: option.splits)

lemma lock_covers_insert: "lock_covers L C Q c \<Longrightarrow> q \<in> Q \<Longrightarrow> v \<le> q \<Longrightarrow> lock_covers L C (insert v Q) c"
  by (fastforce simp: lock_covers_def split: option.splits)

lemma up_kept_down: "up_kept L C h tr d \<Longrightarrow> down_kept L C d (h @ tr)"
  by (auto simp: up_kept_def down_kept_def elim!: keeps_mono intro: lock_covers_mono)

lemma up_kept_files: "up_kept L C h tr d \<Longrightarrow> dk_files d' = dk_files d \<Longrightarrow> up_kept L C h tr d'"
  by (simp add: up_kept_def log_ready_def content_of_def keeps_def snapshot_kept_def)

lemma recorded_before:
  assumes o: "in_order pr r (tr @ [w])" and w: "attempt w = Some x"
  shows "x = LogVote v \<Longrightarrow> u \<in> votes tr \<Longrightarrow> u \<le> v" and "x = LogCommitVote v \<Longrightarrow> u \<in> commits tr \<Longrightarrow> u \<le> v"
    and "x = LogLock qc \<Longrightarrow> u \<in> locks tr \<Longrightarrow> u \<le> qc_view qc"
    and "x = LogLock qc \<Longrightarrow> u \<in> commits tr \<Longrightarrow> u \<le> qc_view qc" and "entry_above r x"
proof -
  have "attempts [w] = [x]" using w by (simp add: attempts_def map_filter_simps)
  then have before: "entry_before y x" if "y \<in> set (attempts tr)" for y
    using o that by (auto simp: in_order_def sorted_wrt_append)
  show "entry_above r x" using o \<open>attempts [w] = [x]\<close> by (auto simp: in_order_def)
  have log: "entry_before y x" if "Logged y \<in> set tr" for y
    using before logged_attempts [OF that] by blast
  show "x = LogVote v \<Longrightarrow> u \<in> votes tr \<Longrightarrow> u \<le> v" "x = LogCommitVote v \<Longrightarrow> u \<in> commits tr \<Longrightarrow> u \<le> v"
    using log [of "LogVote u"] log [of "LogCommitVote u"] by (auto simp: votes_def commits_def)
  show lk: "u \<le> qc_view qc" if "x = LogLock qc" "u \<in> locks tr" for u
    using that by (force simp: locks_def dest: log)
  show "u \<le> qc_view qc" if x: "x = LogLock qc" and u: "u \<in> commits tr"
  proof -
    obtain a b where ab: "tr = a @ Logged (LogCommitVote u) # b"
      using u by (auto simp: commits_def in_set_conv_decomp)
    have "supported pr tr" using o by (auto simp: in_order_def intro: supported_prefix)
    then have "backed pr (set a) (Logged (LogCommitVote u))" using ab by (auto simp: supported_def)
    then obtain q where "Logged (LogLock q) \<in> set a" "u \<le> qc_view q" by (auto simp: backed_def)
    then show ?thesis using lk [OF x, of "qc_view q"] ab by (fastforce simp: locks_def)
  qed
qed

text \<open>One write: whatever happens the disk covers what it covered, and the new record once it succeeded.\<close>

lemma record_entry_safe:
  assumes C: "qc_codec_ok C" and kept: "up_kept L C h tr d" and cov: "covered_by r h"
    and o: "in_order pr r (tr @ [w])" and w: "attempt w = Some x"
  shows "ends (record_entry L C x d) (up_kept L C h tr)
    (\<lambda>_ d'. up_kept L C h tr d' \<and> (w = Logged x \<longrightarrow> up_kept L C h (tr @ [w]) d'))"
proof -
  note ready = kept [unfolded up_kept_def, THEN conjunct1]
  note log = kept [unfolded up_kept_def, THEN conjunct2, THEN conjunct1]
  note lock = kept [unfolded up_kept_def, THEN conjunct2, THEN conjunct2, THEN conjunct1]
  note snap = kept [unfolded up_kept_def, THEN conjunct2, THEN conjunct2, THEN conjunct2]
  note before = recorded_before [OF o w]
  have lock': "keeps LockFile (lock_covers L C (commits (h @ tr) \<union> locks tr)) d'" and snap': "snapshot_kept C d'"
    if "\<forall>m. m \<noteq> VoteLogFile \<longrightarrow> dk_files d' m = dk_files d m" for d'
    using lock snap that by (auto simp: snapshot_kept_def intro: keeps_files [THEN iffD2])
  show ?thesis
  proof (cases x)
    case (LogVote v)
    have above: "\<forall>u \<in> votes (h @ tr). u \<le> v"
      using before(1) [OF LogVote] before(5) cov by (force simp: LogVote covered_by_def)
    have "ends (record_at 0 v d) (up_kept L C h tr)
      (\<lambda>_ d'. up_kept L C h tr d' \<and> (w = Logged x \<longrightarrow> up_kept L C h (tr @ [w]) d'))"
      by (rule ends_weaken [OF record_at_safe [OF _ ready log]])
        (use above lock' snap' in \<open>auto simp: up_kept_def LogVote\<close>)
    then show ?thesis by (simp add: LogVote record_vote_def)
  next
    case (LogCommitVote v)
    have above: "\<forall>u \<in> commits (h @ tr). u \<le> v"
      using before(2) [OF LogCommitVote] before(5) cov by (force simp: LogCommitVote covered_by_def)
    have own: "keeps LockFile (lock_covers L C (insert v (commits (h @ tr) \<union> locks tr))) d'"
      if "\<forall>m. m \<noteq> VoteLogFile \<longrightarrow> dk_files d' m = dk_files d m" and ok: "w = Logged x" for d'
    proof -
      have "backed pr (set tr) w" using o by (simp add: in_order_def supported_snoc)
      then obtain qc where qc: "Logged (LogLock qc) \<in> set tr" "v \<le> qc_view qc"
        using ok LogCommitVote by (auto simp: backed_def)
      then have "qc_view qc \<in> locks tr" by (auto simp: locks_def)
      with qc(2) show ?thesis using lock' [OF that(1)] by (elim keeps_mono) (auto intro: lock_covers_insert)
    qed
    have "ends (record_at 8 v d) (up_kept L C h tr)
      (\<lambda>_ d'. up_kept L C h tr d' \<and> (w = Logged x \<longrightarrow> up_kept L C h (tr @ [w]) d'))"
      by (rule ends_weaken [OF record_at_safe [OF _ ready log]])
        (use above lock' own snap' in \<open>auto simp: up_kept_def LogCommitVote\<close>)
    then show ?thesis by (simp add: LogCommitVote record_commit_vote_def VOTE_LOG_FIELD_BYTES_def)
  next
    case (LogLock qc)
    have above: "\<forall>u \<in> commits (h @ tr) \<union> locks tr. u \<le> qc_view qc"
      using before(3,4) [OF LogLock] before(5) cov by (force simp: LogLock covered_by_def)
    have same: "log_ready d' \<and> keeps VoteLogFile (log_covers (votes (h @ tr)) (commits (h @ tr))) d' \<and> snapshot_kept C d'"
      if "\<forall>m. m \<noteq> LockTmp \<longrightarrow> m \<noteq> LockFile \<longrightarrow> spared m d d'" for d'
    proof -
      have s: "spared VoteLogFile d d'" "spared StateFile d d'" using that by simp_all
      from spared_facts(1) [OF s(1) log] spared_facts(2,3) [OF s(1)] spared_facts(1) [OF s(2)] ready snap show ?thesis
        by (simp add: log_ready_def snapshot_kept_def)
    qed
    have "ends (record_lock L C qc d) (up_kept L C h tr)
      (\<lambda>_ d'. up_kept L C h tr d' \<and> (w = Logged x \<longrightarrow> up_kept L C h (tr @ [w]) d'))"
      by (rule ends_weaken [OF record_lock_safe [OF C lock above]])
        (use same in \<open>auto simp: up_kept_def LogLock\<close>)
    then show ?thesis by (simp add: LogLock)
  qed
qed

lemma up_kept_other: "attempt w = None \<Longrightarrow> up_kept L C h (tr @ [w]) d = up_kept L C h tr d"
  by (simp add: up_kept_def)

lemma up_kept_failed: "up_kept L C h (tr @ [LogFailed x]) d = up_kept L C h tr d"
  by (simp add: up_kept_def)

lemma persisted_kept:
  assumes "persisted L C d es d'" and C: "qc_codec_ok C" and cov: "covered_by r h"
    and "up_kept L C h tr d" and "in_order pr r (tr @ es)"
  shows "up_kept L C h (tr @ es) d'"
  using assms(1,4,5)
proof (induction arbitrary: tr rule: persisted.induct)
  case (no_write d)
  then show ?case by simp
next
  case (other_effect e d es d')
  then show ?case using other_effect.IH [of "tr @ [e]"] by (simp add: up_kept_other)
next
  case (write_done x sc d d1 es d')
  have "up_kept L C h tr (d\<lparr> dk_script := sc \<rparr>)" by (rule up_kept_files [OF write_done.prems(1)]) simp
  moreover have "in_order pr r (tr @ [Logged x])"
    by (rule in_order_prefix [of _ _ _ es]) (use write_done.prems(2) in simp)
  ultimately have "up_kept L C h (tr @ [Logged x]) d1"
    using endsD(1) [OF record_entry_safe [OF C _ cov, of L tr "d\<lparr> dk_script := sc \<rparr>" pr "Logged x" x] write_done.hyps(1)]
    by simp
  then show ?case using write_done.IH [of "tr @ [Logged x]"] write_done.prems(2) by simp
next
  case (write_failed x sc d d1 err es d')
  have "up_kept L C h tr (d\<lparr> dk_script := sc \<rparr>)" by (rule up_kept_files [OF write_failed.prems(1)]) simp
  moreover have "in_order pr r (tr @ [LogFailed x])"
    by (rule in_order_prefix [of _ _ _ es]) (use write_failed.prems(2) in simp)
  ultimately have "up_kept L C h (tr @ [LogFailed x]) d1"
    using endsD(2) [OF record_entry_safe [OF C _ cov, of L tr "d\<lparr> dk_script := sc \<rparr>" pr "LogFailed x" x] write_failed.hyps(1)]
    by (simp add: up_kept_failed)
  then show ?case using write_failed.IH [of "tr @ [LogFailed x]"] write_failed.prems(2) by simp
qed

section \<open>What a start-up recovers\<close>

lemma ends_start_io [simp]: "ends (start_io p) E Q = ends p E Q"
  by (cases p rule: start_io.cases) simp_all

definition state_covers :: "effect list \<Rightarrow> durable_state \<Rightarrow> bool" where
  "state_covers h ds \<longleftrightarrow> (\<forall>v \<in> votes h. v \<le> ds_voted ds) \<and> (\<forall>v \<in> commits h. v \<le> ds_commit_voted ds \<and>
     (\<exists>qc. ds_lock ds = Some qc \<and> v \<le> qc_view qc))"

lemma down_kept_files: "down_kept L C d h \<Longrightarrow> dk_files d' = dk_files d \<Longrightarrow> down_kept L C d' h"
  by (simp add: down_kept_def keeps_def content_of_def snapshot_kept_def)

lemma read_durable_safe:
  assumes kept: "down_kept L C d h"
  shows "ends (read_durable_state L C d) (\<lambda>d'. down_kept L C d' h)
    (\<lambda>ds d'. down_kept L C d' h \<and> log_ready d' \<and> state_covers h ds)"
proof -
  let ?ready = "\<lambda>d'. down_kept L C d' h \<and> log_ready d'"
  let ?viewed = "\<lambda>(a, b) d'. ?ready d' \<and> (\<forall>v \<in> votes h. v \<le> a) \<and> (\<forall>v \<in> commits h. v \<le> b)"
  have state: "ends (load_consensus_state C d) (\<lambda>d'. down_kept L C d' h) (\<lambda>_ d'. down_kept L C d' h)"
    by (rule ends_weaken [OF load_state_exact]) (use kept down_kept_files in blast)+
  have opened: "ends (file_vote_log_open d1) (\<lambda>d'. down_kept L C d' h) (\<lambda>_. ?ready)" if "down_kept L C d1 h" for d1
    by (rule ends_weaken [OF open_safe [of "votes h" "commits h"]])
      (use that in \<open>auto simp: down_kept_def log_kept_def snapshot_kept_def dest: spared_facts(1)\<close>)
  have views: "ends (load_last_vote_views d2) (\<lambda>d'. down_kept L C d' h) ?viewed" if "?ready d2" for d2
  proof (rule ends_weaken [OF load_views_exact], goal_cases)
    case (1 s)
    then show ?case using that down_kept_files by blast
  next
    case (2 a s)
    have "log_covers (votes h) (commits h) (content_of VoteLogFile d2)"
      using that by (auto simp: down_kept_def dest: keeps_content)
    then show ?case using 2 that down_kept_files [of L C d2 h s]
      by (auto simp: log_covers_def log_ready_def content_of_def)
  qed
  have lock: "ends (load_durable_lock L C d3) (\<lambda>d'. down_kept L C d' h)
    (\<lambda>found d'. ?ready d' \<and> (\<forall>v \<in> commits h. \<exists>qc. found = Some qc \<and> v \<le> qc_view qc))" if "?ready d3" for d3
  proof (rule ends_weaken [OF load_lock_exact], goal_cases)
    case (1 s)
    then show ?case using that down_kept_files by blast
  next
    case (2 a s)
    have "lock_covers L C (commits h) (content_of LockFile d3)"
      using that by (auto simp: down_kept_def dest: keeps_content)
    then show ?case using 2 that down_kept_files [of L C d3 h s]
      by (auto simp: lock_covers_def log_ready_def content_of_def split: option.splits)
  qed
  show ?thesis
    unfolding read_durable_state_def
  proof (rule ends_andthen [of _ _ "\<lambda>_ d'. down_kept L C d' h"], goal_cases)
    case 1
    show ?case using state by simp
  next
    case (2 snapshot d1)
    show ?case
    proof (rule ends_andthen [of _ _ "\<lambda>_. ?ready"], goal_cases)
      case 1
      show ?case using opened [OF 2] by simp
    next
      case (2 u d2)
      show ?case
      proof (rule ends_andthen [of _ _ ?viewed], goal_cases)
        case 1
        show ?case using views [OF 2] by simp
      next
        case (2 ab d3)
        obtain a b where ab: "ab = (a, b)" by fastforce
        with 2 have "?ready d3" by simp
        from lock [OF this] 2 show ?case unfolding ab case_prod_conv
          by (intro ends_andthen [of _ _ "\<lambda>found d'. ?ready d' \<and> (\<forall>v \<in> commits h. \<exists>qc. found = Some qc \<and> v \<le> qc_view qc)"])
            (auto simp: state_covers_def)
      qed
    qed
  qed
qed

definition started :: "ext_lib \<Rightarrow> signing_profile \<Rightarrow> engine \<Rightarrow> bool" where
  "started L pr s \<longleftrightarrow> (\<exists>index sk em base mx env view locked committed timeouts voted commit_voted.
     s = restarted L pr index sk em base mx env view locked committed timeouts voted commit_voted)"

lemma started_facts:
  assumes "started L pr s"
  shows "trace s = []" and "signing_profile s = pr" and "linked s"
  using assms restarted_start by (auto simp: started_def)

lemma started_lifetime:
  assumes "lifetimes L pr current h" and "started L pr s" and "covered_by (round_state s) h"
    and "current \<longrightarrow> (\<forall>v \<in> votes h. v \<le> view_of s)" and "run L s t" and "trace t = seg @ lost"
  shows "lifetimes L pr current (h @ seg)"
proof -
  obtain index sk em base mx env view locked committed timeouts voted commit_voted where
    s: "s = restarted L pr index sk em base mx env view locked committed timeouts voted commit_voted"
    using assms(2) by (auto simp: started_def)
  note st = restarted_start [of L pr index sk em base mx env view locked committed timeouts voted
      commit_voted, folded s]
  show ?thesis
    by (rule next_lifetime [OF assms(1) s _ _ _ _ assms(5,6)])
      (use assms(3,4) in \<open>auto simp: covered_by_def st votes_def commits_def\<close>)
qed

lemma started_in_order:
  assumes "started L pr s" and "run L s t"
  shows "in_order pr (round_state s) (trace t)"
proof -
  note st = started_facts [OF assms(1)]
  have "linked t \<and> signing_profile t = pr"
    using run_lock_ordered [OF assms(2)] st unfolding lock_ordered_def by auto
  then have "supported pr (trace t)" by (auto simp: linked_def)
  moreover have "rising (round_state s) (round_state t) (attempts (trace t))"
    using run_log_ordered [OF assms(2)] st(1) by (auto simp: log_ordered_def)
  ultimately show ?thesis by (auto simp: in_order_def rising_def)
qed

lemma in_order_positive:
  assumes "in_order pr r tr"
  shows "0 \<notin> votes tr" and "0 \<notin> commits tr"
proof -
  have "entry_above r x" if "Logged x \<in> set tr" for x
    using assms logged_attempts [OF that] by (auto simp: in_order_def)
  from this [of "LogVote 0"] this [of "LogCommitVote 0"] show "0 \<notin> votes tr" "0 \<notin> commits tr"
    by (auto simp: votes_def commits_def)
qed

lemma assemble_covers:
  assumes ok: "assemble_engine L cfg env ds = Ok s" and cov: "state_covers h ds"
    and pos: "0 \<notin> votes h" "0 \<notin> commits h"
  shows "started L (nc_profile cfg) s" and "covered_by (round_state s) h"
proof -
  have "started L (nc_profile cfg) s \<and> covered_by (round_state s) h"
  proof (cases "ds_snapshot ds")
    case (Some sn)
    then obtain em where s: "s = restarted L (nc_profile cfg) (nc_index cfg) (nc_secret_key cfg) em
        (nc_base_timeout_ms cfg) (nc_max_timeout_ms cfg) env (sn_current_view sn)
        (higher_lock (sn_locked_qc sn) (ds_lock ds)) (sn_last_committed_qc sn) (sn_consecutive_timeouts sn)
        (max (sn_last_voted_view sn) (ds_voted ds)) (max (sn_last_commit_voted_view sn) (ds_commit_voted ds))"
      using ok by (auto simp: assemble_engine_def Let_def restarted_def restart_entry_view_def elim!: bind_outcome_OkE)
    have "covered_by (round_state s) h"
      using cov higher_lock_ge(2) [of "ds_lock ds" _ "sn_locked_qc sn"]
      by (fastforce simp: covered_by_def state_covers_def s restarted_start le_max_iff_disj)
    then show ?thesis using s unfolding started_def by blast
  next
    case None
    obtain em s' where zero: "ds_voted ds = 0" "ds_commit_voted ds = 0" and s': "s = s'\<lparr> signing_profile := nc_profile cfg \<rparr>"
        "start_consensus (with_epoch_manager_and_vote_log L (nc_index cfg)
                  (nc_secret_key cfg) em (nc_base_timeout_ms cfg) (nc_max_timeout_ms cfg) env) = Ok s'"
      using ok None by (auto simp: assemble_engine_def elim!: bind_outcome_OkE split: if_splits)
    from zero cov pos have "votes h = {}" "commits h = {}" by (auto simp: state_covers_def)
    then have "covered_by (round_state s) h" by (simp add: covered_by_def)
    moreover from s'(2) obtain g where "s' = with_recovered_state_and_vote_log L (nc_index cfg) (nc_secret_key cfg) em
        (nc_base_timeout_ms cfg) (nc_max_timeout_ms cfg) env 1 g g 0 0 0"
      by (cases "with_epoch_manager_and_vote_log L (nc_index cfg) (nc_secret_key cfg) em
            (nc_base_timeout_ms cfg) (nc_max_timeout_ms cfg) env")
        (auto simp: with_epoch_manager_and_vote_log_def round_new_def with_recovered_state_and_vote_log_def
          round_from_snapshot_def elim!: bind_outcome_OkE)
    then have "started L (nc_profile cfg) s" unfolding started_def restarted_def s'(1) by blast
    ultimately show ?thesis by simp
  qed
  then show "started L (nc_profile cfg) s" "covered_by (round_state s) h" by simp_all
qed

section \<open>The invariant of a node\<close>

fun node_inv :: "ext_lib \<Rightarrow> codec \<Rightarrow> signing_profile \<Rightarrow> bool \<Rightarrow> node_phase \<Rightarrow> disk \<Rightarrow> effect list \<Rightarrow> bool" where
  "node_inv L C pr current Down d h \<longleftrightarrow> down_kept L C d h \<and> lifetimes L pr current h \<and> 0 \<notin> votes h \<and> 0 \<notin> commits h"
| "node_inv L C pr current (Up s) d h \<longleftrightarrow> up_kept L C h (trace s) d \<and> lifetimes L pr current h \<and> 0 \<notin> votes h \<and> 0 \<notin> commits h \<and>
     (\<exists>s0. started L pr s0 \<and> covered_by (round_state s0) h \<and> (current \<longrightarrow> (\<forall>v \<in> votes h. v \<le> view_of s0)) \<and> run L s0 s)"

lemma down_kept_crash: "down_kept L C d h \<Longrightarrow> crash d d' \<Longrightarrow> down_kept L C d' h"
  using keeps_crash by (auto simp: down_kept_def snapshot_kept_def)

lemma start_node_inv:
  assumes "node_inv L C (nc_profile cfg) current Down d h" and "start_node L C cfg env (d\<lparr> dk_script := sc \<rparr>) = (d', r)"
  shows "node_inv L C (nc_profile cfg) current Down d' h"
    and "r = Ok s \<Longrightarrow> (current \<Longrightarrow> \<forall>v. Logged (LogVote v) \<in> set h \<longrightarrow> v \<le> view_of s) \<Longrightarrow>
      node_inv L C (nc_profile cfg) current (Up s) d' h"
proof -
  have k: "down_kept L C (d\<lparr> dk_script := sc \<rparr>) h" by (rule down_kept_files [of _ _ d]) (use assms(1) in simp_all)
  obtain d1 x where x: "read_durable_state L C (d\<lparr> dk_script := sc \<rparr>) = (d1, x)" by fastforce
  note e = endsD [OF read_durable_safe [OF k], unfolded x]
  have d: "d' = d1" using assms(2) x by (cases x) (auto simp: start_node_def)
  have "down_kept L C d1 h" using e by (cases x) auto
  then show "node_inv L C (nc_profile cfg) current Down d' h" using assms(1) by (simp add: d)
  assume r: "r = Ok s" and cur: "current \<Longrightarrow> \<forall>v. Logged (LogVote v) \<in> set h \<longrightarrow> v \<le> view_of s"
  then obtain ds where ds: "x = Ok ds" "assemble_engine L cfg env ds = Ok s"
    using assms(2) x by (cases x) (auto simp: start_node_def)
  have ready: "down_kept L C d1 h \<and> log_ready d1 \<and> state_covers h ds" using e(1) ds(1) by blast
  note a = assemble_covers [OF ds(2), of h]
  have "started L (nc_profile cfg) s" "covered_by (round_state s) h" using a ready assms(1) by simp_all
  moreover from this(1) have "trace s = []" by (rule started_facts)
  ultimately show "node_inv L C (nc_profile cfg) current (Up s) d' h"
    using ready assms(1) cur by (auto simp: d up_kept_def down_kept_def votes_def)
qed

lemma stopped_inv:
  assumes "node_inv L C pr current (Up s) d h" and "run L s t" and "trace t = trace s @ es @ lost"
    and "up_kept L C h (trace s @ es) d'"
  shows "node_inv L C pr current Down d' (h @ trace s @ es)"
proof -
  obtain s0 where s0: "started L pr s0" "covered_by (round_state s0) h"
    "current \<longrightarrow> (\<forall>v \<in> votes h. v \<le> view_of s0)" "run L s0 s" using assms(1) by auto
  have r: "run L s0 t" using s0(4) assms(2) by (rule rtranclp_trans)
  have "lifetimes L pr current (h @ trace s @ es)"
    by (rule started_lifetime [OF _ s0(1-3) r]) (use assms(1,3) in auto)
  moreover have "in_order pr (round_state s0) (trace s @ es)"
    using started_in_order [OF s0(1) r] assms(3) in_order_prefix [of pr _ "trace s @ es" lost] by simp
  note in_order_positive [OF this]
  ultimately show ?thesis using up_kept_down [OF assms(4)] assms(1) by simp
qed

lemma event_kept:
  assumes "qc_codec_ok C" and "node_inv L C pr current (Up s) d h" and "engine_step L s t"
    and "new_effects s t = es @ lost" and "persisted L C d es d'"
  shows "up_kept L C h (trace s @ es) d'" and "trace t = trace s @ es @ lost"
    and "\<exists>r. covered_by r h \<and> in_order pr r (trace s @ es @ lost)"
proof -
  obtain s0 where s0: "started L pr s0" "covered_by (round_state s0) h" "run L s0 s" using assms(2) by auto
  have "run L s t" using assms(3) by (rule r_into_rtranclp)
  from run_effects(1) [OF this] show tr: "trace t = trace s @ es @ lost" by (simp add: assms(4))
  have o: "in_order pr (round_state s0) (trace s @ es @ lost)"
    using started_in_order [OF s0(1) rtranclp_trans [OF s0(3) \<open>run L s t\<close>]] by (simp add: tr)
  then show "\<exists>r. covered_by r h \<and> in_order pr r (trace s @ es @ lost)" using s0(2) by blast
  show "up_kept L C h (trace s @ es) d'"
    by (rule persisted_kept [OF assms(5,1) s0(2)])
      (use assms(2) o in_order_prefix [of pr _ "trace s @ es" lost] in auto)
qed

lemma save_kept:
  assumes C: "json_codec_ok C" and kept: "up_kept L C h tr d"
    and "save_consensus_state C (build_snapshot n hv hh s) d = (d', r)"
  shows "up_kept L C h tr d'"
proof -
  have v: "sn_version (build_snapshot n hv hh s) = SNAPSHOT_VERSION"
    by (simp add: build_snapshot_def Let_def SNAPSHOT_VERSION_def)
  have k: "keeps StateFile (\<lambda>c. loaded C c \<in> range Ok) d" using kept by (simp add: up_kept_def snapshot_kept_def)
  have "keeps StateFile (\<lambda>c. loaded C c \<in> insert (Ok (Some (build_snapshot n hv hh s))) (range Ok)) d' \<and>
      (\<forall>m. m \<noteq> StateTmp \<longrightarrow> m \<noteq> StateFile \<longrightarrow> spared m d d')"
    using save_safe [OF C v k] assms(3) by (cases r) (auto dest: endsD)
  moreover from this have s: "spared VoteLogFile d d'" "spared LockFile d d'" by simp_all
  note spared_facts(1) [OF s(1)] spared_facts(1) [OF s(2)] spared_facts(2,3) [OF s(1)]
  ultimately show ?thesis using kept
    by (auto simp: up_kept_def snapshot_kept_def log_ready_def elim: keeps_mono)
qed

lemma node_keeps_inv:
  assumes "node L C cfg current ph d h" and C: "qc_codec_ok C" "json_codec_ok C"
  shows "node_inv L C (nc_profile cfg) current ph d h"
  using assms(1)
proof (induction rule: node.induct)
  case (installed d)
  then show ?case
    by (simp add: never_started down_kept_def snapshot_kept_def keeps_def log_covers_def lock_covers_def loaded_def)
next
  case (boot d h env sc d' s)
  from start_node_inv(2) [OF boot.IH boot.hyps(2) refl boot.hyps(3)] show ?case .
next
  case (boot_refused d h env sc d' r)
  from start_node_inv(1) [OF boot_refused.IH boot_refused.hyps(2)] show ?case .
next
  case (event s d h t d')
  from event_kept [OF C(1) event.IH event.hyps(2) _ event.hyps(3), of "[]"]
  have "up_kept L C h (trace t) d'" by simp
  moreover have "run L s t" using event.hyps(2) by (rule r_into_rtranclp)
  ultimately show ?case using event.IH by (auto intro: rtranclp_trans)
next
  case (save s d h n hv hh sc d' r)
  have "up_kept L C h (trace s) (d\<lparr> dk_script := sc \<rparr>)" by (rule up_kept_files [of _ _ _ _ d]) (use save.IH in simp_all)
  from save_kept [OF C(2) this save.hyps(2)] show ?case using save.IH by simp
next
  case (stop s d h)
  then show ?case using stopped_inv [OF stop.IH, of s "[]" "[]" d] by simp
next
  case (stop_within s d h t es x lost d1 d')
  note ev = event_kept [OF C(1) stop_within.IH stop_within.hyps(2,3,4)]
  have "run L s t" using stop_within.hyps(2) by (rule r_into_rtranclp)
  moreover have "up_kept L C h (trace s @ es) d'"
  proof (cases "attempt x")
    case None
    then show ?thesis using ev(1) stop_within.hyps(5) by simp
  next
    case (Some y)
    then obtain sc r where r: "record_entry L C y (d1\<lparr> dk_script := sc \<rparr>) = (d', r)" using stop_within.hyps(5) by auto
    obtain ro where ro: "covered_by ro h" "in_order (nc_profile cfg) ro ((trace s @ es) @ [x])"
      using ev(3) in_order_prefix [of "nc_profile cfg" _ "(trace s @ es) @ [x]" lost] by auto
    have "up_kept L C h (trace s @ es) (d1\<lparr> dk_script := sc \<rparr>)" by (rule up_kept_files [OF ev(1)]) simp
    from record_entry_safe [OF C(1) this ro Some] show ?thesis using r by (cases r) (auto dest: endsD)
  qed
  ultimately show ?case using stopped_inv [OF stop_within.IH _ ev(2)] by blast
next
  case (power_loss d h d')
  then show ?case using down_kept_crash by auto
qed

definition full_history :: "node_phase \<Rightarrow> effect list \<Rightarrow> effect list" where
  "full_history ph h = (case ph of Down \<Rightarrow> h | Up s \<Rightarrow> h @ trace s)"

lemma node_lifetimes:
  assumes "node L C cfg current ph d h" and "qc_codec_ok C" and "json_codec_ok C"
  shows "lifetimes L (nc_profile cfg) current (full_history ph h)"
proof (cases ph)
  case Down
  then show ?thesis using node_keeps_inv [OF assms] by (simp add: full_history_def)
next
  case (Up s)
  then have "node L C cfg current Down d (h @ trace s)" using assms(1) by (auto intro: stop)
  then have "node_inv L C (nc_profile cfg) current Down d (h @ trace s)" using assms(2,3) by (rule node_keeps_inv)
  then show ?thesis using Up by (simp add: full_history_def)
qed

section \<open>Reading the files back\<close>

text \<open>With calls that succeed, the files of a node that is down can always be read.\<close>

lemma load_state_works: "dk_script d = [] \<Longrightarrow> load_consensus_state C d = (d, loaded C (content_of StateFile d))"
  by (simp add: load_consensus_state_def if_missing_def fs_read_def call_def loaded_def split: option.split outcome.split)

lemma open_works:
  assumes "dk_script d = []" and "vote_views (content_of VoteLogFile d) \<noteq> None"
  shows "\<exists>d'. file_vote_log_open d = (d', Ok ()) \<and> dk_script d' = []"
  using assms
  by (auto simp: file_vote_log_open_def call_def fs_touch_def fs_open_def fs_len_def on_file_def content_of_def
      file_open_def fs_read_exact_def fs_write_def fs_sync_def write_synced_def sync_parent_directory_def
      VOTE_LOG_FIELD_BYTES_def VOTE_LOG_BYTES_def Let_def split: option.split if_splits)

lemma load_views_works:
  assumes "dk_script d = []" and "log_ready d"
  shows "\<exists>ab. load_last_vote_views d = (d, Ok ab)"
  using assms
  by (auto simp: load_last_vote_views_def log_ready_def if_missing_def call_def fs_open_existing_def fs_len_def
      fs_read_exact_def content_of_def VOTE_LOG_FIELD_BYTES_def VOTE_LOG_BYTES_def Let_def)

lemma load_lock_works:
  assumes "dk_script d = []" and "lock_covers L C Q (content_of LockFile d)"
  shows "\<exists>found. load_durable_lock L C d = (d, Ok found)"
  using assms
  by (auto simp: load_durable_lock_def lock_covers_def if_missing_def fs_read_def call_def split: option.splits)

lemma read_durable_works:
  assumes kept: "down_kept L C d h" and works: "dk_script d = []"
  shows "\<exists>d' ds. read_durable_state L C d = (d', Ok ds) \<and> state_covers h ds"
proof -
  obtain f where f: "load_consensus_state C d = (d, Ok f)"
    using keeps_content [of StateFile _ d] kept load_state_works [OF works]
    by (fastforce simp: down_kept_def snapshot_kept_def)
  have log: "keeps VoteLogFile (log_covers (votes h) (commits h)) d" using kept by (simp add: down_kept_def)
  from keeps_content [OF this] have "vote_views (content_of VoteLogFile d) \<noteq> None" by (auto simp: log_covers_def)
  then obtain d1 where d1: "file_vote_log_open d = (d1, Ok ())" "dk_script d1 = []"
    using open_works works by blast
  have ready: "log_ready d1" and "spared LockFile d d1"
    using endsD(1) [OF open_safe [OF log] d1(1)] by (simp_all add: log_kept_def)
  then have "lock_covers L C (commits h) (content_of LockFile d1)"
    using keeps_content [of LockFile _ d] kept spared_facts(2) by (auto simp: down_kept_def)
  then obtain found ab where "load_durable_lock L C d1 = (d1, Ok found)" "load_last_vote_views d1 = (d1, Ok ab)"
    using load_lock_works load_views_works d1(2) ready by blast
  then obtain ds where "read_durable_state L C d = (d1, Ok ds)"
    using f d1(1) by (cases ab) (simp add: read_durable_state_def)
  then show ?thesis using endsD(1) [OF read_durable_safe [OF kept]] by blast
qed

end
