(* ===== verification/N42_Node.thy ===== *)
theory N42_Node
  imports N42_Instance N42_Recovery
begin

text \<open>
  The guarantees of nodes with their disks, and a concrete node. It is installed, starts fresh, saves
  a snapshot, votes in view one, stops, starts again from its files and commit-votes; the
  statements about all nodes are evaluated on it.
\<close>

section \<open>Files on a working disk\<close>

lemma script_same [simp]: "dk_script d = [] \<Longrightarrow> d\<lparr> dk_script := [] \<rparr> = d"
  by (cases d) simp

lemma record_at_works:
  assumes "dk_script d = []" and "content_of VoteLogFile d = Some c"
  shows "\<exists>d'. record_at off v d = (d', Ok ()) \<and> dk_script d' = [] \<and>
    (\<forall>n. content_of n d' = (if n = VoteLogFile then Some (overlay c off (le_bytes 8 v)) else content_of n d))"
  using assms
  by (simp add: record_at_def fs_touch_def fs_write_def fs_sync_def call_def on_file_def file_write_def
      file_sync_def content_of_def)

lemma replace_file_works:
  assumes "dk_script d = []" and "tmp \<noteq> n"
  shows "\<exists>d'. replace_file tmp n bs d = (d', Ok ()) \<and> dk_script d' = [] \<and>
    (\<forall>m. m \<noteq> tmp \<longrightarrow> content_of m d' = (if m = n then Some bs else content_of m d))"
  using assms
  by (simp add: replace_file_def fs_create_def fs_write_def fs_sync_def fs_rename_def sync_parent_directory_def call_def
      on_file_def file_write_def file_sync_def file_open_def file_truncate_def overlay_def content_of_def Let_def
      split: option.split)

lemma open_content:
  assumes "dk_script d = []" and "c = (case content_of VoteLogFile d of None \<Rightarrow> replicate 16 0 | Some c \<Rightarrow> c)" and "length c = 16"
  shows "\<exists>d'. file_vote_log_open d = (d', Ok ()) \<and> dk_script d' = [] \<and>
    (\<forall>n. content_of n d' = (if n = VoteLogFile then Some c else content_of n d))"
  using assms
  by (cases "content_of VoteLogFile d")
    (simp_all add: file_vote_log_open_def call_def fs_touch_def fs_open_def fs_len_def on_file_def content_of_def
      file_open_def fs_write_def file_write_def fs_sync_def file_sync_def write_synced_def sync_parent_directory_def
      overlay_def VOTE_LOG_FIELD_BYTES_def VOTE_LOG_BYTES_def)

lemma read_content:
  assumes "dk_script d = []" and "c = (case content_of VoteLogFile d of None \<Rightarrow> replicate 16 0 | Some c \<Rightarrow> c)" and "length c = 16"
    and "loaded C (content_of StateFile d) = Ok sn" and "content_of LockFile d = None"
  shows "\<exists>d'. read_durable_state L C d = (d', Ok \<lparr> ds_snapshot = sn, ds_voted = from_le_bytes (take 8 c),
      ds_commit_voted = from_le_bytes (drop 8 c), ds_lock = None \<rparr>) \<and> dk_script d' = [] \<and>
    (\<forall>n. content_of n d' = (if n = VoteLogFile then Some c else content_of n d))"
proof -
  obtain d1 where d1: "file_vote_log_open d = (d1, Ok ())" "dk_script d1 = []"
    "\<forall>n. content_of n d1 = (if n = VoteLogFile then Some c else content_of n d)"
    using open_content assms(1-3) by blast
  have "load_last_vote_views d1 = (d1, Ok (from_le_bytes (take 8 c), from_le_bytes (drop 8 c)))"
    using d1(2,3) assms(3) by (simp add: load_last_vote_views_def if_missing_def call_def fs_open_existing_def
        fs_len_def fs_read_exact_def VOTE_LOG_FIELD_BYTES_def VOTE_LOG_BYTES_def Let_def)
  moreover have "load_durable_lock L C d1 = (d1, Ok None)"
    using d1(2,3) assms(5) by (simp add: load_durable_lock_def if_missing_def fs_read_def call_def)
  ultimately show ?thesis using load_state_works [OF assms(1)] assms(4) d1
    by (simp add: read_durable_state_def)
qed

section \<open>A node of one validator\<close>

definition node_messages :: "bytes \<Rightarrow> bool" where
  "node_messages m \<longleftrightarrow> m \<in> {vote_message Native 1 77, commit_message Native 1 77 0}"

definition solo_node :: node_config where
  "solo_node = \<lparr> nc_index = 0, nc_secret_key = [9], nc_initial_set = solo_set, nc_epoch_length = 0,
     nc_max_historical = 0, nc_schedule = None, nc_base_timeout_ms = 1000, nc_max_timeout_ms = 8000,
     nc_profile = Native \<rparr>"

definition toy_snapshot :: consensus_snapshot where
  "toy_snapshot = build_snapshot 0 0 0 (solo (toy_lib node_messages) 1 toy_genesis 0 0)"

text \<open>A serializer for one certificate and one snapshot.\<close>

definition toy_codec :: codec where
  "toy_codec = \<lparr> enc_qc = (\<lambda>qc. if qc = toy_qc 1 77 then Some [1] else None), dec_qc = (\<lambda>_. Some (toy_qc 1 77)),
     to_json = (\<lambda>sn. if sn = toy_snapshot then Some [2] else None), json_probe = (\<lambda>_. Some (Some 5, True)),
     from_json = (\<lambda>_. Some toy_snapshot), parse_peer_id = (\<lambda>_. None) \<rparr>"

lemma toy_snapshot_fields:
  "sn_version toy_snapshot = 5" "sn_current_view toy_snapshot = 1" "sn_locked_qc toy_snapshot = toy_genesis"
  "sn_last_committed_qc toy_snapshot = toy_genesis" "sn_consecutive_timeouts toy_snapshot = 0"
  "sn_scheduled_epoch_transition toy_snapshot = None" "sn_last_voted_view toy_snapshot = 0"
  "sn_last_commit_voted_view toy_snapshot = 0" "sn_current_epoch_validators toy_snapshot = None"
  by (simp_all add: toy_snapshot_def build_snapshot_def Let_def solo_facts collect_scheduled_epoch_def epoch_new_def
      staged_epoch_info_def epochs_enabled_def)
    (simp add: solo_def restarted_def with_recovered_state_and_vote_log_def engine_from_def Let_def framed_tick
      round_from_snapshot_def)

lemma toy_codec_ok: "qc_codec_ok toy_codec" "json_codec_ok toy_codec"
  by (simp_all add: qc_codec_ok_def json_codec_ok_def toy_codec_def toy_snapshot_fields)

lemma toy_snapshot_valid: "snapshot_validate toy_codec toy_snapshot"
  by (simp add: snapshot_validate_def toy_snapshot_fields toy_genesis_def Let_def)

lemma toy_genesis_qc: "genesis_qc (toy_lib P) = Ok toy_genesis"
  by (simp add: genesis_qc_def key_gen_def toy_genesis_def bls_sign_def)

lemma fresh_boot:
  assumes "\<forall>n. content_of n d = None" and "dk_script d = []"
  shows "\<exists>d'. start_node (toy_lib P) C solo_node toy_env d = (d', Ok (solo (toy_lib P) 1 toy_genesis 0 0)) \<and>
    dk_script d' = [] \<and> (\<forall>n. content_of n d' = (if n = VoteLogFile then Some (replicate 16 0) else None))"
proof -
  obtain d' where d': "read_durable_state (toy_lib P) C d = (d', Ok \<lparr> ds_snapshot = None, ds_voted = 0,
      ds_commit_voted = 0, ds_lock = None \<rparr>)" "dk_script d' = []"
    "\<forall>n. content_of n d' = (if n = VoteLogFile then Some (replicate 16 0) else content_of n d)"
    using read_content [OF assms(2), of "replicate 16 0" C None "toy_lib P"] assms(1)
    by (auto simp: loaded_def)
  have "assemble_engine (toy_lib P) solo_node toy_env \<lparr> ds_snapshot = None, ds_voted = 0, ds_commit_voted = 0, ds_lock = None \<rparr>
      = Ok (solo (toy_lib P) 1 toy_genesis 0 0)"
    by (simp add: assemble_engine_def solo_node_def build_epoch_manager_def with_epoch_manager_and_vote_log_def
        round_new_def toy_genesis_qc solo_def restarted_def with_recovered_state_and_vote_log_def round_from_snapshot_def)
  with d' assms(1) show ?thesis by (simp add: start_node_def)
qed

lemma snapshot_boot:
  assumes "dk_script d = []" and "content_of VoteLogFile d = Some c" and "length c = 16"
    and "content_of StateFile d = Some [2]" and "content_of LockFile d = None"
  shows "\<exists>d'. start_node (toy_lib P) toy_codec solo_node toy_env d = (d', Ok (solo (toy_lib P) 1 toy_genesis
      (from_le_bytes (take 8 c)) (from_le_bytes (drop 8 c)))) \<and>
    dk_script d' = [] \<and> (\<forall>n. content_of n d' = content_of n d)"
proof -
  have "loaded toy_codec (content_of StateFile d) = Ok (Some toy_snapshot)"
    using toy_snapshot_valid by (simp add: assms(4) loaded_def parse_snapshot_def toy_snapshot_fields)
      (simp add: toy_codec_def toy_snapshot_fields)
  from read_content [OF assms(1) _ assms(3) this assms(5), of "toy_lib P"] assms(2)
  obtain d' where d': "read_durable_state (toy_lib P) toy_codec d = (d', Ok \<lparr> ds_snapshot = Some toy_snapshot,
      ds_voted = from_le_bytes (take 8 c), ds_commit_voted = from_le_bytes (drop 8 c), ds_lock = None \<rparr>)" "dk_script d' = []"
    "\<forall>n. content_of n d' = content_of n d"
    by auto
  have "assemble_engine (toy_lib P) solo_node toy_env \<lparr> ds_snapshot = Some toy_snapshot,
      ds_voted = from_le_bytes (take 8 c), ds_commit_voted = from_le_bytes (drop 8 c), ds_lock = None \<rparr>
      = Ok (solo (toy_lib P) 1 toy_genesis (from_le_bytes (take 8 c)) (from_le_bytes (drop 8 c)))"
    by (simp add: assemble_engine_def solo_node_def build_epoch_manager_def toy_snapshot_fields higher_lock_def
        restore_staged_transition_def restart_entry_view_def solo_def restarted_def Let_def)
  with d' show ?thesis by (simp add: start_node_def)
qed

lemma snapshot_saved:
  assumes "dk_script d = []"
  shows "\<exists>d'. save_consensus_state toy_codec toy_snapshot d = (d', Ok ()) \<and> dk_script d' = [] \<and>
    (\<forall>n. n \<noteq> StateTmp \<longrightarrow> content_of n d' = (if n = StateFile then Some [2] else content_of n d))"
proof -
  have "to_json toy_codec toy_snapshot = Some [2]" by (simp add: toy_codec_def)
  then show ?thesis using toy_snapshot_valid replace_file_works [OF assms, of StateTmp StateFile "[2]"] assms
    by (simp add: save_consensus_state_def fs_touch_def call_def)
qed

lemma write_works:
  "record_entry L C x d = (d1, Ok ()) \<Longrightarrow> dk_script d = [] \<Longrightarrow> persisted L C d1 es d' \<Longrightarrow> persisted L C d (Logged x # es) d'"
  by (rule write_done [where sc = "[]"]) simp_all

lemma vote_persisted:
  assumes "dk_script d = []" and "content_of VoteLogFile d = Some (replicate 16 0)"
  shows "\<exists>d'. persisted L C d [Accepted p, Delivered x, Logged (LogVote 1), Signed m, Delivered y] d' \<and> dk_script d' = [] \<and>
    (\<forall>n. content_of n d' = (if n = VoteLogFile then Some (1 # replicate 15 0) else content_of n d))"
proof -
  obtain d' where d': "record_at 0 1 d = (d', Ok ())" "dk_script d' = []"
    "\<forall>n. content_of n d' = (if n = VoteLogFile then Some (overlay (replicate 16 0) 0 (le_bytes 8 (1::view_number))) else content_of n d)"
    using record_at_works [OF assms] by blast
  have "overlay (replicate 16 0) 0 (le_bytes 8 (1::view_number)) = 1 # replicate 15 0"
    by (simp add: overlay_def le_bytes_def upt_rec numeral_eq_Suc)
  moreover have w: "persisted L C d [Logged (LogVote 1), Signed m, Delivered y] d'"
    by (rule write_works [of _ _ _ _ d']) (use d'(1) assms(1) in \<open>auto simp: record_vote_def intro!: other_effect no_write\<close>)
  moreover from w have "persisted L C d [Accepted p, Delivered x, Logged (LogVote 1), Signed m, Delivered y] d'"
    by (simp add: other_effect)
  ultimately show ?thesis using d'(2,3) by (intro exI [of _ d']) simp
qed

lemma commit_persisted:
  assumes "dk_script d = []" and "content_of VoteLogFile d = Some c"
  shows "\<exists>d'. persisted L toy_codec d [Logged (LogLock (toy_qc 1 77)), Logged (LogCommitVote 1), Signed m, Delivered y] d'"
proof -
  obtain d1 where d1: "replace_file LockTmp LockFile (lock_file_bytes L [1]) d = (d1, Ok ())" "dk_script d1 = []"
    "content_of VoteLogFile d1 = Some c"
    using replace_file_works [OF assms(1), of LockTmp LockFile] assms(2) by fastforce
  obtain d2 where d2: "record_at 8 1 d1 = (d2, Ok ())" using record_at_works [OF d1(2,3)] by blast
  have "record_lock L toy_codec (toy_qc 1 77) d = (d1, Ok ())"
    using d1(1) assms(1) by (simp add: record_lock_def toy_codec_def fs_touch_def call_def)
  moreover have "persisted L toy_codec d1 [Logged (LogCommitVote 1), Signed m, Delivered y] d2"
    by (rule write_works [of _ _ _ _ d2])
      (use d2 d1(2) in \<open>auto simp: record_commit_vote_def VOTE_LOG_FIELD_BYTES_def intro!: other_effect no_write\<close>)
  ultimately have "persisted L toy_codec d [Logged (LogLock (toy_qc 1 77)), Logged (LogCommitVote 1), Signed m, Delivered y] d2"
    using assms(1) by (intro write_works [of _ _ _ d d1]) simp_all
  then show ?thesis by blast
qed

lemma toy_node:
  "\<exists>s d h. node (toy_lib node_messages) toy_codec solo_node current (Up s) d h \<and>
     (\<forall>m. node_messages m \<longrightarrow> Signed m \<in> set (full_history (Up s) h))"
proof -
  let ?L = "toy_lib node_messages" let ?N = "node ?L toy_codec solo_node current"
  have e: "\<forall>n. content_of n empty_disk = None" "dk_script empty_disk = []" and "?N Down empty_disk []"
    by (simp_all add: empty_disk_def content_of_def installed)
  obtain d1 where d1: "start_node ?L toy_codec solo_node toy_env empty_disk = (d1, Ok (solo ?L 1 toy_genesis 0 0))"
    "dk_script d1 = []" "\<forall>n. content_of n d1 = (if n = VoteLogFile then Some (replicate 16 0) else None)"
    using fresh_boot [OF e] by blast
  have n1: "?N (Up (solo ?L 1 toy_genesis 0 0)) d1 []"
    by (rule boot [OF \<open>?N Down empty_disk []\<close>, where sc = "[]"]) (use d1(1) e(2) in simp_all)
  obtain d2 where d2: "save_consensus_state toy_codec toy_snapshot d1 = (d2, Ok ())" "dk_script d2 = []"
    "\<forall>n. n \<noteq> StateTmp \<longrightarrow> content_of n d2 = (if n = StateFile then Some [2] else content_of n d1)"
    using snapshot_saved [OF d1(2)] by blast
  have n2: "?N (Up (solo ?L 1 toy_genesis 0 0)) d2 []"
    by (rule save [OF n1, where sc = "[]"]) (use d2(1) d1(2) in \<open>simp_all add: toy_snapshot_def\<close>)
  obtain t x where t: "engine_step ?L (solo ?L 1 toy_genesis 0 0) t"
    "trace t = [Accepted (toy_proposal 1 77 toy_genesis), Delivered (ExecuteBlock 77), Logged (LogVote 1),
      Signed (vote_message Native 1 77), Delivered x]"
    using solo_votes_step [of 0 1 toy_genesis toy_genesis node_messages 0 77] by (auto simp: toy_genesis_def)
  obtain d3 where d3: "persisted ?L toy_codec d2 (trace t) d3" "dk_script d3 = []"
    "\<forall>n. content_of n d3 = (if n = VoteLogFile then Some (1 # replicate 15 0) else content_of n d2)"
    using vote_persisted [OF d2(2)] d2(3) d1(3) unfolding t(2) by fastforce
  have "?N (Up t) d3 []"
    by (rule event [OF n2 t(1)]) (use d3(1) in \<open>simp add: new_effects_def solo_facts\<close>)
  from stop [OF this] have n3: "?N Down d3 (trace t)" by simp
  have "from_le_bytes (take 8 (1 # replicate 15 0)) = 1" "from_le_bytes (drop 8 (1 # replicate 15 0)) = 0"
    by (simp_all add: from_le_bytes_def numeral_eq_Suc)
  then obtain d4 where d4: "start_node ?L toy_codec solo_node toy_env d3 = (d4, Ok (solo ?L 1 toy_genesis 1 0))"
    "dk_script d4 = []" "\<forall>n. content_of n d4 = content_of n d3"
    using snapshot_boot [OF d3(2), of "1 # replicate 15 0" node_messages] d3(3) d2(3) d1(3) by auto
  have n4: "?N (Up (solo ?L 1 toy_genesis 1 0)) d4 (trace t)"
    by (rule boot [OF n3, where sc = "[]"]) (use d4(1) d3(2) in \<open>auto simp: t(2) solo_facts\<close>)
  obtain u y where u: "engine_step ?L (solo ?L 1 toy_genesis 1 0) u"
    "trace u = [Logged (LogLock (toy_qc 1 77)), Logged (LogCommitVote 1), Signed (commit_message Native 1 77 0), Delivered y]"
    using solo_commits_step [of 0 1 toy_genesis node_messages 77 1] by (auto simp: toy_genesis_def node_messages_def)
  obtain d5 where d5: "persisted ?L toy_codec d4 (trace u) d5"
    using commit_persisted [OF d4(2), of "1 # replicate 15 0"] d4(3) d3(3) unfolding u(2) by fastforce
  have "?N (Up u) d5 (trace t)"
    by (rule event [OF n4 u(1)]) (use d5 in \<open>simp add: new_effects_def solo_facts\<close>)
  moreover have "\<forall>m. node_messages m \<longrightarrow> Signed m \<in> set (full_history (Up u) (trace t))"
    by (simp add: node_messages_def full_history_def t(2) u(2))
  ultimately show ?thesis by blast
qed

section \<open>The guarantees of a node\<close>

text \<open>
  C2. Agreement of nodes on their disks. Among nodes of which at most the tolerated number are
  faulty, while the others run the code from installation on, with system calls that fail, torn
  writes, power losses at any moment and restarts from whatever the files then hold, two CommitQCs
  of one view that verify against the validator set certify the same block, and in the native
  profile the same validator-set changes.
\<close>

theorem node_commit_agreement:
  assumes "vset_wf vs" and "finite F" and "card F \<le> vset_tolerance vs"
    and "\<forall>i. i \<notin> F \<longrightarrow> nc_profile (cfg i) = pr \<and> node L C (cfg i) False (ph i) (d i) (h i)"
    and "qc_codec_ok C" and "json_codec_ok C"
    and "aggregate_unforgeable L pr vs F (\<lambda>i. full_history (ph i) (h i))"
    and "verify_commit_qc_with_profile L qc vs ch pr = Ok ()"
    and "verify_commit_qc_with_profile L qc' vs ch' pr = Ok ()"
    and "qc_view qc = qc_view qc'"
  shows "qc_block_hash qc = qc_block_hash qc' \<and> (pr = Native \<longrightarrow> ch = ch')"
proof (rule commit_agreement_aux [OF assms(1-3) _ assms(7-10)])
  show "\<forall>i. i \<notin> F \<longrightarrow> lifetimes L pr False (full_history (ph i) (h i))"
    using assms(4) node_lifetimes [OF _ assms(5,6)] by metis
qed

lemma toy_commit_qc: "verify_commit_qc_with_profile (toy_lib node_messages) (toy_qc 1 77) solo_set 0 Native = Ok ()"
  by (simp add: verify_commit_qc_Ok toy_qc_def solo_set_facts card_signer_set verify_aggregate_def node_messages_def)

theorem node_commit_agreement_witness:
  "verify_commit_qc_with_profile (toy_lib node_messages) (toy_qc 1 77) solo_set 0 Native = Ok () \<and>
   verify_commit_qc_with_profile (toy_lib node_messages) ((toy_qc 1 77)\<lparr> qc_aggregate_signature := [1] \<rparr>) solo_set 0 Native
     = Ok () \<and>
   qc_block_hash (toy_qc 1 77) = qc_block_hash ((toy_qc 1 77)\<lparr> qc_aggregate_signature := [1] \<rparr>)"
proof -
  let ?L = "toy_lib node_messages" let ?qc = "(toy_qc 1 77)\<lparr> qc_aggregate_signature := [1] \<rparr>"
  obtain s d h where n: "node ?L toy_codec solo_node False (Up s) d h"
    and "\<forall>m. node_messages m \<longrightarrow> Signed m \<in> set (full_history (Up s) h)"
    using toy_node by blast
  then have u: "aggregate_unforgeable ?L Native solo_set {} (\<lambda>_. full_history (Up s) h)"
    by (intro toy_unforgeable)
  have qc: "verify_commit_qc_with_profile ?L ?qc solo_set 0 Native = Ok ()"
    by (simp add: verify_commit_qc_Ok toy_qc_def solo_set_facts card_signer_set verify_aggregate_def node_messages_def)
  have "qc_block_hash (toy_qc 1 77) = qc_block_hash ?qc \<and> (Native = Native \<longrightarrow> (0::b256) = 0)"
    by (rule node_commit_agreement [where F = "{}" and cfg = "\<lambda>_. solo_node" and ph = "\<lambda>_. Up s" and d = "\<lambda>_. d"
          and h = "\<lambda>_. h" and C = toy_codec, OF _ _ _ _ _ _ u toy_commit_qc qc])
      (simp_all add: solo_set_facts n toy_codec_ok, simp_all add: solo_node_def toy_qc_def)
  then show ?thesis using qc toy_commit_qc by simp
qed

text \<open>
  C34. Restarts refine the abstract lifetimes. The whole history of a node, over all its starts,
  crashes and refused starts, is a sequence of lifetimes in the abstract sense: each starts from vote
  watermarks that cover every vote recorded before and from a lock that covers every commit vote
  recorded before, and runs the engine up to some effect. When no start resumes below a
  recorded vote, this holds with the current-view condition that the lock rule relies on.
\<close>

theorem node_refines_lifetimes:
  assumes "node L C cfg current ph d h" and "qc_codec_ok C" and "json_codec_ok C"
  shows "lifetimes L (nc_profile cfg) current (full_history ph h)"
  using assms by (rule node_lifetimes)

theorem node_refines_lifetimes_witness:
  "\<exists>h. lifetimes (toy_lib node_messages) (nc_profile solo_node) True h \<and> Signed (commit_message Native 1 77 0) \<in> set h"
proof -
  obtain s d h where n: "node (toy_lib node_messages) toy_codec solo_node True (Up s) d h"
    and signed: "\<forall>m. node_messages m \<longrightarrow> Signed m \<in> set (full_history (Up s) h)"
    using toy_node by blast
  have "Signed (commit_message Native 1 77 0) \<in> set (full_history (Up s) h)"
    using signed unfolding node_messages_def by blast
  with node_refines_lifetimes [OF n toy_codec_ok] show ?thesis by blast
qed



text \<open>
  C36. Saving a snapshot is atomic. Whatever call of a save fails and whenever the power is lost
  during or after it, the file that is loaded next is the old snapshot or the new one, never a mixture
  and never an error; once the save has returned it is the new one.
\<close>

theorem snapshot_save_atomic:
  assumes "json_codec_ok C" and "sn_version sn = SNAPSHOT_VERSION"
    and "dk_files d StateFile = settled c" and "loaded C c = Ok old"
    and "save_consensus_state C sn d = (d1, r)" and "crash d1 d2"
  shows "snd (load_consensus_state C (d2\<lparr> dk_script := [] \<rparr>)) \<in> {Ok old, Ok (Some sn)} \<and>
    (r = Ok () \<longrightarrow> snd (load_consensus_state C (d2\<lparr> dk_script := [] \<rparr>)) = Ok (Some sn))"
proof -
  have "keeps StateFile (\<lambda>c. loaded C c \<in> {Ok old}) d" using assms(3,4) by (simp add: keeps_def)
  note safe = save_safe [OF assms(1,2) this]
  have load: "snd (load_consensus_state C (d2\<lparr> dk_script := [] \<rparr>)) = loaded C (content_of StateFile d2)"
    by (simp add: load_state_works) (simp add: content_of_def)
  have kept: "P (content_of StateFile d2)" if "keeps StateFile P d1" for P
    using keeps_content keeps_crash [OF that assms(6)] by blast
  have "keeps StateFile (\<lambda>c. loaded C c \<in> insert (Ok (Some sn)) {Ok old}) d1"
    using safe assms(5) by (cases r) auto
  moreover have "r = Ok () \<Longrightarrow> keeps StateFile (\<lambda>c. loaded C c = Ok (Some sn)) d1"
    using safe assms(5) by simp
  ultimately show ?thesis unfolding load using kept by blast
qed

theorem snapshot_save_atomic_witness:
  "\<exists>d1 d2. save_consensus_state toy_codec toy_snapshot empty_disk = (d1, Ok ()) \<and> crash d1 d2 \<and>
     snd (load_consensus_state toy_codec (d2\<lparr> dk_script := [] \<rparr>)) = Ok (Some toy_snapshot)"
proof -
  have s: "dk_files empty_disk StateFile = settled None" "dk_script empty_disk = []" by (simp_all add: empty_disk_def)
  obtain d1 where d1: "save_consensus_state toy_codec toy_snapshot empty_disk = (d1, Ok ())"
    using snapshot_saved [OF s(2)] by blast
  have "fs_file_ok (dk_files (fst (save_consensus_state toy_codec toy_snapshot empty_disk)) n)" for n
    using toy_snapshot_valid
    by (simp add: save_consensus_state_def toy_codec_def empty_disk_def fs_touch_def replace_file_def fs_create_def
      fs_write_def fs_sync_def fs_rename_def sync_parent_directory_def call_def on_file_def file_write_def file_sync_def
      file_open_def file_truncate_def content_of_def settled_def fs_file_ok_def)
  then obtain d2 where "crash d1 d2" using crash_settled [of d1] d1 by auto
  then show ?thesis
    using snapshot_save_atomic [OF toy_codec_ok(2) _ s(1) _ d1] d1
    by (auto simp: loaded_def toy_snapshot_fields SNAPSHOT_VERSION_def)
qed

end
