(* ===== verification/N42_Trie.thy ===== *)
theory N42_Trie
  imports N42_Bls
begin

text \<open>
  Sparse binary tries over 256-bit keys, the abstract counterpart of the node arena of
  \<^verbatim>\<open>n42-bmt-core/src/lib.rs\<close>: a subtree is empty, one leaf, or a branching of at least two leaves on
  the bit of its depth. The operations follow those of the arena; a well-formed trie is determined by
  the map it stores, so its root hash does not depend on the order of the updates.
\<close>

section \<open>Bits of a key\<close>

text \<open>The bit at a depth, most significant first.\<close>

definition kb :: "b256 \<Rightarrow> nat \<Rightarrow> bool" where
  "kb k d = bit k (255 - d)"

lemma kb_eqI:
  assumes "\<And>d. d < 256 \<Longrightarrow> kb k d = kb k' d"
  shows "k = k'"
proof (rule bit_word_eqI)
  fix n
  assume "n < LENGTH(256)"
  then show "bit k n = bit k' n" using assms [of "255 - n"] by (simp add: kb_def)
qed

definition agree :: "nat \<Rightarrow> b256 \<Rightarrow> b256 \<Rightarrow> bool" where
  "agree d k k' \<longleftrightarrow> (\<forall>i < d. kb k i = kb k' i)"

lemma agree_simps [simp]: "agree d k k" "agree 0 k k'" "agree (Suc d) k k' \<longleftrightarrow> agree d k k' \<and> kb k d = kb k' d"
  by (auto simp: agree_def less_Suc_eq)

lemma agree_sym: "agree d k k' \<longleftrightarrow> agree d k' k"
  by (auto simp: agree_def)

lemma agree_trans: "agree d k k' \<Longrightarrow> agree d k' k'' \<Longrightarrow> agree d k k''"
  by (simp add: agree_def)

lemma agree_all: "agree d k k' \<Longrightarrow> 256 \<le> d \<Longrightarrow> k = k'"
  by (rule kb_eqI) (simp add: agree_def)

section \<open>Tries\<close>

datatype trie = TEmpty | TLeaf b256 b256 | TNode trie trie

fun tkeys :: "trie \<Rightarrow> b256 set" where
  "tkeys TEmpty = {}"
| "tkeys (TLeaf k v) = {k}"
| "tkeys (TNode a b) = tkeys a \<union> tkeys b"

fun tlookup :: "b256 \<Rightarrow> nat \<Rightarrow> trie \<Rightarrow> b256 option" where
  "tlookup k d TEmpty = None"
| "tlookup k d (TLeaf k' v) = (if k' = k then Some v else None)"
| "tlookup k d (TNode a b) = tlookup k (Suc d) (if kb k d then b else a)"

text \<open>Two leaves below the first bit in which their keys differ.\<close>

function tpair :: "b256 \<Rightarrow> b256 \<Rightarrow> b256 \<Rightarrow> b256 \<Rightarrow> nat \<Rightarrow> trie" where
  "tpair k v k' v' d =
     (if 256 \<le> d then TEmpty
      else if kb k d \<and> kb k' d then TNode TEmpty (tpair k v k' v' (Suc d))
      else if \<not> kb k d \<and> \<not> kb k' d then TNode (tpair k v k' v' (Suc d)) TEmpty
      else if kb k d then TNode (TLeaf k' v') (TLeaf k v)
      else TNode (TLeaf k v) (TLeaf k' v'))"
  by pat_completeness auto
termination by (relation "measure (\<lambda>(k, v, k', v', d). 256 - d)") auto

declare tpair.simps [simp del]

fun tinsert :: "b256 \<Rightarrow> b256 \<Rightarrow> nat \<Rightarrow> trie \<Rightarrow> trie" where
  "tinsert k v d TEmpty = TLeaf k v"
| "tinsert k v d (TLeaf k' v') = (if k' = k then TLeaf k v else tpair k v k' v' d)"
| "tinsert k v d (TNode a b) =
     (if kb k d then TNode a (tinsert k v (Suc d) b) else TNode (tinsert k v (Suc d) a) b)"

fun tcollapse :: "trie \<Rightarrow> trie \<Rightarrow> trie" where
  "tcollapse TEmpty TEmpty = TEmpty"
| "tcollapse (TLeaf k v) TEmpty = TLeaf k v"
| "tcollapse TEmpty (TLeaf k v) = TLeaf k v"
| "tcollapse a b = TNode a b"

fun tremove :: "b256 \<Rightarrow> nat \<Rightarrow> trie \<Rightarrow> trie" where
  "tremove k d TEmpty = TEmpty"
| "tremove k d (TLeaf k' v) = (if k' = k then TEmpty else TLeaf k' v)"
| "tremove k d (TNode a b) =
     (if kb k d then tcollapse a (tremove k (Suc d) b) else tcollapse (tremove k (Suc d) a) b)"

text \<open>
  Well-formed at a depth: each branching is on its own bit and has at least two leaves below, and all
  keys agree on the bits before.
\<close>

fun twf :: "nat \<Rightarrow> trie \<Rightarrow> bool" where
  "twf d TEmpty \<longleftrightarrow> True"
| "twf d (TLeaf k v) \<longleftrightarrow> True"
| "twf d (TNode a b) \<longleftrightarrow> d < 256 \<and> tcollapse a b = TNode a b \<and> twf (Suc d) a \<and> twf (Suc d) b \<and>
     (\<forall>k \<in> tkeys a. \<not> kb k d) \<and> (\<forall>k \<in> tkeys b. kb k d)"

definition aligned :: "nat \<Rightarrow> b256 set \<Rightarrow> bool" where
  "aligned d K \<longleftrightarrow> (\<forall>k \<in> K. \<forall>k' \<in> K. agree d k k')"

lemma aligned_mono: "aligned d K \<Longrightarrow> K' \<subseteq> K \<Longrightarrow> aligned d K'"
  by (auto simp: aligned_def)

lemma aligned_step: "aligned d K \<Longrightarrow> (\<And>k. k \<in> K \<Longrightarrow> kb k d = x) \<Longrightarrow> aligned (Suc d) K"
  by (auto simp: aligned_def)

lemma tcollapse_keys [simp]: "tkeys (tcollapse a b) = tkeys a \<union> tkeys b"
  by (cases "(a, b)" rule: tcollapse.cases) auto

lemma twf_many: "twf d (TNode a b) \<Longrightarrow> \<exists>k k'. k \<in> tkeys (TNode a b) \<and> k' \<in> tkeys (TNode a b) \<and> k \<noteq> k'"
proof (induction "TNode a b" arbitrary: a b d rule: tkeys.induct)
  case (3 a b)
  show ?case
  proof (cases "(\<exists>x y. a = TNode x y) \<or> (\<exists>x y. b = TNode x y)")
    case True
    then show ?thesis using 3 by fastforce
  next
    case False
    then obtain k v k' v' where "a = TLeaf k v" "b = TLeaf k' v'"
      using "3.prems" by (cases a; cases b) auto
    then show ?thesis using "3.prems" by auto
  qed
qed

lemma twf_empty: "twf d t \<Longrightarrow> tkeys t = {} \<Longrightarrow> t = TEmpty"
  by (cases t) (use twf_many in fastforce)+

lemma tlookup_None: "k \<notin> tkeys t \<Longrightarrow> tlookup k d t = None"
  by (induction t arbitrary: d) auto

lemma tlookup_keys: "twf d t \<Longrightarrow> tlookup k d t \<noteq> None \<longleftrightarrow> k \<in> tkeys t"
  by (induction t arbitrary: d) (auto simp: tlookup_None)

section \<open>The operations store a map\<close>

lemma tpair_not_small:
  assumes "k \<noteq> k'" and "agree d k k'"
  shows "\<exists>a b. tpair k v k' v' d = TNode a b"
  using assms agree_all [of d k k'] by (subst tpair.simps) auto

lemma tpair_facts:
  assumes "k \<noteq> k'" and "agree d k k'"
  shows "twf d (tpair k v k' v' d)" and "tkeys (tpair k v k' v' d) = {k, k'}"
    and "tlookup x d (tpair k v k' v' d) = (if x = k then Some v else if x = k' then Some v' else None)"
proof -
  have "twf d (tpair k v k' v' d) \<and> tkeys (tpair k v k' v' d) = {k, k'} \<and>
      tlookup x d (tpair k v k' v' d) = (if x = k then Some v else if x = k' then Some v' else None)"
    using assms
  proof (induction k v k' v' d rule: tpair.induct)
    case (1 k v k' v' d)
    have d: "\<not> 256 \<le> d" using "1.prems" agree_all by blast
    note eq = tpair.simps [of k v k' v' d]
    consider "kb k d" "kb k' d" | "\<not> kb k d" "\<not> kb k' d" | "kb k d \<noteq> kb k' d" by blast
    then show ?case
    proof cases
      case 1
      then have a: "agree (Suc d) k k'" using "1.prems" by simp
      obtain x y where "tpair k v k' v' (Suc d) = TNode x y" using tpair_not_small [OF "1.prems"(1) a] by blast
      moreover note "1.IH"(1) [OF d _ "1.prems"(1) a]
      moreover have "tpair k v k' v' d = TNode TEmpty (tpair k v k' v' (Suc d))" using eq d 1 by simp
      ultimately show ?thesis using 1 d by auto
    next
      case 2
      then have a: "agree (Suc d) k k'" using "1.prems" by simp
      obtain x y where "tpair k v k' v' (Suc d) = TNode x y" using tpair_not_small [OF "1.prems"(1) a] by blast
      moreover note "1.IH"(2) [OF d _ _ "1.prems"(1) a]
      moreover have "tpair k v k' v' d = TNode (tpair k v k' v' (Suc d)) TEmpty" using eq d 2 by simp
      ultimately show ?thesis using 2 d by auto
    next
      case 3
      then show ?thesis using eq d "1.prems"(1) by auto
    qed
  qed
  then show "twf d (tpair k v k' v' d)" "tkeys (tpair k v k' v' d) = {k, k'}"
    "tlookup x d (tpair k v k' v' d) = (if x = k then Some v else if x = k' then Some v' else None)" by blast+
qed

lemma tinsert_keys:
  assumes "aligned d (insert k (tkeys t))" and "twf d t"
  shows "tkeys (tinsert k v d t) = insert k (tkeys t)"
  using assms
proof (induction t arbitrary: d)
  case (TLeaf k' v')
  then show ?case using tpair_facts(2) [of k k' d] by (auto simp: aligned_def)
next
  case (TNode a b)
  have "aligned (Suc d) (insert k (tkeys b))" if "kb k d"
    by (rule aligned_step [of _ _ True]) (use TNode.prems that in \<open>auto elim: aligned_mono\<close>)
  moreover have "aligned (Suc d) (insert k (tkeys a))" if "\<not> kb k d"
    by (rule aligned_step [of _ _ False]) (use TNode.prems that in \<open>auto elim: aligned_mono\<close>)
  ultimately show ?case using TNode by auto
qed simp

lemma tinsert_nonempty:
  assumes "aligned d (insert k (tkeys t))" and "twf d t"
  shows "tinsert k v d t \<noteq> TEmpty"
  using tinsert_keys [OF assms, of v] by auto

lemma tcollapse_nodes [simp]: "tcollapse (TNode x y) b = TNode (TNode x y) b" "tcollapse a (TNode x y) = TNode a (TNode x y)"
  by (cases b; simp) (cases a; simp)

lemma collapse_grows:
  assumes "tcollapse a b = TNode a b" and "c \<noteq> TEmpty" and "\<And>x y. b = TNode x y \<Longrightarrow> \<exists>x y. c = TNode x y"
  shows "tcollapse a c = TNode a c" and "tcollapse b a = TNode b a \<Longrightarrow> tcollapse c a = TNode c a"
  using assms by (cases a; cases b; cases c; fastforce)+

lemma collapse_sym: "tcollapse a b = TNode a b \<longleftrightarrow> tcollapse b a = TNode b a"
  by (cases a; cases b; simp)

lemma aligned_child:
  assumes "aligned d (insert k (tkeys (TNode a b)))" and "twf d (TNode a b)"
  shows "kb k d \<Longrightarrow> aligned (Suc d) (insert k (tkeys b))" and "\<not> kb k d \<Longrightarrow> aligned (Suc d) (insert k (tkeys a))"
proof -
  show "aligned (Suc d) (insert k (tkeys b))" if "kb k d"
    by (rule aligned_step [of _ _ True]) (use assms that in \<open>auto elim: aligned_mono\<close>)
  show "aligned (Suc d) (insert k (tkeys a))" if "\<not> kb k d"
    by (rule aligned_step [of _ _ False]) (use assms that in \<open>auto elim: aligned_mono\<close>)
qed

lemma tinsert_wf:
  assumes "aligned d (insert k (tkeys t))" and "twf d t"
  shows "twf d (tinsert k v d t)"
  using assms
proof (induction t arbitrary: d)
  case (TLeaf k' v')
  then show ?case using tpair_facts(1) [of k k' d] by (auto simp: aligned_def)
next
  case (TNode a b)
  note al = aligned_child [OF TNode.prems]
  show ?case
  proof (cases "kb k d")
    case True
    let ?b = "tinsert k v (Suc d) b"
    have w: "twf (Suc d) b" using TNode.prems(2) by simp
    have "twf (Suc d) ?b" "tkeys ?b = insert k (tkeys b)" "?b \<noteq> TEmpty"
      using TNode.IH(2) tinsert_keys tinsert_nonempty al(1) [OF True] w by blast+
    moreover have "tcollapse a ?b = TNode a ?b"
      by (rule collapse_grows(1) [of a b]) (use TNode.prems(2) \<open>?b \<noteq> TEmpty\<close> in auto)
    ultimately show ?thesis using TNode.prems(2) True by simp
  next
    case False
    let ?a = "tinsert k v (Suc d) a"
    have w: "twf (Suc d) a" using TNode.prems(2) by simp
    have "twf (Suc d) ?a" "tkeys ?a = insert k (tkeys a)" "?a \<noteq> TEmpty"
      using TNode.IH(1) tinsert_keys tinsert_nonempty al(2) [OF False] w by blast+
    moreover have "tcollapse b ?a = TNode b ?a"
      by (rule collapse_grows(1) [of b a]) (use TNode.prems(2) collapse_sym [of a b] \<open>?a \<noteq> TEmpty\<close> in auto)
    ultimately show ?thesis using TNode.prems(2) False collapse_sym [of ?a b] by simp
  qed
qed simp

lemma tlookup_tinsert:
  assumes "aligned d (insert k (tkeys t))" and "twf d t"
  shows "tlookup x d (tinsert k v d t) = (if x = k then Some v else tlookup x d t)"
  using assms
proof (induction t arbitrary: d)
  case (TLeaf k' v')
  then show ?case using tpair_facts(3) [of k k' d x v v'] by (auto simp: aligned_def)
next
  case (TNode a b)
  note al = aligned_child [OF TNode.prems]
  show ?case using TNode.IH al TNode.prems(2) by (cases "kb k d"; cases "x = k") auto
qed simp

lemma tremove_keys: "twf d t \<Longrightarrow> tkeys (tremove k d t) = tkeys t - {k}"
  by (induction t arbitrary: d) auto

lemma tcollapse_wf:
  assumes "d < 256" and "twf (Suc d) a" and "twf (Suc d) b" and "\<forall>k \<in> tkeys a. \<not> kb k d" and "\<forall>k \<in> tkeys b. kb k d"
  shows "twf d (tcollapse a b)"
  using assms by (cases "(a, b)" rule: tcollapse.cases) auto

lemma tremove_wf: "twf d t \<Longrightarrow> twf d (tremove k d t)"
proof (induction t arbitrary: d)
  case (TNode a b)
  then show ?case using tremove_keys [of "Suc d"] by (auto intro!: tcollapse_wf)
qed auto

lemma tlookup_tcollapse: "\<forall>k \<in> tkeys a. \<not> kb k d \<Longrightarrow> \<forall>k \<in> tkeys b. kb k d \<Longrightarrow>
    tlookup x d (tcollapse a b) = tlookup x (Suc d) (if kb x d then b else a)"
  by (cases "(a, b)" rule: tcollapse.cases) auto

lemma tlookup_tremove: "twf d t \<Longrightarrow> tlookup x d (tremove k d t) = (if x = k then None else tlookup x d t)"
proof (induction t arbitrary: d)
  case (TNode a b)
  show ?case
  proof (cases "kb k d")
    case True
    then have "tlookup x d (tremove k d (TNode a b)) = tlookup x (Suc d) (if kb x d then tremove k (Suc d) b else a)"
      using TNode.prems tremove_keys [of "Suc d" b k] by (simp add: tlookup_tcollapse)
    then show ?thesis using TNode True by auto
  next
    case False
    then have "tlookup x d (tremove k d (TNode a b)) = tlookup x (Suc d) (if kb x d then b else tremove k (Suc d) a)"
      using TNode.prems tremove_keys [of "Suc d" a k] by (simp add: tlookup_tcollapse)
    then show ?thesis using TNode False by auto
  qed
qed auto

section \<open>One trie per map\<close>

lemma same_lookups_keys: "twf d t \<Longrightarrow> twf d t' \<Longrightarrow> (\<And>k. tlookup k d t = tlookup k d t') \<Longrightarrow> tkeys t = tkeys t'"
  using tlookup_keys by (metis subsetI subset_antisym)

lemma tlookup_side:
  assumes "twf d (TNode a b)"
  shows "kb x d \<Longrightarrow> tlookup x e a = None" and "\<not> kb x d \<Longrightarrow> tlookup x e b = None"
proof -
  show "tlookup x e a = None" if "kb x d" by (rule tlookup_None) (use assms that in auto)
  show "tlookup x e b = None" if "\<not> kb x d" by (rule tlookup_None) (use assms that in auto)
qed

lemma trie_unique:
  assumes "twf d t" and "twf d t'" and "\<And>k. tlookup k d t = tlookup k d t'"
  shows "t = t'"
  using assms
proof (induction t arbitrary: d t')
  case TEmpty
  have "tkeys t' = {}" using same_lookups_keys [OF TEmpty] by simp
  then show ?case using twf_empty [OF TEmpty(2)] by simp
next
  case (TLeaf k v)
  have "tkeys t' = {k}" using same_lookups_keys [OF TLeaf] by simp
  moreover from this have "t' \<noteq> TNode x y" for x y
    using twf_many [of d x y] TLeaf.prems(2) by (metis singletonD)
  ultimately obtain k' v' where "t' = TLeaf k' v'" by (cases t') auto
  then show ?case using TLeaf.prems(3) [of k] by (simp split: if_splits)
next
  case (TNode a b)
  have keys: "tkeys t' = tkeys (TNode a b)" using same_lookups_keys [OF TNode.prems] by simp
  obtain k k' where "k \<in> tkeys t'" "k' \<in> tkeys t'" "k \<noteq> k'"
    using twf_many [OF TNode.prems(1)] unfolding keys by blast
  then obtain a' b' where t': "t' = TNode a' b'" by (cases t') auto
  have w: "twf d (TNode a' b')" using TNode.prems(2) t' by simp
  have same: "tlookup x d (TNode a b) = tlookup x d (TNode a' b')" for x using TNode.prems(3) [of x] unfolding t' .
  have "tlookup x (Suc d) a = tlookup x (Suc d) a'" for x
    using same [of x] tlookup_side(1) [OF TNode.prems(1)] tlookup_side(1) [OF w] by (cases "kb x d") simp_all
  then have "a = a'" by (intro TNode.IH(1) [of "Suc d"]) (use TNode.prems(1) w in simp_all)
  moreover have "tlookup x (Suc d) b = tlookup x (Suc d) b'" for x
    using same [of x] tlookup_side(2) [OF TNode.prems(1)] tlookup_side(2) [OF w] by (cases "kb x d") simp_all
  then have "b = b'" by (intro TNode.IH(2) [of "Suc d"]) (use TNode.prems(1) w in simp_all)
  ultimately show ?case using t' by simp
qed

text \<open>The reference: the trie of a list of entries, by recursive partition on the bits.\<close>

function tcanon :: "nat \<Rightarrow> (b256 \<times> b256) list \<Rightarrow> trie" where
  "tcanon d [] = TEmpty"
| "tcanon d [(k, v)] = TLeaf k v"
| "tcanon d (x # y # xs) =
     (if 256 \<le> d then TEmpty
      else TNode (tcanon (Suc d) (filter (\<lambda>(k, v). \<not> kb k d) (x # y # xs)))
                 (tcanon (Suc d) (filter (\<lambda>(k, v). kb k d) (x # y # xs))))"
  by pat_completeness auto
termination by (relation "measure (\<lambda>(d, xs). 256 - d)") auto

lemma collapse_small: "tcollapse a b \<noteq> TNode a b \<Longrightarrow> \<exists>k. tkeys a \<union> tkeys b \<subseteq> {k}"
  by (cases "(a, b)" rule: tcollapse.cases) auto

lemma map_of_side: "map_of (filter (\<lambda>(k, v). P k) xs) k = (if P k then map_of xs k else None)"
  by (induction xs) auto

lemma aligned_sides:
  assumes "aligned d (fst ` set xs)"
  shows "aligned (Suc d) (fst ` set (filter (\<lambda>(k, v). \<not> kb k d) xs))"
    and "aligned (Suc d) (fst ` set (filter (\<lambda>(k, v). kb k d) xs))"
  using assms by (fastforce simp: aligned_def)+

lemma join_sides:
  assumes "x \<in> set l" and "y \<in> set l" and "fst x \<noteq> fst y"
    and a: "twf (Suc d) a \<and> tkeys a = fst ` set (filter (\<lambda>(k, v). \<not> kb k d) l) \<and>
      tlookup k (Suc d) a = map_of (filter (\<lambda>(k, v). \<not> kb k d) l) k"
    and b: "twf (Suc d) b \<and> tkeys b = fst ` set (filter (\<lambda>(k, v). kb k d) l) \<and>
      tlookup k (Suc d) b = map_of (filter (\<lambda>(k, v). kb k d) l) k"
    and "d < 256"
  shows "twf d (TNode a b) \<and> tkeys (TNode a b) = fst ` set l \<and> tlookup k d (TNode a b) = map_of l k"
proof -
  have keys: "tkeys a \<union> tkeys b = fst ` set l" using a b by auto
  have "tcollapse a b = TNode a b"
  proof (rule ccontr)
    assume "tcollapse a b \<noteq> TNode a b"
    then obtain k where "fst ` set l \<subseteq> {k}" using collapse_small [of a b] keys by auto
    then have "fst x = k" "fst y = k" using assms(1,2) by auto
    then show False using assms(3) by simp
  qed
  moreover have "\<forall>k \<in> tkeys a. \<not> kb k d" "\<forall>k \<in> tkeys b. kb k d" using a b by auto
  moreover have "tlookup k d (TNode a b) = map_of l k"
    using a b map_of_side [of "\<lambda>k. kb k d" l k] map_of_side [of "\<lambda>k. \<not> kb k d" l k] by simp
  moreover have "twf (Suc d) a" "twf (Suc d) b" using a b by simp_all
  ultimately show ?thesis using keys \<open>d < 256\<close> by (simp only: twf.simps tkeys.simps)
qed

lemma tcanon_facts:
  assumes "distinct (map fst xs)" and "aligned d (fst ` set xs)"
  shows "twf d (tcanon d xs) \<and> tkeys (tcanon d xs) = fst ` set xs \<and> tlookup k d (tcanon d xs) = map_of xs k"
  using assms
proof (induction d xs rule: tcanon.induct)
  case (3 d x y xs)
  let ?l = "x # y # xs"
  let ?a = "filter (\<lambda>(k, v). \<not> kb k d) ?l" and ?b = "filter (\<lambda>(k, v). kb k d) ?l"
  have "fst x \<noteq> fst y" "agree d (fst x) (fst y)" using "3.prems" by (auto simp: aligned_def)
  then have d: "\<not> 256 \<le> d" using agree_all by blast
  have dist: "distinct (map fst ?a)" "distinct (map fst ?b)"
    using "3.prems"(1) by (intro distinct_map_filter; assumption)+
  have al: "aligned (Suc d) (fst ` set ?a)" "aligned (Suc d) (fst ` set ?b)"
    using aligned_sides [OF "3.prems"(2)] by blast+
  note IH = "3.IH"(1) [OF d dist(1) al(1)] "3.IH"(2) [OF d dist(2) al(2)]
  have "tcanon d ?l = TNode (tcanon (Suc d) ?a) (tcanon (Suc d) ?b)" using d by simp
  then show ?case using join_sides [OF _ _ \<open>fst x \<noteq> fst y\<close> IH] d by (simp only: list.set_intros not_le)
qed auto

end
