(* ===== verification/N42_Sbmt.thy ===== *)
theory N42_Sbmt
  imports N42_Trie
begin

unbundle bit_operations_syntax

text \<open>
  The sparse binary Merkle tree of \<^verbatim>\<open>n42-bmt-core/src/lib.rs\<close>. Nodes live in an arena and refer to
  each other by index; freed slots are reused; internal nodes cache their hash. An operation returns
  nothing if an index is out of range (the Rust code panics) or the fuel of its recursion runs out;
  the lemmas show that neither happens and that the arena implements the tries of \<^verbatim>\<open>N42_Trie\<close>.
\<close>

section \<open>Hashes, keys and nodes\<close>

definition EMPTY_HASH :: b256 where "EMPTY_HASH = 0"
definition SHARD_COUNT :: nat where "SHARD_COUNT = 16"
definition LEAF_PREFIX :: u8 where "LEAF_PREFIX = 0"
definition INTERNAL_PREFIX :: u8 where "INTERNAL_PREFIX = 1"

definition hash_leaf :: "ext_lib \<Rightarrow> b256 \<Rightarrow> b256 \<Rightarrow> b256" where
  "hash_leaf L key value_hash = blake3 L ([LEAF_PREFIX] @ be_bytes 32 key @ be_bytes 32 value_hash)"

definition hash_internal :: "ext_lib \<Rightarrow> b256 \<Rightarrow> b256 \<Rightarrow> b256" where
  "hash_internal L left right = blake3 L ([INTERNAL_PREFIX] @ be_bytes 32 left @ be_bytes 32 right)"

definition hash_value :: "ext_lib \<Rightarrow> bytes \<Rightarrow> b256" where
  "hash_value L value = blake3 L value"

definition ACCOUNT_DOMAIN :: bytes where "ACCOUNT_DOMAIN = ascii ''n42:account:''"
definition STORAGE_DOMAIN :: bytes where "STORAGE_DOMAIN = ascii ''n42:storage:''"

definition account_key :: "ext_lib \<Rightarrow> address \<Rightarrow> b256" where
  "account_key L address = blake3 L (ACCOUNT_DOMAIN @ be_bytes 20 address)"

definition storage_key :: "ext_lib \<Rightarrow> address \<Rightarrow> b256 \<Rightarrow> b256" where
  "storage_key L address slot_be = blake3 L (STORAGE_DOMAIN @ be_bytes 20 address @ be_bytes 32 slot_be)"

definition shard_index_for_key :: "b256 \<Rightarrow> nat" where
  "shard_index_for_key key = unat (drop_bit 4 (be_bytes 32 key ! 0))"

text \<open>The bit of a key at a depth; an index past the key panics.\<close>

definition key_bit :: "b256 \<Rightarrow> nat \<Rightarrow> bool option" where
  "key_bit key depth =
     (if depth div 8 < 32 then Some ((drop_bit (7 - depth mod 8) (be_bytes 32 key ! (depth div 8)) AND 1) = 1) else None)"

type_synonym node_idx = u32

definition NIL :: node_idx where "NIL = - 1"

datatype snode = SLeaf b256 b256 | SInternal node_idx node_idx "b256 option"

record sbmt =
  sb_nodes :: "snode list"
  sb_free :: "node_idx list"
  sb_root :: node_idx
  sb_len :: nat
  sb_base_depth :: nat

record node_stats =
  internal_nodes :: nat
  leaf_nodes :: nat
  serialized_bytes :: u64

definition total_nodes :: "node_stats \<Rightarrow> nat" where
  "total_nodes s = internal_nodes s + leaf_nodes s"

definition sbmt_new :: sbmt where
  "sbmt_new = \<lparr> sb_nodes = [], sb_free = [], sb_root = NIL, sb_len = 0, sb_base_depth = 0 \<rparr>"

definition with_base_depth :: "nat \<Rightarrow> sbmt" where
  "with_base_depth base_depth =
     \<lparr> sb_nodes = [], sb_free = [], sb_root = NIL, sb_len = 0, sb_base_depth = base_depth \<rparr>"

definition sbmt_is_empty :: "sbmt \<Rightarrow> bool" where
  "sbmt_is_empty s \<longleftrightarrow> sb_len s = 0"

section \<open>The arena\<close>

definition node_at :: "node_idx \<Rightarrow> sbmt \<Rightarrow> snode option" where
  "node_at i s = (if unat i < length (sb_nodes s) then Some (sb_nodes s ! unat i) else None)"

definition set_node :: "node_idx \<Rightarrow> snode \<Rightarrow> sbmt \<Rightarrow> sbmt" where
  "set_node i x s = s\<lparr> sb_nodes := (sb_nodes s)[unat i := x] \<rparr>"

definition alloc :: "snode \<Rightarrow> sbmt \<Rightarrow> (sbmt \<times> node_idx) option" where
  "alloc node s =
     (if sb_free s \<noteq> []
      then let i = last (sb_free s); s = s\<lparr> sb_free := butlast (sb_free s) \<rparr> in
        if unat i < length (sb_nodes s) then Some (set_node i node s, i) else None
      else let i = word_of_nat (length (sb_nodes s)) in
        Some (s\<lparr> sb_nodes := sb_nodes s @ [node] \<rparr>, i))"

definition free_slot :: "node_idx \<Rightarrow> sbmt \<Rightarrow> sbmt" where
  "free_slot i s = (if i \<noteq> NIL then s\<lparr> sb_free := sb_free s @ [i] \<rparr> else s)"

definition set_child :: "bool \<Rightarrow> node_idx \<Rightarrow> node_idx \<Rightarrow> sbmt \<Rightarrow> sbmt" where
  "set_child right slot i s = (case node_at slot s of
     Some (SInternal l r c) \<Rightarrow> set_node slot (if right then SInternal l i c else SInternal i r c) s
   | _ \<Rightarrow> s)"

definition clear_cache :: "node_idx \<Rightarrow> sbmt \<Rightarrow> sbmt" where
  "clear_cache slot s = (case node_at slot s of
     Some (SInternal l r c) \<Rightarrow> set_node slot (SInternal l r None) s
   | _ \<Rightarrow> s)"

text \<open>The hash of a subtree; the caches it fills are part of the state.\<close>

fun node_hash :: "ext_lib \<Rightarrow> nat \<Rightarrow> node_idx \<Rightarrow> sbmt \<Rightarrow> (sbmt \<times> b256) option" where
  "node_hash L 0 idx s = None"
| "node_hash L (Suc n) idx s =
     (if idx = NIL then Some (s, EMPTY_HASH)
      else case node_at idx s of
        None \<Rightarrow> None
      | Some (SLeaf key value_hash) \<Rightarrow> Some (s, hash_leaf L key value_hash)
      | Some (SInternal l r cache) \<Rightarrow> (case cache of
          Some h \<Rightarrow> Some (s, h)
        | None \<Rightarrow>
            Option.bind (node_hash L n l s) (\<lambda>(s, hl).
              Option.bind (node_hash L n r s) (\<lambda>(s, hr).
                let h = hash_internal L hl hr in Some (set_node idx (SInternal l r (Some h)) s, h)))))"

fun collect_stats :: "nat \<Rightarrow> node_idx \<Rightarrow> sbmt \<Rightarrow> node_stats \<Rightarrow> node_stats option" where
  "collect_stats 0 idx s st = None"
| "collect_stats (Suc n) idx s st =
     (if idx = NIL then Some st
      else case node_at idx s of
        None \<Rightarrow> None
      | Some (SLeaf _ _) \<Rightarrow>
          Some (st\<lparr> leaf_nodes := leaf_nodes st + 1, serialized_bytes := serialized_bytes st + 64 \<rparr>)
      | Some (SInternal l r _) \<Rightarrow>
          Option.bind (collect_stats n l s
              (st\<lparr> internal_nodes := internal_nodes st + 1, serialized_bytes := serialized_bytes st + 96 \<rparr>))
            (\<lambda>st. collect_stats n r s st))"

section \<open>The operations\<close>

text \<open>
  A path has at most 256 branchings, and an insertion visits a node at most twice per level; the
  fuel below is enough for every recursion.
\<close>

definition SBMT_FUEL :: nat where "SBMT_FUEL = 600"

definition root_hash :: "ext_lib \<Rightarrow> sbmt \<Rightarrow> (sbmt \<times> b256) option" where
  "root_hash L s = node_hash L SBMT_FUEL (sb_root s) s"

definition sbmt_node_stats :: "sbmt \<Rightarrow> node_stats option" where
  "sbmt_node_stats s =
     collect_stats SBMT_FUEL (sb_root s) s \<lparr> internal_nodes = 0, leaf_nodes = 0, serialized_bytes = 0 \<rparr>"

fun insert_at :: "nat \<Rightarrow> node_idx \<Rightarrow> b256 \<Rightarrow> b256 \<Rightarrow> nat \<Rightarrow> sbmt \<Rightarrow> (sbmt \<times> node_idx \<times> bool) option" where
  "insert_at 0 slot key vh depth s = None"
| "insert_at (Suc n) slot key vh depth s =
     (if slot = NIL then Option.bind (alloc (SLeaf key vh) s) (\<lambda>(s, i). Some (s, i, True))
      else case node_at slot s of
        None \<Rightarrow> None
      | Some (SLeaf ek ev) \<Rightarrow>
          if ek = key then Some (set_node slot (SLeaf key vh) s, slot, False)
          else
            Option.bind (insert_at n slot ek ev depth (set_node slot (SInternal NIL NIL None) s)) (\<lambda>(s, _).
              Option.bind (insert_at n slot key vh depth s) (\<lambda>(s, _). Some (s, slot, True)))
      | Some (SInternal l r _) \<Rightarrow>
          let s = clear_cache slot s in
          Option.bind (key_bit key depth) (\<lambda>right.
            Option.bind (insert_at n (if right then r else l) key vh (depth + 1) s) (\<lambda>(s, child, added).
              Some (set_child right slot child s, slot, added))))"

definition insert_hashed :: "b256 \<Rightarrow> b256 \<Rightarrow> sbmt \<Rightarrow> sbmt option" where
  "insert_hashed key value_hash s =
     Option.bind (insert_at SBMT_FUEL (sb_root s) key value_hash (sb_base_depth s) s) (\<lambda>(s, new_root, added).
       let s = s\<lparr> sb_root := new_root \<rparr> in
       Some (if added then s\<lparr> sb_len := sb_len s + 1 \<rparr> else s))"

definition sbmt_insert :: "ext_lib \<Rightarrow> b256 \<Rightarrow> bytes \<Rightarrow> sbmt \<Rightarrow> sbmt option" where
  "sbmt_insert L key value s = insert_hashed key (hash_value L value) s"

definition is_leaf :: "node_idx \<Rightarrow> sbmt \<Rightarrow> bool" where
  "is_leaf i s \<longleftrightarrow> i \<noteq> NIL \<and> (case node_at i s of Some (SLeaf _ _) \<Rightarrow> True | _ \<Rightarrow> False)"

definition collapse :: "node_idx \<Rightarrow> node_idx \<Rightarrow> node_idx \<Rightarrow> sbmt \<Rightarrow> sbmt \<times> node_idx" where
  "collapse slot left right s =
     (if left = NIL \<and> right = NIL then (free_slot slot s, NIL)
      else if right = NIL \<and> is_leaf left s then (free_slot slot s, left)
      else if left = NIL \<and> is_leaf right s then (free_slot slot s, right)
      else (s, slot))"

fun remove_at :: "nat \<Rightarrow> node_idx \<Rightarrow> b256 \<Rightarrow> nat \<Rightarrow> sbmt \<Rightarrow> (sbmt \<times> node_idx \<times> bool) option" where
  "remove_at 0 slot key depth s = None"
| "remove_at (Suc n) slot key depth s =
     (if slot = NIL then Some (s, NIL, False)
      else case node_at slot s of
        None \<Rightarrow> None
      | Some (SLeaf ek _) \<Rightarrow>
          if ek = key then Some (free_slot slot s, NIL, True) else Some (s, slot, False)
      | Some (SInternal l r _) \<Rightarrow>
          Option.bind (key_bit key depth) (\<lambda>right.
            Option.bind (remove_at n (if right then r else l) key (depth + 1) s) (\<lambda>(s, child, removed).
              let s = clear_cache slot (set_child right slot child s);
                  (cl, cr) = (case node_at slot s of Some (SInternal l r _) \<Rightarrow> (l, r) | _ \<Rightarrow> (NIL, NIL));
                  (s, i) = collapse slot cl cr s
              in Some (s, i, removed))))"

definition sbmt_remove :: "b256 \<Rightarrow> sbmt \<Rightarrow> (sbmt \<times> bool) option" where
  "sbmt_remove key s =
     Option.bind (remove_at SBMT_FUEL (sb_root s) key (sb_base_depth s) s) (\<lambda>(s, new_root, removed).
       let s = s\<lparr> sb_root := new_root \<rparr> in
       Some (if removed then s\<lparr> sb_len := sb_len s - 1 \<rparr> else s, removed))"

fun apply_batch :: "ext_lib \<Rightarrow> (b256 \<times> bytes option) list \<Rightarrow> sbmt \<Rightarrow> sbmt option" where
  "apply_batch L [] s = Some s"
| "apply_batch L ((key, value) # updates) s =
     Option.bind (case value of Some v \<Rightarrow> sbmt_insert L key v s | None \<Rightarrow> map_option fst (sbmt_remove key s))
       (\<lambda>s. apply_batch L updates s)"

text \<open>The loop of \<open>get\<close>; the outer option is that of a panic or of missing fuel.\<close>

fun get_from :: "nat \<Rightarrow> node_idx \<Rightarrow> nat \<Rightarrow> b256 \<Rightarrow> sbmt \<Rightarrow> b256 option option" where
  "get_from 0 idx depth key s = None"
| "get_from (Suc n) idx depth key s =
     (if idx = NIL then Some None
      else case node_at idx s of
        None \<Rightarrow> None
      | Some (SLeaf ek value_hash) \<Rightarrow> Some (if ek = key then Some value_hash else None)
      | Some (SInternal l r _) \<Rightarrow>
          Option.bind (key_bit key depth) (\<lambda>right. get_from n (if right then r else l) (depth + 1) key s))"

definition sbmt_get :: "b256 \<Rightarrow> sbmt \<Rightarrow> b256 option option" where
  "sbmt_get key s = get_from SBMT_FUEL (sb_root s) (sb_base_depth s) key s"

section \<open>The bits of a key\<close>

lemma nth_be_bytes:
  assumes "i < 32"
  shows "be_bytes 32 (k :: b256) ! i = ucast (drop_bit (8 * (31 - i)) k)"
  using assms nth_upt [of 0 "31 - i" 32] by (simp add: be_bytes_def le_bytes_def rev_nth)

lemma key_bit_kb: "d < 256 \<Longrightarrow> key_bit k d = Some (kb k d)"
proof -
  assume d: "d < 256"
  then have i: "d div 8 < 32" by simp
  have "(x AND 1 = 1) = bit x 0" for x :: u8 by (metis and_one_eq bit_0 odd_iff_mod_2_eq_one one_neq_zero and.commute)
  then have "(drop_bit (7 - d mod 8) (be_bytes 32 k ! (d div 8)) AND 1 = 1) = bit (be_bytes 32 k ! (d div 8)) (7 - d mod 8)"
    by (simp add: bit_drop_bit_eq)
  moreover have "7 - d mod 8 < (8 :: nat)" by (rule le_less_trans [of _ 7]) simp_all
  ultimately have "(drop_bit (7 - d mod 8) (be_bytes 32 k ! (d div 8)) AND 1 = 1) = bit k (8 * (31 - d div 8) + (7 - d mod 8))"
    by (simp add: nth_be_bytes [OF i] bit_ucast_iff bit_drop_bit_eq)
  also have "8 * (31 - d div 8) + (7 - d mod 8) = 255 - d"
    using d by presburger
  finally show ?thesis using i by (simp add: key_bit_def kb_def)
qed

section \<open>Tries in the arena\<close>

fun thash :: "ext_lib \<Rightarrow> trie \<Rightarrow> b256" where
  "thash L TEmpty = EMPTY_HASH"
| "thash L (TLeaf k v) = hash_leaf L k v"
| "thash L (TNode a b) = hash_internal L (thash L a) (thash L b)"

text \<open>The trie below an index, with the slots it occupies; a filled cache holds the right hash.\<close>

fun reps :: "ext_lib \<Rightarrow> snode list \<Rightarrow> node_idx \<Rightarrow> trie \<Rightarrow> nat set \<Rightarrow> bool" where
  "reps L ns i TEmpty S \<longleftrightarrow> i = NIL \<and> S = {}"
| "reps L ns i (TLeaf k v) S \<longleftrightarrow> i \<noteq> NIL \<and> unat i < length ns \<and> ns ! unat i = SLeaf k v \<and> S = {unat i}"
| "reps L ns i (TNode a b) S \<longleftrightarrow> i \<noteq> NIL \<and> unat i < length ns \<and>
     (\<exists>l r c A B. ns ! unat i = SInternal l r c \<and> reps L ns l a A \<and> reps L ns r b B \<and>
        S = insert (unat i) (A \<union> B) \<and> A \<inter> B = {} \<and> unat i \<notin> A \<union> B \<and> c \<in> {None, Some (thash L (TNode a b))})"

lemma reps_bound: "reps L ns i t S \<Longrightarrow> j \<in> S \<Longrightarrow> j < length ns"
  by (induction t arbitrary: i S) auto

lemma reps_frame:
  assumes "reps L ns i t S" and "\<And>j. j \<in> S \<Longrightarrow> j < length ns' \<and> ns' ! j = ns ! j"
  shows "reps L ns' i t S"
  using assms
proof (induction t arbitrary: i S)
  case (TNode a b)
  from TNode.prems(1) obtain l r c A B where r: "ns ! unat i = SInternal l r c" "reps L ns l a A" "reps L ns r b B"
    "S = insert (unat i) (A \<union> B)" "A \<inter> B = {}" "unat i \<notin> A \<union> B" "c \<in> {None, Some (thash L (TNode a b))}" "i \<noteq> NIL" by auto
  have "reps L ns' l a A" "reps L ns' r b B" using TNode.IH(1) [OF r(2)] TNode.IH(2) [OF r(3)] TNode.prems(2) r(4) by simp_all
  moreover have "unat i < length ns'" "ns' ! unat i = SInternal l r c" using TNode.prems(2) [of "unat i"] r(1,4) by simp_all
  ultimately show ?case using r(4-8) by (simp only: reps.simps) blast
qed auto

definition free_set :: "sbmt \<Rightarrow> nat set" where
  "free_set s = unat ` set (sb_free s)"

definition arena_ok :: "sbmt \<Rightarrow> bool" where
  "arena_ok s \<longleftrightarrow> distinct (sb_free s) \<and> (\<forall>i \<in> free_set s. i < length (sb_nodes s)) \<and> NIL \<notin> set (sb_free s)"

text \<open>What an operation on the subtree in the slots \<open>S\<close> may touch: these, the free ones and new ones.\<close>

definition touches :: "sbmt \<Rightarrow> nat set \<Rightarrow> sbmt \<Rightarrow> nat set \<Rightarrow> bool" where
  "touches s S s' S' \<longleftrightarrow> length (sb_nodes s) \<le> length (sb_nodes s') \<and>
     (\<forall>j < length (sb_nodes s). j \<notin> S \<longrightarrow> j \<notin> free_set s \<longrightarrow> sb_nodes s' ! j = sb_nodes s ! j) \<and>
     S' \<union> free_set s' \<subseteq> S \<union> free_set s \<union> {length (sb_nodes s)..} \<and>
     sb_base_depth s' = sb_base_depth s \<and> sb_len s' = sb_len s \<and> sb_root s' = sb_root s"

definition owns :: "ext_lib \<Rightarrow> sbmt \<Rightarrow> node_idx \<Rightarrow> trie \<Rightarrow> nat set \<Rightarrow> bool" where
  "owns L s i t S \<longleftrightarrow> arena_ok s \<and> reps L (sb_nodes s) i t S \<and> S \<inter> free_set s = {}"

lemma touches_refl [simp]: "touches s S s S"
  by (auto simp: touches_def)

lemma touches_trans:
  assumes "touches s S s1 S1" and "touches s1 S1 s2 S2"
  shows "touches s S s2 S2"
proof -
  have sub: "S1 \<union> free_set s1 \<subseteq> S \<union> free_set s \<union> {length (sb_nodes s)..}"
    and len: "length (sb_nodes s) \<le> length (sb_nodes s1)" using assms(1) by (auto simp: touches_def)
  have "sb_nodes s2 ! j = sb_nodes s ! j" if j: "j < length (sb_nodes s)" "j \<notin> S" "j \<notin> free_set s" for j
  proof -
    have "j \<notin> S1" "j \<notin> free_set s1" using sub j by auto
    then have "sb_nodes s2 ! j = sb_nodes s1 ! j" using assms(2) j(1) len by (simp add: touches_def)
    then show ?thesis using assms(1) j by (simp add: touches_def)
  qed
  moreover have "S2 \<union> free_set s2 \<subseteq> S \<union> free_set s \<union> {length (sb_nodes s)..}"
    using assms(2) sub len by (fastforce simp: touches_def)
  ultimately show ?thesis using assms unfolding touches_def by auto
qed

lemma touches_frame: "touches s A s' A' \<Longrightarrow> touches s (A \<union> D) s' (A' \<union> D)"
  unfolding touches_def by blast

lemma set_node_simps [simp]:
  "sb_nodes (set_node i x s) = (sb_nodes s)[unat i := x]" "sb_free (set_node i x s) = sb_free s"
  "sb_root (set_node i x s) = sb_root s" "sb_len (set_node i x s) = sb_len s"
  "sb_base_depth (set_node i x s) = sb_base_depth s" "free_set (set_node i x s) = free_set s"
  "arena_ok (set_node i x s) = arena_ok s"
  by (simp_all add: set_node_def free_set_def arena_ok_def)

lemma touches_set_node: "unat i \<in> S \<Longrightarrow> touches s S (set_node i x s) S"
  by (auto simp: touches_def) (metis nth_list_update_neq)

lemma unat_not_NIL: "n < 2 ^ 32 - 1 \<Longrightarrow> unat (word_of_nat n :: node_idx) = n \<and> (word_of_nat n :: node_idx) \<noteq> NIL"
proof -
  assume n: "n < 2 ^ 32 - 1"
  then have u: "unat (word_of_nat n :: node_idx) = n" by (simp add: unat_of_nat)
  moreover have "unat NIL = 2 ^ 32 - 1" by (simp add: NIL_def)
  ultimately show ?thesis using n by auto
qed

text \<open>A new node takes a free slot or a new one.\<close>

lemma alloc_owns:
  assumes ok: "arena_ok s" and room: "length (sb_nodes s) < 2 ^ 32 - 1"
  shows "\<exists>s' i. alloc (SLeaf k v) s = Some (s', i) \<and> owns L s' i (TLeaf k v) {unat i} \<and> touches s {} s' {unat i} \<and>
    length (sb_nodes s') \<le> Suc (length (sb_nodes s)) \<and> i \<noteq> NIL"
proof (cases "sb_free s = []")
  case True
  let ?i = "word_of_nat (length (sb_nodes s)) :: node_idx"
  have i: "unat ?i = length (sb_nodes s)" "?i \<noteq> NIL" using unat_not_NIL [OF room] by auto
  show ?thesis using True i by (simp add: alloc_def Let_def owns_def arena_ok_def free_set_def touches_def nth_append)
next
  case False
  then obtain f x where f: "sb_free s = f @ [x]" by (cases "sb_free s" rule: rev_cases) auto
  then have x: "unat x < length (sb_nodes s)" "x \<noteq> NIL" "x \<notin> set f" "unat x \<notin> unat ` set f"
    using ok by (auto simp: arena_ok_def free_set_def simp flip: word_unat_eq_iff)
  have "alloc (SLeaf k v) s = Some (set_node x (SLeaf k v) (s\<lparr> sb_free := f \<rparr>), x)" using x by (simp add: alloc_def f)
  moreover have "touches s {} (set_node x (SLeaf k v) (s\<lparr> sb_free := f \<rparr>)) {unat x}"
    by (auto simp: touches_def free_set_def f nth_list_update)
  ultimately show ?thesis using x ok by (auto simp: owns_def arena_ok_def free_set_def f)
qed

lemma owns_node:
  assumes "owns L s i (TNode a b) S"
  obtains l r c A B where "node_at i s = Some (SInternal l r c)" "i \<noteq> NIL" "unat i < length (sb_nodes s)"
    "sb_nodes s ! unat i = SInternal l r c"
    "reps L (sb_nodes s) l a A" "reps L (sb_nodes s) r b B" "S = insert (unat i) (A \<union> B)" "A \<inter> B = {}" "unat i \<notin> A \<union> B"
    "c \<in> {None, Some (thash L (TNode a b))}" "S \<inter> free_set s = {}" "arena_ok s"
  using assms by (auto simp: owns_def node_at_def)

lemma reps_untouched:
  assumes "reps L (sb_nodes s) i t S" and "touches s T s' T'" and "S \<inter> T = {}" and "S \<inter> free_set s = {}"
  shows "reps L (sb_nodes s') i t S" and "S \<inter> T' = {}" and "S \<inter> free_set s' = {}"
proof -
  have b: "j < length (sb_nodes s)" if "j \<in> S" for j using reps_bound [OF assms(1) that] .
  show "reps L (sb_nodes s') i t S"
  proof (rule reps_frame [OF assms(1)])
    fix j
    assume j: "j \<in> S"
    then have "j \<notin> T" "j \<notin> free_set s" using assms(3,4) by auto
    then show "j < length (sb_nodes s') \<and> sb_nodes s' ! j = sb_nodes s ! j" using b [OF j] assms(2) by (simp add: touches_def)
  qed
  have sub: "T' \<union> free_set s' \<subseteq> T \<union> free_set s \<union> {length (sb_nodes s)..}" using assms(2) by (simp add: touches_def)
  have "j \<notin> T' \<union> free_set s'" if "j \<in> S" for j using sub b [OF that] that assms(3,4) by auto
  then show "S \<inter> T' = {}" "S \<inter> free_set s' = {}" by auto
qed

lemma reps_set_node: "reps L (sb_nodes s) j t T \<Longrightarrow> unat i \<notin> T \<Longrightarrow> reps L (sb_nodes (set_node i x s)) j t T"
proof (rule reps_frame [of L "sb_nodes s"])
  fix n
  assume "reps L (sb_nodes s) j t T" "n \<in> T" "unat i \<notin> T"
  moreover from this have "n \<noteq> unat i" by blast
  ultimately show "n < length (sb_nodes (set_node i x s)) \<and> sb_nodes (set_node i x s) ! n = sb_nodes s ! n"
    using reps_bound by simp
qed simp_all

lemma touches_one:
  assumes "touches (set_node i y s) C s2 S'" and "unat i \<notin> C" and "unat i \<notin> free_set s" and "unat i < length (sb_nodes s)"
  shows "touches s (insert (unat i) (C \<union> D)) (set_node i x s2) (insert (unat i) (D \<union> S'))"
    and "sb_nodes s2 ! unat i = y" and "unat i < length (sb_nodes s2)" and "unat i \<notin> S'" and "unat i \<notin> free_set s2"
proof -
  have w: "length (sb_nodes s) \<le> length (sb_nodes s2)"
    "\<And>j. j < length (sb_nodes s) \<Longrightarrow> j \<notin> C \<Longrightarrow> j \<notin> free_set s \<Longrightarrow> sb_nodes s2 ! j = (sb_nodes s)[unat i := y] ! j"
    "S' \<union> free_set s2 \<subseteq> C \<union> free_set s \<union> {length (sb_nodes s)..}"
    "sb_base_depth s2 = sb_base_depth s" "sb_len s2 = sb_len s" "sb_root s2 = sb_root s"
    using assms(1) by (auto simp: touches_def)
  show "sb_nodes s2 ! unat i = y" "unat i < length (sb_nodes s2)" using w(1) w(2) [of "unat i"] assms(2-4) by simp_all
  show "unat i \<notin> S'" "unat i \<notin> free_set s2" using w(3) assms(2-4) by auto
  have "sb_nodes (set_node i x s2) ! j = sb_nodes s ! j"
    if "j < length (sb_nodes s)" "j \<notin> insert (unat i) (C \<union> D)" "j \<notin> free_set s" for j
    using w(2) [of j] that by simp
  then show "touches s (insert (unat i) (C \<union> D)) (set_node i x s2) (insert (unat i) (D \<union> S'))"
    using w unfolding touches_def by auto
qed

lemma clear_cache_eq: "node_at i s = Some (SInternal l r c) \<Longrightarrow> clear_cache i s = set_node i (SInternal l r None) s"
  by (simp add: clear_cache_def)

text \<open>Replacing one child of a node by the result of an operation on it.\<close>

lemma child_core:
  assumes own: "owns L s i (TNode a b) S" and n: "node_at i s = Some (SInternal l r c)"
  shows "\<exists>C. owns L (set_node i (SInternal l r c0) s) (if right then r else l) (if right then b else a) C \<and>
    (\<forall>s2 child t' S'. touches (set_node i (SInternal l r c0) s) C s2 S' \<longrightarrow> owns L s2 child t' S' \<longrightarrow>
      node_at i s2 = Some (SInternal l r c0) \<and>
      (let s3 = set_node i (if right then SInternal l child None else SInternal child r None) s2
       in \<exists>S3. owns L s3 i (if right then TNode a t' else TNode t' b) S3 \<and> touches s S s3 S3))"
proof -
  obtain A B where r: "i \<noteq> NIL" "unat i < length (sb_nodes s)" "sb_nodes s ! unat i = SInternal l r c"
    "reps L (sb_nodes s) l a A" "reps L (sb_nodes s) r b B" "S = insert (unat i) (A \<union> B)" "A \<inter> B = {}" "unat i \<notin> A \<union> B"
    "S \<inter> free_set s = {}" "arena_ok s"
    by (rule owns_node [OF own]) (use n in auto)
  let ?s1 = "set_node i (SInternal l r c0) s"
  define C D o_idx o_t where "C = (if right then B else A)" and "D = (if right then A else B)"
    and "o_idx = (if right then l else r)" and "o_t = (if right then a else b)"
  have own1: "owns L ?s1 (if right then r else l) (if right then b else a) C"
    using reps_set_node [OF r(4)] reps_set_node [OF r(5)] r by (auto simp: owns_def C_def)
  have other: "reps L (sb_nodes ?s1) o_idx o_t D"
    using reps_set_node [OF r(4)] reps_set_node [OF r(5)] r by (auto simp: D_def o_idx_def o_t_def)
  have disj: "D \<inter> C = {}" "D \<inter> free_set ?s1 = {}" "unat i \<notin> C" "unat i \<notin> D" "unat i \<notin> free_set s" "S = insert (unat i) (C \<union> D)"
    using r by (auto simp: C_def D_def)
  have "node_at i s2 = Some (SInternal l r c0) \<and>
      (let s3 = set_node i (if right then SInternal l child None else SInternal child r None) s2
       in \<exists>S3. owns L s3 i (if right then TNode a t' else TNode t' b) S3 \<and> touches s S s3 S3)"
    if w: "touches ?s1 C s2 S'" and o2: "owns L s2 child t' S'" for s2 child t' S'
  proof -
    note n2 = touches_one [OF w disj(3,5) r(2)]
    note keep2 = reps_untouched [OF other w disj(1,2)]
    let ?x = "if right then SInternal l child None else SInternal child r None"
    have c: "reps L (sb_nodes (set_node i ?x s2)) child t' S'" "reps L (sb_nodes (set_node i ?x s2)) o_idx o_t D"
      using reps_set_node o2 n2(4) keep2(1) disj(4) unfolding owns_def by blast+
    have "owns L (set_node i ?x s2) i (if right then TNode a t' else TNode t' b) (insert (unat i) (D \<union> S'))"
    proof (cases right)
      case True
      then show ?thesis using c n2 r(1) o2 keep2(2,3) disj(4)
        by (simp add: owns_def o_idx_def o_t_def) blast
    next
      case False
      then show ?thesis using c n2 r(1) o2 keep2(2,3) disj(4)
        by (simp add: owns_def o_idx_def o_t_def) blast
    qed
    then show ?thesis using n2(1-3) unfolding disj(6) Let_def by (auto simp: node_at_def)
  qed
  then show ?thesis using own1 by blast
qed

lemma set_child_eq:
  "node_at i s = Some (SInternal l r c) \<Longrightarrow> set_child right i x s = set_node i (if right then SInternal l x c else SInternal x r c) s"
  by (simp add: set_child_def)

lemma child_step:
  assumes own: "owns L s i (TNode a b) S" and n: "node_at i s = Some (SInternal l r c)"
  shows "\<exists>C. owns L (clear_cache i s) (if right then r else l) (if right then b else a) C \<and>
    (\<forall>s2 child t' S'. touches (clear_cache i s) C s2 S' \<longrightarrow> owns L s2 child t' S' \<longrightarrow>
      (\<exists>S3. owns L (set_child right i child s2) i (if right then TNode a t' else TNode t' b) S3 \<and>
        touches s S (set_child right i child s2) S3))"
  using child_core [OF assms, of None right] set_child_eq [of i _ l r None right]
  unfolding clear_cache_eq [OF n] Let_def by fastforce

lemma child_step_clear:
  assumes own: "owns L s i (TNode a b) S" and n: "node_at i s = Some (SInternal l r c)"
  shows "\<exists>C. owns L s (if right then r else l) (if right then b else a) C \<and>
    (\<forall>s2 child t' S'. touches s C s2 S' \<longrightarrow> owns L s2 child t' S' \<longrightarrow>
      (let s3 = clear_cache i (set_child right i child s2)
       in node_at i s3 = Some (if right then SInternal l child None else SInternal child r None) \<and>
       (\<exists>S3. owns L s3 i (if right then TNode a t' else TNode t' b) S3 \<and> touches s S s3 S3)))"
proof -
  have "(sb_nodes s)[unat i := SInternal l r c] = sb_nodes s"
    using n list_update_id [of "sb_nodes s" "unat i"] by (metis node_at_def option.inject option.distinct(1))
  then have same: "set_node i (SInternal l r c) s = s" by (simp add: set_node_def)
  have eq: "clear_cache i (set_child right i x s2) = set_node i (if right then SInternal l x None else SInternal x r None) s2 \<and>
      node_at i (clear_cache i (set_child right i x s2)) = Some (if right then SInternal l x None else SInternal x r None)"
    if "node_at i s2 = Some (SInternal l r c)" for s2 x
    using that by (cases s2) (auto simp: set_child_def clear_cache_def set_node_def node_at_def split: if_splits)
  show ?thesis using child_core [OF assms, of c right] eq unfolding same Let_def by fastforce
qed

section \<open>Insertion refines\<close>

text \<open>The path of a key lies within the key's bits, and how many new slots an insertion may take.\<close>

fun ready :: "b256 \<Rightarrow> nat \<Rightarrow> trie \<Rightarrow> bool" where
  "ready k d TEmpty \<longleftrightarrow> True"
| "ready k d (TLeaf k' v) \<longleftrightarrow> agree d k k'"
| "ready k d (TNode a b) \<longleftrightarrow> d < 256 \<and> ready k (Suc d) (if kb k d then b else a)"

fun new_slots :: "b256 \<Rightarrow> nat \<Rightarrow> trie \<Rightarrow> nat" where
  "new_slots k d TEmpty = 1"
| "new_slots k d (TLeaf k' v) = (if k' = k then 0 else 257 - d)"
| "new_slots k d (TNode a b) = new_slots k (Suc d) (if kb k d then b else a)"

fun fuel_for :: "nat \<Rightarrow> trie \<Rightarrow> nat" where
  "fuel_for d TEmpty = 1"
| "fuel_for d (TLeaf k v) = 2 * (257 - d) + 1"
| "fuel_for d (TNode a b) = 2 * (257 - d)"

lemma fuel_child: "d < 256 \<Longrightarrow> fuel_for (Suc d) c \<le> fuel_for d (TNode a b) - 1"
  by (cases c) auto

lemma tinsert_two:
  assumes "k \<noteq> k'" and "agree d k k'"
  shows "tinsert k v d (tinsert k' v' d (TNode TEmpty TEmpty)) = tpair k v k' v' d"
    and "d < 256" and "ready k' d (TNode TEmpty TEmpty)" and "ready k d (tinsert k' v' d (TNode TEmpty TEmpty))"
    and "new_slots k d (tinsert k' v' d (TNode TEmpty TEmpty)) \<le> 256 - d"
proof -
  show d: "d < 256" using assms agree_all [of d k k'] by fastforce
  show "tinsert k v d (tinsert k' v' d (TNode TEmpty TEmpty)) = tpair k v k' v' d"
    using d assms by (simp add: tpair.simps [of k v k' v' d])
  show "ready k' d (TNode TEmpty TEmpty)" "ready k d (tinsert k' v' d (TNode TEmpty TEmpty))"
    "new_slots k d (tinsert k' v' d (TNode TEmpty TEmpty)) \<le> 256 - d"
    using d assms by auto
qed

lemma insert_at_refines:
  assumes "owns L s slot t S" and "ready k d t" and "d \<le> 256" and "fuel_for d t \<le> n"
    and "length (sb_nodes s) + new_slots k d t < 2 ^ 32"
  shows "\<exists>s' slot' S'. insert_at n slot k v d s = Some (s', slot', tlookup k d t = None) \<and>
    owns L s' slot' (tinsert k v d t) S' \<and> touches s S s' S' \<and>
    length (sb_nodes s') \<le> length (sb_nodes s) + new_slots k d t \<and> (t \<noteq> TEmpty \<longrightarrow> slot' = slot)"
  using assms
proof (induction n arbitrary: slot k v d s t S)
  case 0
  then show ?case by (cases t) auto
next
  case (Suc n)
  show ?case
  proof (cases t)
    case TEmpty
    then have s: "slot = NIL" "S = {}" "arena_ok s" using Suc.prems(1) by (simp_all add: owns_def)
    have "length (sb_nodes s) < 2 ^ 32 - 1" using Suc.prems(5) TEmpty by simp
    from alloc_owns [OF s(3) this, of k v L] obtain s' i where
      "alloc (SLeaf k v) s = Some (s', i)" "owns L s' i (TLeaf k v) {unat i}" "touches s {} s' {unat i}"
      "length (sb_nodes s') \<le> Suc (length (sb_nodes s))" by blast
    then show ?thesis using s TEmpty by auto
  next
    case (TLeaf k' v')
    then have s: "slot \<noteq> NIL" "node_at slot s = Some (SLeaf k' v')" "S = {unat slot}" "unat slot < length (sb_nodes s)"
      using Suc.prems(1) by (auto simp: owns_def node_at_def)
    let ?set = "\<lambda>x. set_node slot x s"
    show ?thesis
    proof (cases "k' = k")
      case True
      have "owns L (?set (SLeaf k v)) slot (TLeaf k v) S" using Suc.prems(1) s TLeaf by (auto simp: owns_def)
      moreover have "touches s S (?set (SLeaf k v)) S" using s(3) by (intro touches_set_node) simp
      ultimately show ?thesis using s True TLeaf by auto
    next
      case False
      then have ag: "k \<noteq> k'" "agree d k k'" using Suc.prems(2) TLeaf by auto
      note two = tinsert_two(1) [OF ag, of v v'] tinsert_two(2,3) [OF ag] tinsert_two(4,5) [OF ag, of v']
      let ?s1 = "?set (SInternal NIL NIL None)"
      have o1: "owns L ?s1 slot (TNode TEmpty TEmpty) S" using Suc.prems(1) s TLeaf by (auto simp: owns_def)
      have w1: "touches s S ?s1 S" using s(3) by (intro touches_set_node) simp
      have f: "fuel_for d (TNode a b) \<le> n" for a b using Suc.prems(4) TLeaf by simp
      have len: "length (sb_nodes s) + (257 - d) < 2 ^ 32" using Suc.prems(5) TLeaf False by simp
      from Suc.IH [OF o1 two(3) Suc.prems(3) f, of v'] len two(2) obtain s2 i2 S2 x2 where
        s2: "insert_at n slot k' v' d ?s1 = Some (s2, i2, x2)" "owns L s2 i2 (tinsert k' v' d (TNode TEmpty TEmpty)) S2"
          "touches ?s1 S s2 S2" "length (sb_nodes s2) \<le> length (sb_nodes s) + 1" "i2 = slot"
        by fastforce
      have f2: "fuel_for d (tinsert k' v' d (TNode TEmpty TEmpty)) \<le> n" using f by simp
      let ?T = "tinsert k' v' d (TNode TEmpty TEmpty)"
      have room: "length (sb_nodes s2) + new_slots k d ?T < 2 ^ 32" using s2(4) len two(2,5) by linarith
      obtain s3 i3 S3 where s3: "insert_at n i2 k v d s2 = Some (s3, i3, tlookup k d ?T = None)"
        "owns L s3 i3 (tinsert k v d ?T) S3" "touches s2 S2 s3 S3"
        "length (sb_nodes s3) \<le> length (sb_nodes s2) + new_slots k d ?T" "?T \<noteq> TEmpty \<longrightarrow> i3 = i2"
        using Suc.IH [OF s2(2) two(4) Suc.prems(3) f2 room, of v] by blast
      have "touches s S s3 S3" using touches_trans [OF touches_trans [OF w1 s2(3)] s3(3)] .
      moreover have "length (sb_nodes s3) \<le> length (sb_nodes s) + (257 - d)" using s2(4) s3(4) two(2,5) by linarith
      moreover have "owns L s3 slot (tinsert k v d t) S3" using s3(2,5) s2(5) False TLeaf unfolding two(1) by (auto split: if_splits)
      moreover have "insert_at (Suc n) slot k v d s = Some (s3, slot, tlookup k d t = None)"
        using s(1,2) s2(1,5) s3(1) False TLeaf by simp
      moreover have "new_slots k d t = 257 - d" using False TLeaf by simp
      ultimately show ?thesis by auto
    qed
  next
    case (TNode a b)
    obtain l r c where n: "node_at slot s = Some (SInternal l r c)" "slot \<noteq> NIL"
      using owns_node Suc.prems(1) TNode by metis
    let ?right = "kb k d"
    have d: "d < 256" and rdy: "ready k (Suc d) (if ?right then b else a)" using Suc.prems(2) TNode by auto
    obtain C where o1: "owns L (clear_cache slot s) (if ?right then r else l) (if ?right then b else a) C"
      and st: "\<And>s2 child t' S'. touches (clear_cache slot s) C s2 S' \<Longrightarrow> owns L s2 child t' S' \<Longrightarrow>
        (\<exists>S3. owns L (set_child ?right slot child s2) slot (if ?right then TNode a t' else TNode t' b) S3 \<and>
        touches s S (set_child ?right slot child s2) S3)"
      using child_step [of L s slot a b S l r c ?right] Suc.prems(1) n(1) unfolding TNode by blast
    have f: "fuel_for (Suc d) (if ?right then b else a) \<le> n"
      using fuel_child [OF d] Suc.prems(4) TNode by (metis Suc_le_D diff_Suc_1 diff_le_mono le_trans)
    have cl: "length (sb_nodes (clear_cache slot s)) = length (sb_nodes s)" using n(1) by (simp add: clear_cache_def)
    from Suc.IH [OF o1 rdy _ f, of v] d cl Suc.prems(5) obtain s2 i2 S2 where
      s2: "insert_at n (if ?right then r else l) k v (Suc d) (clear_cache slot s) =
          Some (s2, i2, tlookup k (Suc d) (if ?right then b else a) = None)"
        "owns L s2 i2 (tinsert k v (Suc d) (if ?right then b else a)) S2" "touches (clear_cache slot s) C s2 S2"
        "length (sb_nodes s2) \<le> length (sb_nodes s) + new_slots k d t"
      unfolding TNode by fastforce
    have sc: "length (sb_nodes (set_child ?right slot i2 s2)) = length (sb_nodes s2)"
      by (simp add: set_child_def split: option.split snode.split)
    from st [OF s2(3,2)] obtain S3 where
      "owns L (set_child ?right slot i2 s2) slot (tinsert k v d t) S3" "touches s S (set_child ?right slot i2 s2) S3"
      unfolding TNode by (cases ?right) auto
    moreover have "insert_at (Suc n) slot k v d s = Some (set_child ?right slot i2 s2, slot, tlookup k d t = None)"
      using n s2(1) d key_bit_kb [OF d, of k] TNode by simp
    ultimately show ?thesis using s2(4) sc by auto
  qed
qed

section \<open>Removal refines\<close>

lemma owns_free:
  assumes "owns L s i t S" and "j \<noteq> NIL" and "unat j < length (sb_nodes s)" and "unat j \<notin> S" and "unat j \<notin> free_set s"
  shows "owns L (free_slot j s) i t S"
  using assms by (auto simp: owns_def free_slot_def arena_ok_def free_set_def)

lemma touches_free:
  assumes "unat j \<in> S" and "S' \<subseteq> S"
  shows "touches s S (free_slot j s) S'"
  using assms by (auto simp: touches_def free_slot_def free_set_def)

lemma is_leaf_reps:
  assumes "reps L (sb_nodes s) i t S"
  shows "is_leaf i s \<longleftrightarrow> (\<exists>k v. t = TLeaf k v)" and "i = NIL \<longleftrightarrow> t = TEmpty"
  using assms by (cases t; auto simp: is_leaf_def node_at_def)+

lemma collapse_owns:
  assumes own: "owns L s slot (TNode a b) S" and n: "node_at slot s = Some (SInternal l r c)"
  shows "\<exists>S'. owns L (fst (collapse slot l r s)) (snd (collapse slot l r s)) (tcollapse a b) S' \<and>
    touches s S (fst (collapse slot l r s)) S'"
proof -
  obtain A B where r: "slot \<noteq> NIL" "unat slot < length (sb_nodes s)" "sb_nodes s ! unat slot = SInternal l r c"
    "reps L (sb_nodes s) l a A" "reps L (sb_nodes s) r b B" "S = insert (unat slot) (A \<union> B)" "A \<inter> B = {}" "unat slot \<notin> A \<union> B"
    "S \<inter> free_set s = {}" "arena_ok s"
    by (rule owns_node [OF own]) (use n in auto)
  note la = is_leaf_reps [OF r(4)] and lb = is_leaf_reps [OF r(5)]
  have gone: "owns L (free_slot slot s) i t T \<and> touches s S (free_slot slot s) T"
    if "reps L (sb_nodes s) i t T" "T \<subseteq> A \<union> B" for i t T
    using that r by (intro conjI owns_free touches_free) (auto simp: owns_def)
  consider (none) "a = TEmpty" "b = TEmpty" | (left) k v where "a = TLeaf k v" "b = TEmpty"
    | (right) k v where "a = TEmpty" "b = TLeaf k v" | (both) "tcollapse a b = TNode a b"
      "\<not> (a = TEmpty \<and> b = TEmpty)" "\<not> (b = TEmpty \<and> is_leaf l s)" "\<not> (a = TEmpty \<and> is_leaf r s)"
    unfolding la(1) lb(1) by (cases a; cases b) auto
  then show ?thesis
  proof cases
    case none
    then show ?thesis using gone [of NIL TEmpty "{}"] la lb by (intro exI [of _ "{}"]) (simp add: collapse_def)
  next
    case left
    then show ?thesis using gone [OF r(4)] la lb by (intro exI [of _ A]) (simp add: collapse_def)
  next
    case right
    then show ?thesis using gone [OF r(5)] la lb by (intro exI [of _ B]) (auto simp: collapse_def)
  next
    case both
    then have "collapse slot l r s = (s, slot)" using la(2) lb(2) by (auto simp: collapse_def)
    then show ?thesis using own both(1) by auto
  qed
qed

lemma remove_at_refines:
  assumes "owns L s slot t S" and "twf d t" and "d \<le> 256" and "258 - d \<le> n"
  shows "\<exists>s' slot' S'. remove_at n slot k d s = Some (s', slot', tlookup k d t \<noteq> None) \<and>
    owns L s' slot' (tremove k d t) S' \<and> touches s S s' S'"
  using assms
proof (induction n arbitrary: slot d s t S)
  case (Suc n)
  show ?case
  proof (cases t)
    case TEmpty
    then show ?thesis using Suc.prems(1) by (auto simp: owns_def)
  next
    case (TLeaf k' v')
    then have s: "slot \<noteq> NIL" "node_at slot s = Some (SLeaf k' v')" "S = {unat slot}" "unat slot < length (sb_nodes s)"
      using Suc.prems(1) by (auto simp: owns_def node_at_def)
    have "owns L (free_slot slot s) NIL TEmpty {}" "touches s S (free_slot slot s) {}"
      using Suc.prems(1) s by (intro owns_free touches_free; simp add: owns_def)+
    then show ?thesis using s Suc.prems(1) TLeaf by (cases "k' = k") auto
  next
    case (TNode a b)
    obtain l r c where n: "node_at slot s = Some (SInternal l r c)" "slot \<noteq> NIL"
      using owns_node Suc.prems(1) TNode by metis
    let ?right = "kb k d"
    have d: "d < 256" and wf: "twf (Suc d) (if ?right then b else a)" using Suc.prems(2) TNode by auto
    obtain C where o1: "owns L s (if ?right then r else l) (if ?right then b else a) C"
      and st: "\<And>s2 child t' S'. touches s C s2 S' \<Longrightarrow> owns L s2 child t' S' \<Longrightarrow>
        node_at slot (clear_cache slot (set_child ?right slot child s2)) =
          Some (if ?right then SInternal l child None else SInternal child r None) \<and>
        (\<exists>S3. owns L (clear_cache slot (set_child ?right slot child s2)) slot (if ?right then TNode a t' else TNode t' b) S3 \<and>
          touches s S (clear_cache slot (set_child ?right slot child s2)) S3)"
      using child_step_clear [of L s slot a b S l r c ?right] Suc.prems(1) n(1) unfolding TNode Let_def by blast
    obtain s2 i2 S2 where s2: "remove_at n (if ?right then r else l) k (Suc d) s =
          Some (s2, i2, tlookup k (Suc d) (if ?right then b else a) \<noteq> None)"
        "owns L s2 i2 (tremove k (Suc d) (if ?right then b else a)) S2" "touches s C s2 S2"
      using Suc.IH [OF o1 wf] d Suc.prems(4) by fastforce
    let ?s3 = "clear_cache slot (set_child ?right slot i2 s2)"
    let ?l = "if ?right then l else i2" and ?r = "if ?right then i2 else r"
    have n3: "node_at slot ?s3 = Some (SInternal ?l ?r None)" using st [OF s2(3,2)] by auto
    obtain S3 where S3: "owns L ?s3 slot (if ?right then TNode a (tremove k (Suc d) b) else TNode (tremove k (Suc d) a) b) S3"
      "touches s S ?s3 S3" using st [OF s2(3,2)] by (auto split: if_splits)
    obtain S4 where "owns L (fst (collapse slot ?l ?r ?s3)) (snd (collapse slot ?l ?r ?s3)) (tremove k d t) S4"
      "touches ?s3 S3 (fst (collapse slot ?l ?r ?s3)) S4"
      using collapse_owns [OF _ n3, of L _ _ S3] S3(1) unfolding TNode by (cases ?right) fastforce+
    moreover have "remove_at (Suc n) slot k d s = Some (fst (collapse slot ?l ?r ?s3), snd (collapse slot ?l ?r ?s3), tlookup k d t \<noteq> None)"
      using n s2(1) n3 key_bit_kb [OF d, of k] TNode by (simp add: Let_def case_prod_beta)
    ultimately show ?thesis using touches_trans [OF S3(2)] by auto
  qed
qed simp

section \<open>Lookups and hashes refine\<close>

lemma get_from_refines:
  assumes "reps L (sb_nodes s) i t S" and "twf d t" and "d \<le> 256" and "258 - d \<le> n"
  shows "get_from n i d k s = Some (tlookup k d t)"
  using assms
proof (induction n arbitrary: i d t S)
  case (Suc n)
  show ?case
  proof (cases t)
    case (TNode a b)
    then obtain l r c A B where r: "i \<noteq> NIL" "node_at i s = Some (SInternal l r c)"
      "reps L (sb_nodes s) l a A" "reps L (sb_nodes s) r b B" using Suc.prems(1) by (auto simp: node_at_def)
    have d: "d < 256" and wf: "twf (Suc d) a" "twf (Suc d) b" using Suc.prems(2) TNode by auto
    have "get_from n (if kb k d then r else l) (Suc d) k s = Some (tlookup k (Suc d) (if kb k d then b else a))"
      using Suc.IH [OF r(3) wf(1)] Suc.IH [OF r(4) wf(2)] d Suc.prems(4) by auto
    then show ?thesis using r(1,2) key_bit_kb [OF d, of k] TNode by simp
  qed (use Suc.prems in \<open>auto simp: node_at_def\<close>)
qed simp

lemma node_hash_refines:
  assumes "owns L s i t S" and "twf d t" and "d \<le> 256" and "258 - d \<le> n"
  shows "\<exists>s'. node_hash L n i s = Some (s', thash L t) \<and> owns L s' i t S \<and> touches s S s' S"
  using assms
proof (induction n arbitrary: i d s t S)
  case (Suc n)
  show ?case
  proof (cases t)
    case TEmpty
    then show ?thesis using Suc.prems(1) by (auto simp: owns_def)
  next
    case (TLeaf k v)
    then show ?thesis using Suc.prems(1) by (auto simp: owns_def node_at_def)
  next
    case (TNode a b)
    then obtain l r c A B where r: "i \<noteq> NIL" "unat i < length (sb_nodes s)" "sb_nodes s ! unat i = SInternal l r c"
      "reps L (sb_nodes s) l a A" "reps L (sb_nodes s) r b B" "S = insert (unat i) (A \<union> B)" "A \<inter> B = {}" "unat i \<notin> A \<union> B"
      "c \<in> {None, Some (thash L t)}" "S \<inter> free_set s = {}" "arena_ok s"
      using Suc.prems(1) by (auto simp: owns_def)
    have d: "d < 256" and wf: "twf (Suc d) a" "twf (Suc d) b" using Suc.prems(2) TNode by auto
    have n: "node_at i s = Some (SInternal l r c)" using r(2,3) by (simp add: node_at_def)
    show ?thesis
    proof (cases c)
      case (Some h)
      then show ?thesis using r(1,9) n Suc.prems(1) by auto
    next
      case None
      have oa: "owns L s l a A" using r by (auto simp: owns_def)
      then obtain s1 where s1: "node_hash L n l s = Some (s1, thash L a)" "owns L s1 l a A" "touches s A s1 A"
        using Suc.IH [OF oa wf(1)] d Suc.prems(4) by fastforce
      have Bd: "B \<inter> A = {}" "B \<inter> free_set s = {}" using r(6,7,10) by auto
      note keep1 = reps_untouched [OF r(5) s1(3) Bd]
      have ob: "owns L s1 r b B" using keep1 s1(2) by (simp add: owns_def)
      then obtain s2 where s2: "node_hash L n r s1 = Some (s2, thash L b)" "owns L s2 r b B" "touches s1 B s2 B"
        using Suc.IH [OF ob wf(2)] d Suc.prems(4) by fastforce
      have ra: "reps L (sb_nodes s1) l a A" and Ad: "A \<inter> B = {}" "A \<inter> free_set s1 = {}"
        using s1(2) r(7) by (auto simp: owns_def)
      note keep2 = reps_untouched [OF ra s2(3) Ad]
      let ?x = "SInternal l r (Some (thash L t))"
      let ?s3 = "set_node i ?x s2"
      have i2: "unat i < length (sb_nodes s2)" using r(2) s1(3) s2(3) by (simp add: touches_def)
      have free: "unat i \<notin> free_set s2"
        using s1(3) s2(3) r by (auto simp: touches_def dest!: subsetD)
      have "reps L (sb_nodes ?s3) l a A" "reps L (sb_nodes ?s3) r b B"
        using reps_set_node [OF keep2(1)] reps_set_node [of L s2 r b B] s2(2) r(8) by (auto simp: owns_def)
      then have "owns L ?s3 i t S"
        using TNode i2 free r(1,6,7,8) s2(2) keep2(2,3) by (auto simp: owns_def)
      moreover have "touches s S ?s3 S"
      proof -
        have "A \<union> S = S" "B \<union> S = S" "unat i \<in> S" using r(6) by auto
        then show ?thesis
          using touches_trans [of s S s1 S s2 S] touches_trans [of s S s2 S ?s3 S] touches_set_node [of i S s2 ?x]
            touches_frame [OF s1(3), of S] touches_frame [OF s2(3), of S] by simp
      qed
      moreover have "node_hash L (Suc n) i s = Some (?s3, thash L t)"
        using r(1) n None s1(1) s2(1) TNode by (simp add: Let_def)
      ultimately show ?thesis by blast
    qed
  qed
qed simp

fun leaf_count :: "trie \<Rightarrow> nat" where
  "leaf_count TEmpty = 0"
| "leaf_count (TLeaf _ _) = 1"
| "leaf_count (TNode a b) = leaf_count a + leaf_count b"

fun node_count :: "trie \<Rightarrow> nat" where
  "node_count TEmpty = 0"
| "node_count (TLeaf _ _) = 0"
| "node_count (TNode a b) = 1 + node_count a + node_count b"

lemma tkeys_finite [simp]: "finite (tkeys t)"
  by (induction t) auto

lemma leaf_count_card: "twf d t \<Longrightarrow> leaf_count t = card (tkeys t)"
proof (induction t arbitrary: d)
  case (TNode a b)
  then have "tkeys a \<inter> tkeys b = {}" "leaf_count a = card (tkeys a)" "leaf_count b = card (tkeys b)" by auto
  then show ?case by (simp add: card_Un_disjoint)
qed auto

lemma collect_stats_refines:
  assumes "reps L (sb_nodes s) i t S" and "twf d t" and "d \<le> 256" and "258 - d \<le> n"
  shows "collect_stats n i s st = Some (st\<lparr> internal_nodes := internal_nodes st + node_count t,
     leaf_nodes := leaf_nodes st + leaf_count t,
     serialized_bytes := serialized_bytes st + of_nat (96 * node_count t + 64 * leaf_count t) \<rparr>)"
  using assms
proof (induction n arbitrary: i d t S st)
  case (Suc n)
  show ?case
  proof (cases t)
    case (TNode a b)
    then obtain l r c A B where r: "i \<noteq> NIL" "node_at i s = Some (SInternal l r c)"
      "reps L (sb_nodes s) l a A" "reps L (sb_nodes s) r b B" using Suc.prems(1) by (auto simp: node_at_def)
    have d: "Suc d \<le> 256" "258 - Suc d \<le> n" and wf: "twf (Suc d) a" "twf (Suc d) b" using Suc.prems TNode by auto
    show ?thesis using r(1,2) Suc.IH [OF r(3) wf(1) d] Suc.IH [OF r(4) wf(2) d] TNode by (simp add: algebra_simps)
  qed (use Suc.prems in \<open>auto simp: node_at_def\<close>)
qed simp

lemma node_hash_length: "node_hash L n i s = Some (s', h) \<Longrightarrow> length (sb_nodes s') = length (sb_nodes s)"
  by (induction n arbitrary: i s s' h)
    (auto simp: Let_def case_prod_beta split: if_splits option.splits snode.splits bind_splits)

section \<open>The tree as a map\<close>

text \<open>The map a tree holds; the keys agree on the bits above its base depth.\<close>

definition denotes :: "ext_lib \<Rightarrow> sbmt \<Rightarrow> trie \<Rightarrow> bool" where
  "denotes L s t \<longleftrightarrow> (\<exists>S. owns L s (sb_root s) t S) \<and> twf (sb_base_depth s) t \<and> sb_base_depth s \<le> 256 \<and>
     sb_len s = card (tkeys t)"

lemma fuel_enough: "258 - d \<le> SBMT_FUEL"
  by (rule le_trans [OF diff_le_self]) (simp add: SBMT_FUEL_def)

lemma denotes_new: "d \<le> 256 \<Longrightarrow> denotes L (with_base_depth d) TEmpty"
  by (auto simp: denotes_def with_base_depth_def owns_def arena_ok_def free_set_def)

lemma ready_aligned:
  assumes "aligned d (insert k (tkeys t))" and "twf d t"
  shows "ready k d t \<and> new_slots k d t \<le> 257"
  using assms
proof (induction t arbitrary: d)
  case (TNode a b)
  note c = aligned_child [OF TNode.prems]
  have "ready k (Suc d) (if kb k d then b else a) \<and> new_slots k (Suc d) (if kb k d then b else a) \<le> 257"
    using TNode.IH(1) [OF c(2)] TNode.IH(2) [OF c(1)] TNode.prems(2) by simp
  then show ?case using TNode.prems(2) by simp
qed (simp_all add: aligned_def)

lemma remove_at_length: "remove_at n slot k d s = Some (s', r) \<Longrightarrow> length (sb_nodes s') = length (sb_nodes s)"
proof (induction n arbitrary: slot d s s' r)
  case (Suc n)
  have c: "length (sb_nodes (clear_cache i s)) = length (sb_nodes s)" "length (sb_nodes (set_child x i j s)) = length (sb_nodes s)"
    "length (sb_nodes (free_slot i s)) = length (sb_nodes s)" "length (sb_nodes (fst (collapse i j l s))) = length (sb_nodes s)"
    for i j l x s
    by (auto simp: clear_cache_def set_child_def free_slot_def collapse_def split: option.splits snode.splits)
  from Suc.prems show ?case
    by (auto simp: c Let_def case_prod_beta split: if_splits option.splits snode.splits bind_splits dest!: Suc.IH)
qed simp

lemma owns_root: "owns L (s\<lparr> sb_root := r \<rparr>) i t S = owns L s i t S" "owns L (s\<lparr> sb_len := n \<rparr>) i t S = owns L s i t S"
  by (simp_all add: owns_def arena_ok_def free_set_def)

lemma insert_hashed_denotes:
  assumes "denotes L s t" and "aligned (sb_base_depth s) (insert k (tkeys t))" and "length (sb_nodes s) + 257 < 2 ^ 32"
  shows "\<exists>s'. insert_hashed k v s = Some s' \<and> denotes L s' (tinsert k v (sb_base_depth s) t) \<and>
    sb_base_depth s' = sb_base_depth s \<and> length (sb_nodes s') \<le> length (sb_nodes s) + 257"
proof -
  let ?d = "sb_base_depth s"
  obtain S where S: "owns L s (sb_root s) t S" and wf: "twf ?d t" "?d \<le> 256" "sb_len s = card (tkeys t)"
    using assms(1) by (auto simp: denotes_def)
  note rd = ready_aligned [OF assms(2) wf(1)]
  have "fuel_for ?d t \<le> SBMT_FUEL" by (cases t) (simp_all add: SBMT_FUEL_def)
  then obtain s' r' S' where s': "insert_at SBMT_FUEL (sb_root s) k v ?d s = Some (s', r', tlookup k ?d t = None)"
    "owns L s' r' (tinsert k v ?d t) S'" "touches s S s' S'" "length (sb_nodes s') \<le> length (sb_nodes s) + 257"
    using insert_at_refines [OF S conjunct1 [OF rd] wf(2), of SBMT_FUEL v] rd assms(3) by fastforce
  have "card (insert k (tkeys t)) = (if tlookup k ?d t = None then card (tkeys t) + 1 else card (tkeys t))"
    using tlookup_keys [OF wf(1), of k] by (auto simp: insert_absorb)
  then show ?thesis
    using s' wf tinsert_wf [OF assms(2) wf(1)] tinsert_keys [OF assms(2) wf(1)]
    by (auto simp: insert_hashed_def denotes_def owns_root touches_def Let_def)
qed

lemma sbmt_remove_denotes:
  assumes "denotes L s t"
  shows "\<exists>s'. sbmt_remove k s = Some (s', tlookup k (sb_base_depth s) t \<noteq> None) \<and>
    denotes L s' (tremove k (sb_base_depth s) t) \<and> sb_base_depth s' = sb_base_depth s \<and>
    length (sb_nodes s') \<le> length (sb_nodes s)"
proof -
  let ?d = "sb_base_depth s"
  obtain S where S: "owns L s (sb_root s) t S" and wf: "twf ?d t" "?d \<le> 256" "sb_len s = card (tkeys t)"
    using assms(1) by (auto simp: denotes_def)
  obtain s' r' S' where s': "remove_at SBMT_FUEL (sb_root s) k ?d s = Some (s', r', tlookup k ?d t \<noteq> None)"
    "owns L s' r' (tremove k ?d t) S'" "touches s S s' S'"
    using remove_at_refines [OF S wf(1,2) fuel_enough] by blast
  have "length (sb_nodes s') \<le> length (sb_nodes s)" using remove_at_length [OF s'(1)] by simp
  then show ?thesis
    using s' wf tremove_wf [OF wf(1)] tremove_keys [OF wf(1)] tlookup_keys [OF wf(1), of k]
    by (auto simp: sbmt_remove_def denotes_def owns_root touches_def Let_def card_Diff_singleton_if)
qed

lemma sbmt_get_denotes: "denotes L s t \<Longrightarrow> sbmt_get k s = Some (tlookup k (sb_base_depth s) t)"
  using get_from_refines fuel_enough by (auto simp: denotes_def owns_def sbmt_get_def)

lemma root_hash_denotes:
  assumes "denotes L s t"
  shows "\<exists>s'. root_hash L s = Some (s', thash L t) \<and> denotes L s' t \<and> sb_base_depth s' = sb_base_depth s \<and>
    length (sb_nodes s') = length (sb_nodes s)"
proof -
  obtain S where S: "owns L s (sb_root s) t S" and wf: "twf (sb_base_depth s) t" "sb_base_depth s \<le> 256"
    using assms by (auto simp: denotes_def)
  obtain s' where s': "node_hash L SBMT_FUEL (sb_root s) s = Some (s', thash L t)" "owns L s' (sb_root s) t S" "touches s S s' S"
    using node_hash_refines [OF S wf fuel_enough] by blast
  then show ?thesis using assms node_hash_length [OF s'(1)] by (auto simp: root_hash_def denotes_def touches_def)
qed

lemma node_stats_denotes:
  assumes "denotes L s t"
  shows "sbmt_node_stats s = Some \<lparr> internal_nodes = node_count t, leaf_nodes = sb_len s,
    serialized_bytes = of_nat (96 * node_count t + 64 * sb_len s) \<rparr>"
proof -
  obtain S where "reps L (sb_nodes s) (sb_root s) t S" and wf: "twf (sb_base_depth s) t" "sb_base_depth s \<le> 256" "sb_len s = card (tkeys t)"
    using assms by (auto simp: denotes_def owns_def)
  then show ?thesis
    using collect_stats_refines [OF _ wf(1,2) fuel_enough] leaf_count_card [OF wf(1)] by (simp add: sbmt_node_stats_def)
qed

section \<open>Histories of updates\<close>

definition update_map :: "ext_lib \<Rightarrow> b256 \<times> bytes option \<Rightarrow> (b256 \<rightharpoonup> b256) \<Rightarrow> (b256 \<rightharpoonup> b256)" where
  "update_map L u m = m(fst u := map_option (hash_value L) (snd u))"

text \<open>A tree is updated block by block, and its root hash is read after every block.\<close>

fun run_blocks :: "ext_lib \<Rightarrow> (b256 \<times> bytes option) list list \<Rightarrow> sbmt \<Rightarrow> sbmt option" where
  "run_blocks L [] s = Some s"
| "run_blocks L (us # bs) s =
     Option.bind (apply_batch L us s) (\<lambda>s. Option.bind (root_hash L s) (\<lambda>(s, _). run_blocks L bs s))"

lemma apply_update_denotes:
  assumes "denotes L s t" and "sb_base_depth s = d" and "aligned d (insert k (tkeys t))" and "length (sb_nodes s) + 257 < 2 ^ 32"
  shows "\<exists>s' t'. (case v of Some x \<Rightarrow> sbmt_insert L k x s | None \<Rightarrow> map_option fst (sbmt_remove k s)) = Some s' \<and>
    denotes L s' t' \<and> sb_base_depth s' = d \<and> tkeys t' \<subseteq> insert k (tkeys t) \<and>
    (\<lambda>x. tlookup x d t') = update_map L (k, v) (\<lambda>x. tlookup x d t) \<and>
    length (sb_nodes s') \<le> length (sb_nodes s) + 257"
proof (cases v)
  case None
  have wf: "twf d t" using assms by (simp add: denotes_def)
  show ?thesis
    using sbmt_remove_denotes [OF assms(1), of k] assms(2) tremove_keys [OF wf, of k] tlookup_tremove [OF wf, of _ k] None
    by (fastforce simp: update_map_def fun_eq_iff)
next
  case (Some x)
  have wf: "twf d t" using assms by (simp add: denotes_def)
  show ?thesis
    using insert_hashed_denotes [OF assms(1), of k "hash_value L x"] assms(2-) Some
      tinsert_keys [OF assms(3) wf] tlookup_tinsert [OF assms(3) wf]
    by (fastforce simp: update_map_def sbmt_insert_def fun_eq_iff)
qed

lemma apply_batch_denotes:
  assumes "denotes L s t" and "sb_base_depth s = d" and "aligned d K" and "tkeys t \<union> fst ` set us \<subseteq> K"
    and "length (sb_nodes s) + 257 * length us < 2 ^ 32"
  shows "\<exists>s' t'. apply_batch L us s = Some s' \<and> denotes L s' t' \<and> sb_base_depth s' = d \<and> tkeys t' \<subseteq> K \<and>
    (\<lambda>x. tlookup x d t') = fold (update_map L) us (\<lambda>x. tlookup x d t) \<and>
    length (sb_nodes s') \<le> length (sb_nodes s) + 257 * length us"
  using assms
proof (induction us arbitrary: s t)
  case (Cons u us)
  obtain k v where u: "u = (k, v)" by (cases u)
  have al: "aligned d (insert k (tkeys t))" using Cons.prems(3,4) u by (auto intro: aligned_mono)
  obtain s1 t1 where s1: "(case v of Some x \<Rightarrow> sbmt_insert L k x s | None \<Rightarrow> map_option fst (sbmt_remove k s)) = Some s1"
    "denotes L s1 t1" "sb_base_depth s1 = d" "tkeys t1 \<subseteq> insert k (tkeys t)"
    "(\<lambda>x. tlookup x d t1) = update_map L (k, v) (\<lambda>x. tlookup x d t)" "length (sb_nodes s1) \<le> length (sb_nodes s) + 257"
    using apply_update_denotes [OF Cons.prems(1,2) al, of v] Cons.prems(5) by auto
  have "tkeys t1 \<union> fst ` set us \<subseteq> K" "length (sb_nodes s1) + 257 * length us < 2 ^ 32"
    using s1(4,6) Cons.prems(4,5) u by auto
  from Cons.IH [OF s1(2,3) Cons.prems(3) this] show ?case using s1(1,5,6) u by fastforce
qed auto

lemma run_blocks_denotes:
  assumes "denotes L s t" and "sb_base_depth s = d" and "aligned d K" and "tkeys t \<union> fst ` set (concat bs) \<subseteq> K"
    and "length (sb_nodes s) + 257 * length (concat bs) < 2 ^ 32"
  shows "\<exists>s' t'. run_blocks L bs s = Some s' \<and> denotes L s' t' \<and> sb_base_depth s' = d \<and> tkeys t' \<subseteq> K \<and>
    (\<lambda>x. tlookup x d t') = fold (update_map L) (concat bs) (\<lambda>x. tlookup x d t)"
  using assms
proof (induction bs arbitrary: s t)
  case (Cons us bs)
  have sub: "tkeys t \<union> fst ` set us \<subseteq> K" "fst ` set (concat bs) \<subseteq> K" using Cons.prems(4) by auto
  obtain s1 t1 where s1: "apply_batch L us s = Some s1" "denotes L s1 t1" "sb_base_depth s1 = d" "tkeys t1 \<subseteq> K"
    "(\<lambda>x. tlookup x d t1) = fold (update_map L) us (\<lambda>x. tlookup x d t)" "length (sb_nodes s1) \<le> length (sb_nodes s) + 257 * length us"
    using apply_batch_denotes [OF Cons.prems(1,2,3) sub(1)] Cons.prems(5) by auto
  obtain s2 h where s2: "root_hash L s1 = Some (s2, h)" "denotes L s2 t1" "sb_base_depth s2 = d" "length (sb_nodes s2) = length (sb_nodes s1)"
    using root_hash_denotes [OF s1(2)] s1(3) by auto
  have "tkeys t1 \<union> fst ` set (concat bs) \<subseteq> K" "length (sb_nodes s2) + 257 * length (concat bs) < 2 ^ 32"
    using s1(4,6) s2(4) sub(2) Cons.prems(5) by (simp_all del: set_concat)
  from Cons.IH [OF s2(2,3) Cons.prems(3) this] show ?case using s1(1,5) s2(1) by fastforce
qed auto

end
