(* ===== verification/N42_SbmtProof.thy ===== *)
theory N42_SbmtProof
  imports N42_Sbmt
begin

unbundle bit_operations_syntax

text \<open>
  Proofs of membership and of absence: \<open>Sbmt::prove\<close>, \<open>BmtProof::verify\<close> and the depth-4 tree over
  the shard roots with \<open>ShardedBmtProof::verify_for_key\<close>, all of \<^verbatim>\<open>n42-bmt-core/src/lib.rs\<close>. A proof the
  tree makes is accepted, and a proof the verifier accepts states what the tree holds, as long as no
  two of the strings hashed collide.
\<close>

section \<open>Proofs for one tree\<close>

record bmt_proof =
  pf_key :: b256
  pf_value_hash :: "b256 option"
  pf_siblings :: "b256 list"
  pf_other_leaf :: "(b256 \<times> b256) option"

text \<open>The loop of \<open>prove\<close>; the sibling hashes fill the caches of the tree.\<close>

fun prove_from :: "ext_lib \<Rightarrow> nat \<Rightarrow> node_idx \<Rightarrow> nat \<Rightarrow> b256 \<Rightarrow> b256 list \<Rightarrow> sbmt \<Rightarrow> (sbmt \<times> bmt_proof) option" where
  "prove_from L 0 idx depth key siblings s = None"
| "prove_from L (Suc n) idx depth key siblings s =
     (if idx = NIL
      then Some (s, \<lparr> pf_key = key, pf_value_hash = None, pf_siblings = siblings, pf_other_leaf = None \<rparr>)
      else case node_at idx s of
        None \<Rightarrow> None
      | Some (SLeaf ek ev) \<Rightarrow>
          if ek = key
          then Some (s, \<lparr> pf_key = key, pf_value_hash = Some ev, pf_siblings = siblings, pf_other_leaf = None \<rparr>)
          else Some (s, \<lparr> pf_key = key, pf_value_hash = None, pf_siblings = siblings, pf_other_leaf = Some (ek, ev) \<rparr>)
      | Some (SInternal l r _) \<Rightarrow>
          Option.bind (key_bit key depth) (\<lambda>right.
            if right
            then Option.bind (node_hash L SBMT_FUEL l s) (\<lambda>(s, h). prove_from L n r (depth + 1) key (siblings @ [h]) s)
            else Option.bind (node_hash L SBMT_FUEL r s) (\<lambda>(s, h). prove_from L n l (depth + 1) key (siblings @ [h]) s)))"

definition prove :: "ext_lib \<Rightarrow> b256 \<Rightarrow> sbmt \<Rightarrow> (sbmt \<times> bmt_proof) option" where
  "prove L key s = prove_from L SBMT_FUEL (sb_root s) (sb_base_depth s) key [] s"

definition is_inclusion :: "bmt_proof \<Rightarrow> bool" where
  "is_inclusion p \<longleftrightarrow> pf_value_hash p \<noteq> None"

definition path_len :: "bmt_proof \<Rightarrow> nat" where
  "path_len p = length (pf_siblings p)"

definition encoded_len :: "bmt_proof \<Rightarrow> nat" where
  "encoded_len p = 32 + 1 + (if pf_value_hash p \<noteq> None then 32 else 0) + 4 + length (pf_siblings p) * 32 + 1
     + (if pf_other_leaf p \<noteq> None then 64 else 0)"

fun shares_prefix_range :: "b256 \<Rightarrow> b256 \<Rightarrow> nat \<Rightarrow> nat \<Rightarrow> bool option" where
  "shares_prefix_range a b base 0 = Some True"
| "shares_prefix_range a b base (Suc n) =
     Option.bind (key_bit a base) (\<lambda>x. Option.bind (key_bit b base) (\<lambda>y.
       if x = y then shares_prefix_range a b (base + 1) n else Some False))"

text \<open>The siblings are folded from the last to the first.\<close>

fun fold_siblings :: "ext_lib \<Rightarrow> b256 \<Rightarrow> nat \<Rightarrow> b256 list \<Rightarrow> b256 \<Rightarrow> b256 option" where
  "fold_siblings L key depth [] cur = Some cur"
| "fold_siblings L key depth (sib # sibs) cur =
     Option.bind (fold_siblings L key (depth + 1) sibs cur) (\<lambda>cur.
       Option.bind (key_bit key depth) (\<lambda>right.
         Some (if right then hash_internal L sib cur else hash_internal L cur sib)))"

definition bmt_verify :: "ext_lib \<Rightarrow> bmt_proof \<Rightarrow> b256 \<Rightarrow> b256 option \<Rightarrow> nat \<Rightarrow> bool option" where
  "bmt_verify L p root expected_value_hash base_depth =
     (if base_depth > 256 \<or> length (pf_siblings p) > 256 - base_depth then Some False
      else if pf_value_hash p \<noteq> expected_value_hash then Some False
      else let finish = (\<lambda>cur. map_option (\<lambda>cur. cur = root) (fold_siblings L (pf_key p) base_depth (pf_siblings p) cur))
      in case (pf_value_hash p, pf_other_leaf p) of
        (Some vh, None) \<Rightarrow> finish (hash_leaf L (pf_key p) vh)
      | (None, None) \<Rightarrow> finish EMPTY_HASH
      | (None, Some (ok, ovh)) \<Rightarrow>
          if ok = pf_key p then Some False
          else Option.bind (shares_prefix_range (pf_key p) ok base_depth (length (pf_siblings p))) (\<lambda>shared.
            if \<not> shared then Some False else finish (hash_leaf L ok ovh))
      | (Some _, Some _) \<Rightarrow> Some False)"

section \<open>The tree over the shard roots\<close>

definition hash_pair :: "ext_lib \<Rightarrow> b256 \<Rightarrow> b256 \<Rightarrow> b256" where
  "hash_pair L a b = blake3 L (be_bytes 32 a @ be_bytes 32 b)"

text \<open>One level: \<open>chunks(2)\<close> leaves a last chunk of one hash at an odd length, where \<open>c[1]\<close> panics.\<close>

fun pair_level :: "ext_lib \<Rightarrow> b256 list \<Rightarrow> b256 list option" where
  "pair_level L [] = Some []"
| "pair_level L [a] = None"
| "pair_level L (a # b # level) = map_option ((#) (hash_pair L a b)) (pair_level L level)"

lemma pair_level_length: "pair_level L level = Some up \<Longrightarrow> length up = length level div 2"
  by (induction L level arbitrary: up rule: pair_level.induct) auto

function shard_tree_root :: "ext_lib \<Rightarrow> b256 list \<Rightarrow> b256 option" where
  "shard_tree_root L level =
     (if length level > 1 then (case pair_level L level of None \<Rightarrow> None | Some up \<Rightarrow> shard_tree_root L up)
      else if level = [] then None else Some (level ! 0))"
  by pat_completeness auto
termination
  by (relation "measure (\<lambda>(L, level). length level)") (auto dest: pair_level_length)

declare shard_tree_root.simps [simp del]

function shard_tree_path :: "ext_lib \<Rightarrow> b256 list \<Rightarrow> nat \<Rightarrow> b256 list option" where
  "shard_tree_path L level idx =
     (if length level > 1
      then if idx XOR 1 < length level
        then (case pair_level L level of
            None \<Rightarrow> None
          | Some up \<Rightarrow> map_option ((#) (level ! (idx XOR 1))) (shard_tree_path L up (drop_bit 1 idx)))
        else None
      else Some [])"
  by pat_completeness auto
termination
  by (relation "measure (\<lambda>(L, level, idx). length level)") (auto dest: pair_level_length)

declare shard_tree_path.simps [simp del]

fun shard_tree_root_from_path :: "ext_lib \<Rightarrow> b256 \<Rightarrow> nat \<Rightarrow> b256 list \<Rightarrow> b256" where
  "shard_tree_root_from_path L cur idx [] = cur"
| "shard_tree_root_from_path L cur idx (sib # path) =
     shard_tree_root_from_path L (if idx AND 1 = 0 then hash_pair L cur sib else hash_pair L sib cur) (drop_bit 1 idx) path"

section \<open>Proofs for the sharded tree\<close>

datatype bmt_verify_error =
    ShardIndexOutOfRange u8
  | KeyMismatch
  | WrongShardForKey u8 u8
  | CombinedRootMismatch
  | MalformedShardPath nat nat
  | ValueHashMismatch
  | InShardProofFailed

record sharded_bmt_proof =
  sp_shard_index :: u8
  sp_shard_root :: b256
  sp_shard_path :: "b256 list"
  sp_inner :: bmt_proof
  sp_value :: "bytes option"

text \<open>\<open>SHARD_COUNT.trailing_zeros()\<close>.\<close>

definition SHARD_BITS :: nat where "SHARD_BITS = 4"

definition sharded_verify :: "ext_lib \<Rightarrow> sharded_bmt_proof \<Rightarrow> b256 \<Rightarrow> (bmt_verify_error, unit) outcome" where
  "sharded_verify L p combined_root =
     (if unat (sp_shard_index p) \<ge> SHARD_COUNT then Err (ShardIndexOutOfRange (sp_shard_index p))
      else if length (sp_shard_path p) \<noteq> SHARD_BITS
      then Err (MalformedShardPath (length (sp_shard_path p)) SHARD_BITS)
      else if shard_tree_root_from_path L (sp_shard_root p) (unat (sp_shard_index p)) (sp_shard_path p) \<noteq> combined_root
      then Err CombinedRootMismatch
      else let expected_vh = map_option (hash_value L) (sp_value p) in
        if pf_value_hash (sp_inner p) \<noteq> expected_vh then Err ValueHashMismatch
        else case bmt_verify L (sp_inner p) (sp_shard_root p) expected_vh SHARD_BITS of
          None \<Rightarrow> Panic
        | Some ok \<Rightarrow> if \<not> ok then Err InShardProofFailed else Ok ())"

definition verify_for_key :: "ext_lib \<Rightarrow> sharded_bmt_proof \<Rightarrow> b256 \<Rightarrow> b256 \<Rightarrow> (bmt_verify_error, unit) outcome" where
  "verify_for_key L p combined_root expected_key =
     (if pf_key (sp_inner p) \<noteq> expected_key then Err KeyMismatch
      else let expected_shard = shard_index_for_key expected_key in
        if unat (sp_shard_index p) \<noteq> expected_shard
        then Err (WrongShardForKey (word_of_nat expected_shard) (sp_shard_index p))
        else sharded_verify L p combined_root)"

definition estimated_size :: "sharded_bmt_proof \<Rightarrow> nat" where
  "estimated_size p = 1 + 32 + 4 + length (sp_shard_path p) * 32 + encoded_len (sp_inner p)
     + (case sp_value p of None \<Rightarrow> 0 | Some v \<Rightarrow> length v)"

definition path_bytes :: "sharded_bmt_proof \<Rightarrow> nat" where
  "path_bytes p = path_len (sp_inner p) * 32"

section \<open>Proofs over tries\<close>

fun tend :: "b256 \<Rightarrow> nat \<Rightarrow> trie \<Rightarrow> trie" where
  "tend k d (TNode a b) = tend k (Suc d) (if kb k d then b else a)"
| "tend k d t = t"

fun tpath :: "ext_lib \<Rightarrow> b256 \<Rightarrow> nat \<Rightarrow> trie \<Rightarrow> b256 list" where
  "tpath L k d (TNode a b) = thash L (if kb k d then a else b) # tpath L k (Suc d) (if kb k d then b else a)"
| "tpath L k d t = []"

definition proof_at :: "b256 \<Rightarrow> b256 list \<Rightarrow> trie \<Rightarrow> bmt_proof" where
  "proof_at k siblings e = \<lparr> pf_key = k,
     pf_value_hash = (case e of TLeaf k' v \<Rightarrow> if k' = k then Some v else None | _ \<Rightarrow> None), pf_siblings = siblings,
     pf_other_leaf = (case e of TLeaf k' v \<Rightarrow> if k' = k then None else Some (k', v) | _ \<Rightarrow> None) \<rparr>"

lemma tlookup_tend: "tlookup k d t = tlookup k e (tend k d t)"
  by (induction t arbitrary: d) auto

lemma tend_shape: "tend k d t \<noteq> TNode a b"
  by (induction t arbitrary: d) auto

lemma tpath_length: "twf d t \<Longrightarrow> length (tpath L k d t) \<le> 256 - d"
  by (induction t arbitrary: d) fastforce+

lemma fold_tpath: "twf d t \<Longrightarrow> fold_siblings L k d (tpath L k d t) (thash L (tend k d t)) = Some (thash L t)"
  by (induction t arbitrary: d) (auto simp: key_bit_kb)

lemma tend_shares:
  assumes "twf d t" and "tend k d t = TLeaf k' v"
  shows "k' \<in> tkeys t \<and> shares_prefix_range k k' d (length (tpath L k d t)) = Some True"
  using assms
proof (induction t arbitrary: d)
  case (TNode a b)
  let ?c = "if kb k d then b else a"
  have "k' \<in> tkeys ?c \<and> shares_prefix_range k k' (Suc d) (length (tpath L k (Suc d) ?c)) = Some True"
    using TNode.IH [of "Suc d"] TNode.prems by auto
  then show ?case using TNode.prems(1) by (cases "kb k d") (auto simp: key_bit_kb)
qed auto

text \<open>A call that only fills caches below a child leaves the parent in place.\<close>

lemma owns_part:
  assumes own: "owns L s i (TNode a b) S" and n: "node_at i s = Some (SInternal l r c)"
  shows "\<exists>C. owns L s (if right then r else l) (if right then b else a) C \<and>
    (\<forall>s'. touches s C s' C \<longrightarrow> owns L s' (if right then r else l) (if right then b else a) C \<longrightarrow>
      owns L s' i (TNode a b) S \<and> node_at i s' = Some (SInternal l r c) \<and> touches s S s' S)"
proof -
  obtain A B where r: "i \<noteq> NIL" "unat i < length (sb_nodes s)" "sb_nodes s ! unat i = SInternal l r c"
    "reps L (sb_nodes s) l a A" "reps L (sb_nodes s) r b B" "S = insert (unat i) (A \<union> B)" "A \<inter> B = {}" "unat i \<notin> A \<union> B"
    "c \<in> {None, Some (thash L (TNode a b))}" "S \<inter> free_set s = {}" "arena_ok s"
    using assms by (auto simp: owns_def node_at_def)
  define C D where "C = (if right then B else A)" and "D = (if right then A else B)"
  have C: "owns L s (if right then r else l) (if right then b else a) C" using r by (auto simp: owns_def C_def)
  have D: "reps L (sb_nodes s) (if right then l else r) (if right then a else b) D" "D \<inter> C = {}" "D \<inter> free_set s = {}"
    "S = insert (unat i) (C \<union> D)" "unat i \<notin> C" "unat i \<notin> free_set s" using r by (auto simp: C_def D_def)
  have "owns L s' i (TNode a b) S \<and> node_at i s' = Some (SInternal l r c) \<and> touches s S s' S"
    if w: "touches s C s' C" and o: "owns L s' (if right then r else l) (if right then b else a) C" for s'
  proof -
    have i: "unat i < length (sb_nodes s')" "sb_nodes s' ! unat i = SInternal l r c"
      using w D(5,6) r(2,3) by (auto simp: touches_def)
    have "C \<union> free_set s' \<subseteq> C \<union> free_set s \<union> {length (sb_nodes s)..}" using w by (simp add: touches_def)
    then have fi: "unat i \<notin> free_set s'" using D(5,6) r(2) by auto
    note k = reps_untouched [OF D(1) w D(2,3)]
    have "reps L (sb_nodes s') l a A" "reps L (sb_nodes s') r b B" "S \<inter> free_set s' = {}"
      using o k fi D(4) by (auto simp: owns_def C_def D_def split: if_splits)
    then have "owns L s' i (TNode a b) S" using r i o by (auto simp: owns_def)
    moreover have "C \<union> S = S" using D(4) by auto
    then have "touches s S s' S" using touches_frame [OF w, of S] by simp
    ultimately show ?thesis using i by (simp add: node_at_def)
  qed
  then show ?thesis using C by blast
qed

lemma prove_from_refines:
  assumes "owns L s i t S" and "twf d t" and "d \<le> 256" and "258 - d \<le> n"
  shows "\<exists>s'. prove_from L n i d k acc s = Some (s', proof_at k (acc @ tpath L k d t) (tend k d t)) \<and>
    owns L s' i t S \<and> touches s S s' S"
  using assms
proof (induction n arbitrary: i d s t S acc)
  case (Suc n)
  show ?case
  proof (cases t)
    case TEmpty
    then show ?thesis using Suc.prems(1) by (auto simp: owns_def proof_at_def)
  next
    case (TLeaf k' v)
    then show ?thesis using Suc.prems(1) by (auto simp: owns_def node_at_def proof_at_def)
  next
    case (TNode a b)
    obtain l r c where n: "node_at i s = Some (SInternal l r c)" "i \<noteq> NIL"
      using owns_node Suc.prems(1) TNode by metis
    let ?right = "kb k d"
    have d: "d < 256" and wf: "twf (Suc d) (if \<not> ?right then b else a)" "twf (Suc d) (if ?right then b else a)"
      using Suc.prems(2) TNode by auto
    have own: "owns L s i (TNode a b) S" using Suc.prems(1) TNode by simp
    obtain D where D: "owns L s (if \<not> ?right then r else l) (if \<not> ?right then b else a) D"
      "\<And>s'. touches s D s' D \<Longrightarrow> owns L s' (if \<not> ?right then r else l) (if \<not> ?right then b else a) D \<Longrightarrow>
        owns L s' i (TNode a b) S \<and> node_at i s' = Some (SInternal l r c) \<and> touches s S s' S"
      using owns_part [OF own n(1), of "\<not> ?right"] by blast
    obtain s1 where s1: "node_hash L SBMT_FUEL (if \<not> ?right then r else l) s = Some (s1, thash L (if \<not> ?right then b else a))"
      "owns L s1 i (TNode a b) S" "node_at i s1 = Some (SInternal l r c)" "touches s S s1 S"
      using node_hash_refines [OF D(1) wf(1) _ fuel_enough] D(2) d by fastforce
    obtain C where C: "owns L s1 (if ?right then r else l) (if ?right then b else a) C"
      "\<And>s'. touches s1 C s' C \<Longrightarrow> owns L s' (if ?right then r else l) (if ?right then b else a) C \<Longrightarrow>
        owns L s' i (TNode a b) S \<and> touches s1 S s' S"
      using owns_part [OF s1(2,3), of ?right] by blast
    let ?sib = "thash L (if \<not> ?right then b else a)"
    obtain s2 where s2: "prove_from L n (if ?right then r else l) (Suc d) k (acc @ [?sib]) s1 =
        Some (s2, proof_at k ((acc @ [?sib]) @ tpath L k (Suc d) (if ?right then b else a)) (tend k (Suc d) (if ?right then b else a)))"
      "owns L s2 i (TNode a b) S" "touches s1 S s2 S"
      using Suc.IH [OF C(1) wf(2), of "acc @ [?sib]"] C(2) d Suc.prems(4) by fastforce
    have "prove_from L (Suc n) i d k acc s = Some (s2, proof_at k (acc @ tpath L k d t) (tend k d t))"
      using n s1(1) s2(1) key_bit_kb [OF d, of k] TNode by (cases ?right) simp_all
    then show ?thesis using s2(2) touches_trans [OF s1(4) s2(3)] TNode by blast
  qed
qed simp

lemma prove_denotes:
  assumes "denotes L s t"
  shows "\<exists>s'. prove L k s = Some (s', proof_at k (tpath L k (sb_base_depth s) t) (tend k (sb_base_depth s) t)) \<and>
    denotes L s' t \<and> sb_base_depth s' = sb_base_depth s"
proof -
  obtain S where S: "owns L s (sb_root s) t S" and wf: "twf (sb_base_depth s) t" "sb_base_depth s \<le> 256"
    using assms by (auto simp: denotes_def)
  from prove_from_refines [OF S wf fuel_enough, of k "[]"] show ?thesis
    using assms by (auto simp: prove_def denotes_def touches_def)
qed

lemma proof_at_verifies:
  assumes "twf d t" and "d \<le> 256"
  shows "bmt_verify L (proof_at k (tpath L k d t) (tend k d t)) (thash L t) (tlookup k d t) d = Some True"
proof (cases "tend k d t")
  case (TNode a b)
  then show ?thesis using tend_shape by blast
qed (use assms tpath_length [OF assms(1), of L k] fold_tpath [OF assms(1), of L k] tend_shares [OF assms(1), of k]
    tlookup_tend [of k d t] in \<open>auto simp: bmt_verify_def proof_at_def\<close>)

section \<open>What an accepted proof means\<close>

text \<open>The strings that are hashed for a trie and by the verifier of a proof.\<close>

definition leaf_string :: "b256 \<Rightarrow> b256 \<Rightarrow> bytes" where
  "leaf_string k v = [LEAF_PREFIX] @ be_bytes 32 k @ be_bytes 32 v"

definition node_string :: "b256 \<Rightarrow> b256 \<Rightarrow> bytes" where
  "node_string l r = [INTERNAL_PREFIX] @ be_bytes 32 l @ be_bytes 32 r"

definition pair_string :: "b256 \<Rightarrow> b256 \<Rightarrow> bytes" where
  "pair_string a b = be_bytes 32 a @ be_bytes 32 b"

lemma string_inject [simp]:
  "leaf_string k v = leaf_string k' v' \<longleftrightarrow> k = k' \<and> v = v'" "node_string k v = node_string k' v' \<longleftrightarrow> k = k' \<and> v = v'"
  "pair_string k v = pair_string k' v' \<longleftrightarrow> k = k' \<and> v = v'" "leaf_string k v \<noteq> node_string k' v'" "node_string k' v' \<noteq> leaf_string k v"
  by (auto simp: leaf_string_def node_string_def pair_string_def LEAF_PREFIX_def INTERNAL_PREFIX_def)

lemma hash_strings:
  "hash_leaf L k v = blake3 L (leaf_string k v)" "hash_internal L l r = blake3 L (node_string l r)"
  "hash_pair L l r = blake3 L (pair_string l r)"
  by (simp_all add: hash_leaf_def hash_internal_def hash_pair_def leaf_string_def node_string_def pair_string_def)

fun tree_strings :: "ext_lib \<Rightarrow> trie \<Rightarrow> bytes set" where
  "tree_strings L TEmpty = {}"
| "tree_strings L (TLeaf k v) = {leaf_string k v}"
| "tree_strings L (TNode a b) = insert (node_string (thash L a) (thash L b)) (tree_strings L a \<union> tree_strings L b)"

fun fold_strings :: "ext_lib \<Rightarrow> b256 \<Rightarrow> nat \<Rightarrow> b256 list \<Rightarrow> b256 \<Rightarrow> bytes set" where
  "fold_strings L key d [] cur = {}"
| "fold_strings L key d (sib # sibs) cur = fold_strings L key (Suc d) sibs cur \<union>
     (case fold_siblings L key (Suc d) sibs cur of None \<Rightarrow> {} | Some h \<Rightarrow> {if kb key d then node_string sib h else node_string h sib})"

text \<open>The end of the path that a proof claims.\<close>

definition claimed :: "bmt_proof \<Rightarrow> trie" where
  "claimed p = (case (pf_value_hash p, pf_other_leaf p) of
     (Some v, _) \<Rightarrow> TLeaf (pf_key p) v | (None, Some (k, v)) \<Rightarrow> TLeaf k v | (None, None) \<Rightarrow> TEmpty)"

definition proof_strings :: "ext_lib \<Rightarrow> bmt_proof \<Rightarrow> nat \<Rightarrow> bytes set" where
  "proof_strings L p d = tree_strings L (claimed p) \<union> fold_strings L (pf_key p) d (pf_siblings p) (thash L (claimed p))"

text \<open>No two strings of a set have the same hash, and none hashes to the reserved empty value.\<close>

definition collision_free :: "ext_lib \<Rightarrow> bytes set \<Rightarrow> bool" where
  "collision_free L H \<longleftrightarrow> inj_on (blake3 L) H \<and> EMPTY_HASH \<notin> blake3 L ` H"

lemma collision_freeD: "collision_free L H \<Longrightarrow> x \<in> H \<Longrightarrow> y \<in> H \<Longrightarrow> blake3 L x = blake3 L y \<Longrightarrow> x = y"
  and collision_free_nonempty: "collision_free L H \<Longrightarrow> x \<in> H \<Longrightarrow> blake3 L x \<noteq> EMPTY_HASH"
  unfolding collision_free_def by (blast dest: inj_onD, metis imageI)

lemma thash_node:
  assumes "collision_free L H" and "tree_strings L t \<subseteq> H" and "node_string x y \<in> H" and "thash L t = hash_internal L x y"
  obtains a b where "t = TNode a b" "x = thash L a" "y = thash L b"
proof (cases t)
  case TEmpty
  then show ?thesis using assms collision_free_nonempty [OF assms(1,3)] by (simp add: hash_strings)
next
  case (TLeaf k v)
  then show ?thesis using assms collision_freeD [OF assms(1) _ assms(3), of "leaf_string k v"] by (simp add: hash_strings)
next
  case (TNode a b)
  then show ?thesis using assms that collision_freeD [OF assms(1) _ assms(3), of "node_string (thash L a) (thash L b)"]
    by (simp add: hash_strings)
qed

lemma thash_end:
  assumes "collision_free L H" and "tree_strings L t \<subseteq> H" and "tree_strings L e \<subseteq> H" and "thash L t = thash L e"
    and "\<And>a b. e \<noteq> TNode a b"
  shows "t = e"
proof (cases e)
  case TEmpty
  then show ?thesis using assms collision_free_nonempty [OF assms(1)] by (cases t) (auto simp: hash_strings)
next
  case (TLeaf k v)
  have l: "leaf_string k v \<in> H" using assms(3) TLeaf by simp
  note no = collision_free_nonempty [OF assms(1) l] and inj = collision_freeD [OF assms(1) _ l]
  show ?thesis
  proof (cases t)
    case TEmpty
    then show ?thesis using assms(4) TLeaf no by (simp add: hash_strings)
  next
    case (TLeaf k' v')
    then show ?thesis using assms(2,4) \<open>e = TLeaf k v\<close> inj [of "leaf_string k' v'"] by (simp add: hash_strings)
  next
    case (TNode a b)
    then show ?thesis using assms(2,4) TLeaf inj [of "node_string (thash L a) (thash L b)"] by (simp add: hash_strings)
  qed
qed (use assms(5) in blast)

lemma fold_sound:
  assumes "collision_free L H" and "tree_strings L t \<subseteq> H" and "tree_strings L e \<subseteq> H" and "fold_strings L k d sibs (thash L e) \<subseteq> H"
    and "fold_siblings L k d sibs (thash L e) = Some (thash L t)" and "d + length sibs \<le> 256" and "\<And>a b. e \<noteq> TNode a b"
  shows "tlookup k d t = tlookup k 0 e"
  using assms
proof (induction sibs arbitrary: d t)
  case Nil
  then have "t = e" using thash_end [of L H t e] by simp
  then show ?case using Nil(7) by (cases e) auto
next
  case (Cons sib sibs)
  obtain h where h: "fold_siblings L k (Suc d) sibs (thash L e) = Some h"
    "(if kb k d then hash_internal L sib h else hash_internal L h sib) = thash L t"
    using Cons.prems(5,6) key_bit_kb [of d k] by (auto split: bind_splits)
  have str: "(if kb k d then node_string sib h else node_string h sib) \<in> H" and sub: "fold_strings L k (Suc d) sibs (thash L e) \<subseteq> H"
    using Cons.prems(4) h(1) by auto
  obtain a b where ab: "t = TNode a b" "h = thash L (if kb k d then b else a)"
  proof (cases "kb k d")
    case True
    then show ?thesis using h(2) str that by (auto intro: thash_node [OF Cons.prems(1,2), of sib h])
  next
    case False
    then show ?thesis using h(2) str that by (auto intro: thash_node [OF Cons.prems(1,2), of h sib])
  qed
  then show ?case
    using Cons.IH [of "if kb k d then b else a" "Suc d"] Cons.prems sub h(1) by (cases "kb k d") auto
qed

lemma bmt_verify_sound_aux:
  assumes "bmt_verify L p (thash L t) vh d = Some True" and "collision_free L (tree_strings L t \<union> proof_strings L p d)"
  shows "tlookup (pf_key p) d t = vh"
proof -
  have len: "d + length (pf_siblings p) \<le> 256" and vh: "pf_value_hash p = vh"
    using assms(1) by (auto simp: bmt_verify_def split: if_splits)
  have f: "fold_siblings L (pf_key p) d (pf_siblings p) (thash L (claimed p)) = Some (thash L t) \<and> tlookup (pf_key p) 0 (claimed p) = vh"
  proof (cases "pf_other_leaf p")
    case None
    then show ?thesis using assms(1) vh len by (cases vh) (auto simp: bmt_verify_def claimed_def split: if_splits)
  next
    case (Some kv)
    then show ?thesis using assms(1) vh len by (cases vh; cases kv) (auto simp: bmt_verify_def claimed_def bind_eq_Some_conv split: if_splits)
  qed
  have "claimed p \<noteq> TNode a b" for a b by (auto simp: claimed_def split: option.splits)
  from fold_sound [OF assms(2) _ _ _ conjunct1 [OF f] len this] f show ?thesis by (simp add: proof_strings_def le_supI1 le_supI2)
qed

section \<open>Paths to the combined root\<close>

lemma pair_level_even:
  assumes "length level = 2 * m"
  shows "\<exists>up. pair_level L level = Some up \<and> length up = m \<and> (\<forall>j < m. up ! j = hash_pair L (level ! (2 * j)) (level ! (2 * j + 1)))"
  using assms
proof (induction L level arbitrary: m rule: pair_level.induct)
  case (3 L a b level)
  obtain m' where m': "m = Suc m'" "length level = 2 * m'" using 3(2) by (cases m) auto
  obtain up where "pair_level L level = Some up" "length up = m'"
    "\<forall>j < m'. up ! j = hash_pair L (level ! (2 * j)) (level ! (2 * j + 1))" using 3(1) [OF m'(2)] by blast
  then show ?case using m'(1) by (auto simp: nth_Cons split: nat.splits)
qed auto

lemma index_bits:
  "(i :: nat) AND 1 = 0 \<longleftrightarrow> even i" "drop_bit 1 (i :: nat) = i div 2" "(i :: nat) XOR 1 = (if even i then i + 1 else i - 1)"
proof -
  show "i AND 1 = 0 \<longleftrightarrow> even i" by (simp only: and_one_eq even_iff_mod_2_eq_zero)
  show "drop_bit 1 i = i div 2" by (simp add: drop_bit_eq_div)
  have "i XOR 1 = of_bool (odd i \<noteq> odd (1 :: nat)) + 2 * (i div 2 XOR 1 div 2)" by (rule xor_rec)
  then have "i XOR 1 = of_bool (even i) + 2 * (i div 2)" by simp
  then show "i XOR 1 = (if even i then i + 1 else i - 1)" by (auto elim!: evenE oddE)
qed

lemma from_path_Cons:
  "shard_tree_root_from_path L cur idx (sib # path) =
     shard_tree_root_from_path L (if even idx then hash_pair L cur sib else hash_pair L sib cur) (idx div 2) path"
  by (simp only: shard_tree_root_from_path.simps index_bits(1,2))

lemmas drop_one = index_bits(2) [unfolded One_nat_def]

lemma sibling_pair:
  assumes "length level = 2 * m" and "i < 2 * m" and "\<forall>j < m. up ! j = hash_pair L (level ! (2 * j)) (level ! (2 * j + 1))"
  shows "i XOR 1 < 2 * m" "i div 2 < m"
    and "up ! (i div 2) = (if even i then hash_pair L (level ! i) (level ! (i XOR 1)) else hash_pair L (level ! (i XOR 1)) (level ! i))"
proof -
  show "i XOR 1 < 2 * m" using assms(2) unfolding index_bits(3) by (auto elim!: evenE)
  show "i div 2 < m" using assms(2) by auto
  then show "up ! (i div 2) = (if even i then hash_pair L (level ! i) (level ! (i XOR 1)) else hash_pair L (level ! (i XOR 1)) (level ! i))"
    using assms(3) unfolding index_bits(3) by (auto elim!: evenE oddE)
qed

lemma shard_tree_complete:
  assumes "length level = 2 ^ n" and "i < 2 ^ n"
  shows "\<exists>root path. shard_tree_root L level = Some root \<and> shard_tree_path L level i = Some path \<and> length path = n \<and>
    shard_tree_root_from_path L (level ! i) i path = root"
  using assms
proof (induction n arbitrary: level i)
  case 0
  then have "level \<noteq> []" by auto
  then show ?case using 0 by (simp add: shard_tree_root.simps [of L level] shard_tree_path.simps [of L level])
next
  case (Suc n)
  obtain up where up: "pair_level L level = Some up" "length up = 2 ^ n"
    "\<forall>j < 2 ^ n. up ! j = hash_pair L (level ! (2 * j)) (level ! (2 * j + 1))"
    using pair_level_even [of level "2 ^ n" L] Suc.prems(1) by auto
  note sib = sibling_pair [OF _ _ up(3), of i]
  obtain root path where rp: "shard_tree_root L up = Some root" "shard_tree_path L up (i div 2) = Some path" "length path = n"
    "shard_tree_root_from_path L (up ! (i div 2)) (i div 2) path = root"
    using Suc.IH [OF up(2), of "i div 2"] sib(2) Suc.prems by auto
  have "length level > 1" using Suc.prems(1) one_less_power [of "2 :: nat" "Suc n"] by simp
  then have "shard_tree_root L level = Some root" "shard_tree_path L level i = Some (level ! (i XOR 1) # path)"
    using up(1) rp(1,2) sib(1) Suc.prems
    by (simp_all add: shard_tree_root.simps [of L level] shard_tree_path.simps [of L level] drop_one)
  then show ?case using rp(3,4) sib(3) Suc.prems by (simp add: from_path_Cons split: if_splits del: shard_tree_root_from_path.simps)
qed

fun level_strings :: "b256 list \<Rightarrow> bytes set" where
  "level_strings (a # b # level) = insert (pair_string a b) (level_strings level)"
| "level_strings level = {}"

lemma level_strings_nth: "2 * j + 1 < length level \<Longrightarrow> pair_string (level ! (2 * j)) (level ! (2 * j + 1)) \<in> level_strings level"
proof (induction level arbitrary: j rule: level_strings.induct)
  case (1 a b level)
  then show ?case by (cases j) auto
qed auto

fun shard_strings :: "ext_lib \<Rightarrow> nat \<Rightarrow> b256 list \<Rightarrow> bytes set" where
  "shard_strings L 0 level = {}"
| "shard_strings L (Suc n) level = level_strings level \<union>
     (case pair_level L level of None \<Rightarrow> {} | Some up \<Rightarrow> shard_strings L n up)"

fun path_strings :: "ext_lib \<Rightarrow> b256 \<Rightarrow> nat \<Rightarrow> b256 list \<Rightarrow> bytes set" where
  "path_strings L cur idx [] = {}"
| "path_strings L cur idx (sib # path) =
     insert (if even idx then pair_string cur sib else pair_string sib cur)
       (path_strings L (if even idx then hash_pair L cur sib else hash_pair L sib cur) (idx div 2) path)"

lemma shard_tree_sound:
  assumes "collision_free L H" and "shard_strings L n level \<subseteq> H" and "path_strings L x i path \<subseteq> H"
    and "length level = 2 ^ n" and "length path = n" and "i < 2 ^ n"
    and "shard_tree_root L level = Some (shard_tree_root_from_path L x i path)"
  shows "x = level ! i"
  using assms
proof (induction n arbitrary: level x i path)
  case 0
  then have "level \<noteq> []" by auto
  then show ?case using 0 by (simp add: shard_tree_root.simps [of L level])
next
  case (Suc n)
  obtain sib path' where path: "path = sib # path'" using Suc.prems(5) by (cases path) auto
  obtain up where up: "pair_level L level = Some up" "length up = 2 ^ n"
    "\<forall>j < 2 ^ n. up ! j = hash_pair L (level ! (2 * j)) (level ! (2 * j + 1))"
    using pair_level_even [of level "2 ^ n" L] Suc.prems(4) by auto
  note pr = sibling_pair [OF _ _ up(3), of i]
  let ?y = "if even i then hash_pair L x sib else hash_pair L sib x"
  have y: "?y = up ! (i div 2)"
  proof (rule Suc.IH [OF Suc.prems(1) _ _ up(2)])
    show "shard_strings L n up \<subseteq> H" using Suc.prems(2) up(1) by simp
    show "path_strings L ?y (i div 2) path' \<subseteq> H" using Suc.prems(3) path by (simp split: if_splits)
    show "length path' = n" using Suc.prems(5) path by simp
    show "i div 2 < 2 ^ n" using pr(2) Suc.prems by simp
    have "length level > 1" using Suc.prems(4) one_less_power [of "2 :: nat" "Suc n"] by simp
    then show "shard_tree_root L up = Some (shard_tree_root_from_path L ?y (i div 2) path')"
      using Suc.prems(7) up(1) path by (simp add: shard_tree_root.simps [of L level] from_path_Cons del: shard_tree_root_from_path.simps)
  qed
  have "(if even i then pair_string x sib else pair_string sib x) \<in> H" using Suc.prems(3) path by simp
  moreover have "(if even i then pair_string (level ! i) (level ! (i XOR 1)) else pair_string (level ! (i XOR 1)) (level ! i)) \<in> H"
  proof -
    have "pair_string (level ! (2 * (i div 2))) (level ! (2 * (i div 2) + 1)) \<in> H"
      using Suc.prems(2,4) pr(2) Suc.prems(6) level_strings_nth [of "i div 2" level] by auto
    then show ?thesis unfolding index_bits(3) by (auto elim!: evenE oddE)
  qed
  moreover have "up ! (i div 2) = (if even i then hash_pair L (level ! i) (level ! (i XOR 1)) else hash_pair L (level ! (i XOR 1)) (level ! i))"
    using pr(3) Suc.prems by simp
  ultimately show ?case using y collision_freeD [OF Suc.prems(1)] by (cases "even i") (fastforce simp: hash_strings)+
qed

end
