(* ===== verification/N42_StateDiff.thy ===== *)
theory N42_StateDiff
  imports N42_Prelude
begin

text \<open>
  State diffs (\<^verbatim>\<open>n42-execution/src/state_diff.rs\<close>) and the encoding of account leaves
  (\<^verbatim>\<open>n42-jmt/src/tree.rs\<close>). The \<open>BTreeMap\<close>s of a diff are association lists in the order of their
  keys. A \<open>BundleState\<close> of revm is third-party data: the record below has the fields that
  \<open>from_bundle_state\<close> reads, with the result of \<open>was_destroyed\<close> as one of them.
\<close>

section \<open>Diffs\<close>

type_synonym u256 = "256 word"

datatype account_change_type = AccountCreated | AccountModified | AccountDestroyed

record 'a value_change =
  vc_from :: 'a
  vc_to :: 'a

record account_diff =
  ad_change_type :: account_change_type
  ad_balance :: "u256 value_change option"
  ad_nonce :: "u64 value_change option"
  ad_code_change :: "b256 option value_change option"
  ad_storage :: "(u256 \<times> u256 value_change) list"

record state_diff =
  sd_accounts :: "(address \<times> account_diff) list"

definition diff_len :: "state_diff \<Rightarrow> nat" where
  "diff_len d = length (sd_accounts d)"

definition diff_is_empty :: "state_diff \<Rightarrow> bool" where
  "diff_is_empty d \<longleftrightarrow> sd_accounts d = []"

definition change_count :: "account_change_type \<Rightarrow> state_diff \<Rightarrow> nat" where
  "change_count c d = length (filter (\<lambda>a. ad_change_type (snd a) = c) (sd_accounts d))"

definition created_count :: "state_diff \<Rightarrow> nat" where "created_count d = change_count AccountCreated d"
definition modified_count :: "state_diff \<Rightarrow> nat" where "modified_count d = change_count AccountModified d"
definition destroyed_count :: "state_diff \<Rightarrow> nat" where "destroyed_count d = change_count AccountDestroyed d"

definition total_storage_changes :: "state_diff \<Rightarrow> nat" where
  "total_storage_changes d = sum_list (map (\<lambda>a. length (ad_storage (snd a))) (sd_accounts d))"

section \<open>Diffs from a bundle\<close>

record account_info =
  ai_balance :: u256
  ai_nonce :: u64
  ai_code_hash :: b256

record bundle_account =
  ba_info :: "account_info option"
  ba_original_info :: "account_info option"
  ba_storage :: "(u256 \<times> u256 \<times> u256) list"
  ba_was_destroyed :: bool

text \<open>\<open>keccak256([])\<close>, which revm names \<open>KECCAK_EMPTY\<close> and the tree \<open>EMPTY_CODE_HASH\<close>.\<close>

definition EMPTY_CODE_HASH :: b256 where
  "EMPTY_CODE_HASH = 0xc5d2460186f7233c927e7db2dcc703c0e500b653ca82273b7bfad8045d85a470"

definition change_type_of :: "bundle_account \<Rightarrow> account_change_type" where
  "change_type_of ba = (case (ba_original_info ba \<noteq> None, ba_info ba \<noteq> None) of
     (_, False) \<Rightarrow> AccountDestroyed
   | (False, True) \<Rightarrow> AccountCreated
   | (True, True) \<Rightarrow> AccountModified)"

definition info_change :: "(account_info \<Rightarrow> 'a) \<Rightarrow> 'a \<Rightarrow> bundle_account \<Rightarrow> 'a value_change option" where
  "info_change f zero ba = (case (ba_original_info ba, ba_info ba) of
     (Some orig, Some cur) \<Rightarrow> Some \<lparr> vc_from = f orig, vc_to = f cur \<rparr>
   | (None, Some cur) \<Rightarrow> Some \<lparr> vc_from = zero, vc_to = f cur \<rparr>
   | (Some orig, None) \<Rightarrow> Some \<lparr> vc_from = f orig, vc_to = zero \<rparr>
   | (None, None) \<Rightarrow> None)"

definition code_change_of :: "bundle_account \<Rightarrow> b256 option value_change option" where
  "code_change_of ba = (case (ba_original_info ba, ba_info ba) of
     (Some orig, Some cur) \<Rightarrow>
       if ai_code_hash orig \<noteq> ai_code_hash cur
       then Some \<lparr> vc_from = Some (ai_code_hash orig), vc_to = Some (ai_code_hash cur) \<rparr> else None
   | (None, Some cur) \<Rightarrow>
       if ai_code_hash cur \<noteq> EMPTY_CODE_HASH then Some \<lparr> vc_from = None, vc_to = Some (ai_code_hash cur) \<rparr> else None
   | (Some orig, None) \<Rightarrow>
       if ai_code_hash orig \<noteq> EMPTY_CODE_HASH then Some \<lparr> vc_from = Some (ai_code_hash orig), vc_to = None \<rparr> else None
   | (None, None) \<Rightarrow> None)"

definition storage_changes_of :: "bundle_account \<Rightarrow> (u256 \<times> u256 value_change) list" where
  "storage_changes_of ba = sort_key fst (map (\<lambda>(slot, prev, present). (slot, \<lparr> vc_from = prev, vc_to = present \<rparr>))
     (filter (\<lambda>(slot, prev, present). prev \<noteq> present) (ba_storage ba)))"

definition has_changed :: "'a value_change option \<Rightarrow> bool" where
  "has_changed v \<longleftrightarrow> (case v of None \<Rightarrow> False | Some v \<Rightarrow> vc_from v \<noteq> vc_to v)"

definition account_diff_of :: "bundle_account \<Rightarrow> account_diff option" where
  "account_diff_of ba =
     (let balance = info_change ai_balance 0 ba;
          nonce = info_change ai_nonce 0 ba;
          code_change = code_change_of ba;
          storage = storage_changes_of ba;
          has_changes = has_changed balance \<or> has_changed nonce \<or> code_change \<noteq> None \<or> storage \<noteq> [] \<or> ba_was_destroyed ba
      in if has_changes
         then Some \<lparr> ad_change_type = change_type_of ba, ad_balance = balance, ad_nonce = nonce,
           ad_code_change = code_change, ad_storage = storage \<rparr>
         else None)"

text \<open>The accounts of a bundle come from a hash map; a \<open>BTreeMap\<close> puts them in order.\<close>

definition from_bundle_state :: "(address \<times> bundle_account) list \<Rightarrow> state_diff" where
  "from_bundle_state bundle = \<lparr> sd_accounts = sort_key fst
     (List.map_filter (\<lambda>(a, ba). map_option (Pair a) (account_diff_of ba)) bundle) \<rparr>"

section \<open>Account leaves\<close>

definition ACCOUNT_VALUE_LEN :: nat where "ACCOUNT_VALUE_LEN = 72"

definition encode_account_value :: "u256 \<Rightarrow> u64 \<Rightarrow> b256 \<Rightarrow> bytes" where
  "encode_account_value balance nonce code_hash = be_bytes 32 balance @ be_bytes 8 nonce @ be_bytes 32 code_hash"

definition decode_code_hash_checked :: "bytes \<Rightarrow> b256 option" where
  "decode_code_hash_checked value =
     (if length value \<ge> ACCOUNT_VALUE_LEN then Some (from_be_bytes (take 32 (drop 40 value))) else None)"

definition decode_code_hash :: "bytes \<Rightarrow> b256" where
  "decode_code_hash value = (case decode_code_hash_checked value of Some h \<Rightarrow> h | None \<Rightarrow> 0)"

lemma decode_encode_account [simp]: "decode_code_hash_checked (encode_account_value balance nonce code_hash) = Some code_hash"
  by (simp add: decode_code_hash_checked_def encode_account_value_def ACCOUNT_VALUE_LEN_def)

lemma encode_account_inject [simp]:
  "encode_account_value b n c = encode_account_value b' n' c' \<longleftrightarrow> b = b' \<and> n = n' \<and> c = c'"
  by (auto simp: encode_account_value_def be_bytes_inject)

end
