(* ===== verification/N42_ShardedSbmt.thy ===== *)
theory N42_ShardedSbmt
  imports N42_SbmtProof N42_StateDiff
begin

text \<open>
  The 16-shard tree of \<^verbatim>\<open>n42-jmt/src/sharded_bmt.rs\<close>: each shard is a binary Merkle tree with a map of the
  raw values. The shards are independent, so the parallel loops of the code are loops over the list
  of shards. The lemmas show the tree to be a map from keys to values whose combined root depends
  on the map alone, its proofs to verify, and verified proofs to be true of the map.
\<close>

section \<open>State and reading\<close>

record sharded_sbmt =
  sh_shards :: "sbmt list"
  sh_values :: "(b256 \<rightharpoonup> bytes) list"
  sh_version :: u64

definition sharded_new :: sharded_sbmt where
  "sharded_new = \<lparr> sh_shards = replicate SHARD_COUNT (with_base_depth SHARD_BITS),
     sh_values = replicate SHARD_COUNT Map.empty, sh_version = 0 \<rparr>"

text \<open>The root hashes of the shards; reading them fills the caches.\<close>

fun shard_roots :: "ext_lib \<Rightarrow> sbmt list \<Rightarrow> (sbmt list \<times> b256 list) option" where
  "shard_roots L [] = Some ([], [])"
| "shard_roots L (s # shards) =
     Option.bind (root_hash L s) (\<lambda>(s, h).
       Option.bind (shard_roots L shards) (\<lambda>(shards, hs). Some (s # shards, h # hs)))"

definition sharded_root_hash :: "ext_lib \<Rightarrow> sharded_sbmt \<Rightarrow> (sharded_sbmt \<times> b256) option" where
  "sharded_root_hash L t = Option.bind (shard_roots L (sh_shards t)) (\<lambda>(shards, roots).
     Option.bind (shard_tree_root L roots) (\<lambda>h. Some (t\<lparr> sh_shards := shards \<rparr>, h)))"

definition sharded_get :: "b256 \<Rightarrow> sharded_sbmt \<Rightarrow> bytes option" where
  "sharded_get key t = (sh_values t ! shard_index_for_key key) key"

section \<open>Updates\<close>

definition insert_raw :: "ext_lib \<Rightarrow> b256 \<Rightarrow> bytes \<Rightarrow> sharded_sbmt \<Rightarrow> sharded_sbmt option" where
  "insert_raw L key value t =
     (let si = shard_index_for_key key in
      Option.bind (sbmt_insert L key value (sh_shards t ! si)) (\<lambda>s.
        Some (t\<lparr> sh_shards := (sh_shards t)[si := s], sh_values := (sh_values t)[si := (sh_values t ! si)(key \<mapsto> value)] \<rparr>)))"

fun seed_storage :: "ext_lib \<Rightarrow> address \<Rightarrow> (u256 \<times> u256) list \<Rightarrow> sharded_sbmt \<Rightarrow> sharded_sbmt option" where
  "seed_storage L address [] t = Some t"
| "seed_storage L address ((slot, value) # storage) t =
     (if value = 0 then seed_storage L address storage t
      else Option.bind (insert_raw L (storage_key L address slot) (be_bytes 32 value) t) (\<lambda>t.
        seed_storage L address storage t))"

definition seed_genesis_account ::
  "ext_lib \<Rightarrow> address \<Rightarrow> u256 \<Rightarrow> u64 \<Rightarrow> b256 \<Rightarrow> (u256 \<times> u256) list \<Rightarrow> sharded_sbmt \<Rightarrow> sharded_sbmt option" where
  "seed_genesis_account L address balance nonce code_hash storage t =
     Option.bind (insert_raw L (account_key L address) (encode_account_value balance nonce code_hash) t) (\<lambda>t.
       seed_storage L address storage t)"

datatype apply_error = CorruptLeaf address | ReadMiss address

type_synonym tree_update = "b256 \<times> bytes option"

definition push_update :: "tree_update \<Rightarrow> tree_update list list \<Rightarrow> tree_update list list" where
  "push_update u us = (let si = shard_index_for_key (fst u) in us[si := us ! si @ [u]])"

definition account_code_hash ::
  "ext_lib \<Rightarrow> sharded_sbmt \<Rightarrow> address \<Rightarrow> account_diff \<Rightarrow> (apply_error, b256) outcome" where
  "account_code_hash L t address ad = (case ad_code_change ad of
     Some change \<Rightarrow> Ok (case vc_to change of Some h \<Rightarrow> h | None \<Rightarrow> EMPTY_CODE_HASH)
   | None \<Rightarrow> (case sharded_get (account_key L address) t of
       Some value \<Rightarrow> (case decode_code_hash_checked value of
           Some h \<Rightarrow> Ok h
         | None \<Rightarrow> Err (CorruptLeaf address))
     | None \<Rightarrow> if ad_change_type ad = AccountCreated then Ok EMPTY_CODE_HASH else Err (ReadMiss address)))"

definition storage_update :: "ext_lib \<Rightarrow> address \<Rightarrow> u256 \<times> u256 value_change \<Rightarrow> tree_update" where
  "storage_update L address sc = (storage_key L address (fst sc),
     if vc_to (snd sc) = 0 then None else Some (be_bytes 32 (vc_to (snd sc))))"

text \<open>The updates of one account, in the order in which they are pushed.\<close>

definition account_updates ::
  "ext_lib \<Rightarrow> sharded_sbmt \<Rightarrow> address \<times> account_diff \<Rightarrow> (apply_error, tree_update list) outcome" where
  "account_updates L t aad = (case aad of (address, ad) \<Rightarrow>
     if ad_change_type ad = AccountDestroyed
     then Ok ((account_key L address, None) # map (\<lambda>sc. (storage_key L address (fst sc), None)) (ad_storage ad))
     else let balance = (case ad_balance ad of Some v \<Rightarrow> vc_to v | None \<Rightarrow> 0);
              nonce = (case ad_nonce ad of Some v \<Rightarrow> vc_to v | None \<Rightarrow> 0)
       in bind_outcome (account_code_hash L t address ad) (\<lambda>code_hash.
         Ok ((account_key L address, Some (encode_account_value balance nonce code_hash))
             # map (storage_update L address) (ad_storage ad))))"

fun prepare_accounts ::
  "ext_lib \<Rightarrow> sharded_sbmt \<Rightarrow> (address \<times> account_diff) list \<Rightarrow> tree_update list list \<Rightarrow> (apply_error, tree_update list list) outcome" where
  "prepare_accounts L t [] us = Ok us"
| "prepare_accounts L t (a # accounts) us =
     bind_outcome (account_updates L t a) (\<lambda>xs. prepare_accounts L t accounts (fold push_update xs us))"

definition prepare :: "ext_lib \<Rightarrow> state_diff \<Rightarrow> sharded_sbmt \<Rightarrow> (apply_error, tree_update list list) outcome" where
  "prepare L diff t = prepare_accounts L t (sd_accounts diff) (replicate SHARD_COUNT [])"

text \<open>The work on one shard: its updates in order, then its root hash.\<close>

fun apply_updates :: "ext_lib \<Rightarrow> tree_update list \<Rightarrow> sbmt \<times> (b256 \<rightharpoonup> bytes) \<Rightarrow> (sbmt \<times> (b256 \<rightharpoonup> bytes)) option" where
  "apply_updates L [] (tree, kv) = Some (tree, kv)"
| "apply_updates L ((key, value) # updates) (tree, kv) = (case value of
     Some bytes \<Rightarrow> Option.bind (sbmt_insert L key bytes tree) (\<lambda>tree. apply_updates L updates (tree, kv(key \<mapsto> bytes)))
   | None \<Rightarrow> Option.bind (sbmt_remove key tree) (\<lambda>(tree, _). apply_updates L updates (tree, kv(key := None))))"

fun apply_shards ::
  "ext_lib \<Rightarrow> sbmt list \<Rightarrow> (b256 \<rightharpoonup> bytes) list \<Rightarrow> tree_update list list \<Rightarrow>
   (sbmt list \<times> (b256 \<rightharpoonup> bytes) list \<times> b256 list) option" where
  "apply_shards L (tree # trees) (kv # kvs) (us # uss) =
     Option.bind (apply_updates L us (tree, kv)) (\<lambda>(tree, kv).
       Option.bind (root_hash L tree) (\<lambda>(tree, h).
         Option.bind (apply_shards L trees kvs uss) (\<lambda>(trees, kvs, hs). Some (tree # trees, kv # kvs, h # hs))))"
| "apply_shards L trees kvs uss = Some ([], [], [])"

definition sharded_apply_diff ::
  "ext_lib \<Rightarrow> state_diff \<Rightarrow> sharded_sbmt \<Rightarrow> sharded_sbmt \<times> (apply_error, u64 \<times> b256) outcome" where
  "sharded_apply_diff L diff t =
     (let new_version = sh_version t + 1 in
      trying (prepare L diff t) t (\<lambda>shard_updates.
        case apply_shards L (sh_shards t) (sh_values t) shard_updates of
          None \<Rightarrow> (t, Panic)
        | Some (shards, values, roots) \<Rightarrow> (case shard_tree_root L roots of
            None \<Rightarrow> (t, Panic)
          | Some h \<Rightarrow> (t\<lparr> sh_shards := shards, sh_values := values, sh_version := new_version \<rparr>, Ok (new_version, h)))))"

section \<open>Statistics, proofs and snapshots\<close>

definition shard_stats :: "sharded_sbmt \<Rightarrow> (nat \<times> nat) list" where
  "shard_stats t = map (\<lambda>(s, v). (sb_len s, card (dom v))) (zip (sh_shards t) (sh_values t))"

fun sum_node_stats :: "sbmt list \<Rightarrow> node_stats \<Rightarrow> node_stats option" where
  "sum_node_stats [] agg = Some agg"
| "sum_node_stats (s # shards) agg = Option.bind (sbmt_node_stats s) (\<lambda>st. sum_node_stats shards
     \<lparr> internal_nodes = internal_nodes agg + internal_nodes st, leaf_nodes = leaf_nodes agg + leaf_nodes st,
       serialized_bytes = serialized_bytes agg + serialized_bytes st \<rparr>)"

definition sharded_node_stats :: "sharded_sbmt \<Rightarrow> node_stats option" where
  "sharded_node_stats t = sum_node_stats (sh_shards t) \<lparr> internal_nodes = 0, leaf_nodes = 0, serialized_bytes = 0 \<rparr>"

definition sharded_prove :: "ext_lib \<Rightarrow> b256 \<Rightarrow> sharded_sbmt \<Rightarrow> (sharded_sbmt \<times> sharded_bmt_proof) option" where
  "sharded_prove L key t =
     (let si = shard_index_for_key key in
      Option.bind (prove L key (sh_shards t ! si)) (\<lambda>(s, inner).
        let value = (sh_values t ! si) key in
        Option.bind (shard_roots L ((sh_shards t)[si := s])) (\<lambda>(shards, roots).
          Option.bind (shard_tree_path L roots si) (\<lambda>path.
            Some (t\<lparr> sh_shards := shards \<rparr>, \<lparr> sp_shard_index = word_of_nat si, sp_shard_root = roots ! si,
              sp_shard_path = path, sp_inner = inner, sp_value = value \<rparr>)))))"

record jmt_snapshot =
  js_version :: u64
  js_root :: b256
  js_entries :: "(b256 \<times> bytes) list"

text \<open>
  A snapshot lists the values of all shards. The order in which a hash map is iterated is not
  specified: it is the argument \<open>iter\<close>, which lists the pairs of a map.
\<close>

definition sharded_snapshot ::
  "ext_lib \<Rightarrow> ((b256 \<rightharpoonup> bytes) \<Rightarrow> (b256 \<times> bytes) list) \<Rightarrow> sharded_sbmt \<Rightarrow> (sharded_sbmt \<times> jmt_snapshot) option" where
  "sharded_snapshot L iter t = Option.bind (sharded_root_hash L t) (\<lambda>(t, h).
     Some (t, \<lparr> js_version = sh_version t, js_root = h, js_entries = concat (map iter (sh_values t)) \<rparr>))"

fun insert_snapshot_entries :: "ext_lib \<Rightarrow> (b256 \<times> bytes) list \<Rightarrow> sharded_sbmt \<Rightarrow> sharded_sbmt option" where
  "insert_snapshot_entries L [] t = Some t"
| "insert_snapshot_entries L ((key, value) # entries) t = Option.bind (insert_raw L key value t) (\<lambda>t. insert_snapshot_entries L entries t)"

definition from_snapshot :: "ext_lib \<Rightarrow> jmt_snapshot \<Rightarrow> (b256, sharded_sbmt) outcome" where
  "from_snapshot L snapshot = (case insert_snapshot_entries L (js_entries snapshot) sharded_new of
     None \<Rightarrow> Panic
   | Some t \<Rightarrow> (case sharded_root_hash L (t\<lparr> sh_version := js_version snapshot \<rparr>) of
       None \<Rightarrow> Panic
     | Some (t, root) \<Rightarrow> if root \<noteq> js_root snapshot then Err root else Ok t))"

section \<open>Keys and shards\<close>

lemma shard_index_less: "shard_index_for_key k < SHARD_COUNT"
proof -
  have "unat (drop_bit 4 (b :: u8)) = unat b div 16" for b
    using unat_drop_bit_eq [of 4 b] by (simp only: drop_bit_eq_div) simp
  moreover have "unat b < 256" for b :: u8 using unat_bound [of b] by simp
  ultimately show ?thesis by (simp add: shard_index_for_key_def SHARD_COUNT_def less_mult_imp_div_less)
qed

lemma shard_agree: "shard_index_for_key k = shard_index_for_key k' \<Longrightarrow> agree SHARD_BITS k k'"
proof -
  assume "shard_index_for_key k = shard_index_for_key k'"
  then have eq: "drop_bit 4 (be_bytes 32 k ! 0) = drop_bit 4 (be_bytes 32 k' ! 0)"
    by (simp add: shard_index_for_key_def word_unat_eq_iff)
  have "bit (drop_bit 4 (be_bytes 32 x ! 0)) (3 - d) = kb x d" if "d < 4" for d and x :: b256
  proof -
    have "4 + (3 - d) < 8" "248 + (4 + (3 - d)) = 255 - d" using that by auto
    then show ?thesis by (simp add: nth_be_bytes bit_simps kb_def)
  qed
  then show ?thesis using eq unfolding agree_def SHARD_BITS_def by metis
qed

lemma aligned_shard: "\<forall>k \<in> K. shard_index_for_key k = i \<Longrightarrow> aligned SHARD_BITS K"
  by (auto simp: aligned_def intro: shard_agree)

section \<open>The tree as a map from keys to values\<close>

text \<open>A shard holds the part of the map whose keys it is responsible for.\<close>

definition shard_part :: "(b256 \<rightharpoonup> 'a) \<Rightarrow> nat \<Rightarrow> (b256 \<rightharpoonup> 'a)" where
  "shard_part m i = (\<lambda>k. if shard_index_for_key k = i then m k else None)"

definition shard_holds :: "ext_lib \<Rightarrow> (b256 \<rightharpoonup> bytes) \<Rightarrow> sbmt \<Rightarrow> trie \<Rightarrow> bool" where
  "shard_holds L kv s t \<longleftrightarrow> denotes L s t \<and> sb_base_depth s = SHARD_BITS \<and>
     (\<lambda>k. tlookup k SHARD_BITS t) = (\<lambda>k. map_option (hash_value L) (kv k))"

fun shards_hold :: "ext_lib \<Rightarrow> (b256 \<rightharpoonup> bytes) \<Rightarrow> nat list \<Rightarrow> sbmt list \<Rightarrow> trie list \<Rightarrow> bool" where
  "shards_hold L m [] [] [] \<longleftrightarrow> True"
| "shards_hold L m (i # idx) (s # shards) (t # tries) \<longleftrightarrow> shard_holds L (shard_part m i) s t \<and> shards_hold L m idx shards tries"
| "shards_hold L m idx shards tries \<longleftrightarrow> False"

fun_cases shards_hold_ConsE: "shards_hold L m (i # idx) shards tries"

definition sharded_ok :: "ext_lib \<Rightarrow> (b256 \<rightharpoonup> bytes) \<Rightarrow> sharded_sbmt \<Rightarrow> trie list \<Rightarrow> bool" where
  "sharded_ok L m t tries \<longleftrightarrow> sh_values t = map (shard_part m) [0..<SHARD_COUNT] \<and>
     shards_hold L m [0..<SHARD_COUNT] (sh_shards t) tries"

lemma shards_hold_iff:
  "shards_hold L m idx shards tries \<longleftrightarrow> length shards = length idx \<and> length tries = length idx \<and>
     (\<forall>j < length idx. shard_holds L (shard_part m (idx ! j)) (shards ! j) (tries ! j))"
proof (induction L m idx shards tries rule: shards_hold.induct)
  case (2 L m i idx s shards t tries)
  then show ?case by (auto simp: less_Suc_eq_0_disj)
qed auto

definition slots_within :: "nat \<Rightarrow> sharded_sbmt \<Rightarrow> bool" where
  "slots_within n t \<longleftrightarrow> (\<forall>s \<in> set (sh_shards t). length (sb_nodes s) \<le> n)"

definition write_map :: "tree_update \<Rightarrow> (b256 \<rightharpoonup> bytes) \<Rightarrow> (b256 \<rightharpoonup> bytes)" where
  "write_map u m = m(fst u := snd u)"

lemma sharded_get_ok: "sharded_ok L m t tries \<Longrightarrow> sharded_get k t = m k"
  using shard_index_less by (simp add: sharded_ok_def sharded_get_def shard_part_def)

lemma sharded_new_ok: "sharded_ok L Map.empty sharded_new (replicate SHARD_COUNT TEmpty)" "slots_within n sharded_new"
proof -
  have "shard_holds L (shard_part Map.empty i) (with_base_depth SHARD_BITS) TEmpty" for i
    using denotes_new [of SHARD_BITS L] by (simp add: shard_holds_def shard_part_def with_base_depth_def SHARD_BITS_def)
  then show "sharded_ok L Map.empty sharded_new (replicate SHARD_COUNT TEmpty)" "slots_within n sharded_new"
    by (auto simp: sharded_ok_def shards_hold_iff sharded_new_def slots_within_def with_base_depth_def shard_part_def intro!: nth_equalityI)
qed

lemma shard_holds_lookup: "shard_holds L kv s t \<Longrightarrow> tlookup k SHARD_BITS t = map_option (hash_value L) (kv k)"
  by (auto simp: shard_holds_def dest: fun_cong [of _ _ k])

lemma shard_holds_keys: "shard_holds L kv s t \<Longrightarrow> tkeys t = dom kv"
  using tlookup_keys by (fastforce simp: shard_holds_def denotes_def fun_eq_iff dom_def)

lemma shard_update:
  assumes "shard_holds L (shard_part m i) s t" and "shard_index_for_key k = i" and "length (sb_nodes s) + 257 < 2 ^ 32"
  shows "\<exists>s' t'. (case v of Some x \<Rightarrow> sbmt_insert L k x s | None \<Rightarrow> map_option fst (sbmt_remove k s)) = Some s' \<and>
    shard_holds L (shard_part (write_map (k, v) m) i) s' t' \<and> length (sb_nodes s') \<le> length (sb_nodes s) + 257"
proof -
  have d: "denotes L s t" "sb_base_depth s = SHARD_BITS" using assms(1) by (simp_all add: shard_holds_def)
  have "\<forall>x \<in> insert k (tkeys t). shard_index_for_key x = i"
    using shard_holds_keys [OF assms(1)] assms(2) by (auto simp: shard_part_def split: if_splits)
  then have "aligned SHARD_BITS (insert k (tkeys t))" by (rule aligned_shard)
  from apply_update_denotes [OF d this assms(3), of v] obtain s' t' where
    s': "(case v of Some x \<Rightarrow> sbmt_insert L k x s | None \<Rightarrow> map_option fst (sbmt_remove k s)) = Some s'"
    "denotes L s' t'" "sb_base_depth s' = SHARD_BITS"
    "(\<lambda>x. tlookup x SHARD_BITS t') = update_map L (k, v) (\<lambda>x. tlookup x SHARD_BITS t)"
    "length (sb_nodes s') \<le> length (sb_nodes s) + 257" by blast
  have "(\<lambda>x. tlookup x SHARD_BITS t') = (\<lambda>x. map_option (hash_value L) (shard_part (write_map (k, v) m) i x))"
    using s'(4) assms(1,2) by (auto simp: shard_holds_def update_map_def shard_part_def write_map_def fun_eq_iff)
  then show ?thesis using s' by (auto simp: shard_holds_def)
qed

lemma shard_part_other: "shard_index_for_key k \<noteq> i \<Longrightarrow> shard_part (write_map (k, v) m) i = shard_part m i"
  by (auto simp: shard_part_def write_map_def fun_eq_iff)

lemma shard_part_filter:
  "shard_part (fold write_map (filter (\<lambda>u. shard_index_for_key (fst u) = i) us) m) i = shard_part (fold write_map us m) i"
proof -
  have "shard_part (fold write_map (filter (\<lambda>u. shard_index_for_key (fst u) = i) us) m) i = shard_part (fold write_map us m') i"
    if "shard_part m i = shard_part m' i" for m m'
    using that
  proof (induction us arbitrary: m m')
    case (Cons u us)
    have "shard_part (write_map u m) i = shard_part (write_map u m') i"
      using Cons.prems by (simp add: shard_part_def write_map_def fun_eq_iff) metis
    moreover have "shard_index_for_key (fst u) \<noteq> i \<Longrightarrow> shard_part m i = shard_part (write_map u m') i"
      using Cons.prems by (simp add: shard_part_def write_map_def fun_eq_iff)
    ultimately show ?case using Cons.IH by simp
  qed simp
  then show ?thesis by blast
qed

lemma apply_updates_holds:
  assumes "shard_holds L (shard_part m i) s t" and "\<forall>u \<in> set us. shard_index_for_key (fst u) = i"
    and "length (sb_nodes s) + 257 * length us < 2 ^ 32"
  shows "\<exists>s' t'. apply_updates L us (s, shard_part m i) = Some (s', shard_part (fold write_map us m) i) \<and>
    shard_holds L (shard_part (fold write_map us m) i) s' t' \<and> length (sb_nodes s') \<le> length (sb_nodes s) + 257 * length us"
  using assms
proof (induction us arbitrary: s t m)
  case (Cons u us)
  obtain k v where u: "u = (k, v)" by (cases u)
  have i: "shard_index_for_key k = i" using Cons.prems(2) u by simp
  obtain s1 t1 where s1: "(case v of Some x \<Rightarrow> sbmt_insert L k x s | None \<Rightarrow> map_option fst (sbmt_remove k s)) = Some s1"
    "shard_holds L (shard_part (write_map (k, v) m) i) s1 t1" "length (sb_nodes s1) \<le> length (sb_nodes s) + 257"
    using shard_update [OF Cons.prems(1) i, of v] Cons.prems(3) by auto
  have kv: "(shard_part m i)(k := v) = shard_part (write_map (k, v) m) i"
    using i by (auto simp: shard_part_def write_map_def fun_eq_iff)
  have "\<forall>u \<in> set us. shard_index_for_key (fst u) = i" "length (sb_nodes s1) + 257 * length us < 2 ^ 32"
    using Cons.prems s1(3) by auto
  from Cons.IH [OF s1(2) this] show ?case using s1(1,3) u kv by (cases v) (fastforce simp: bind_eq_Some_conv)+
qed auto

lemma shard_holds_root:
  assumes "shard_holds L kv s t"
  shows "\<exists>s'. root_hash L s = Some (s', thash L t) \<and> shard_holds L kv s' t \<and> length (sb_nodes s') = length (sb_nodes s)"
  using root_hash_denotes [of L s t] assms by (auto simp: shard_holds_def)

lemma apply_shards_hold:
  assumes "shards_hold L m idx shards tries" and "\<forall>s \<in> set shards. length (sb_nodes s) + 257 * length us < 2 ^ 32"
  shows "\<exists>shards' tries'. apply_shards L shards (map (shard_part m) idx) (map (\<lambda>i. filter (\<lambda>u. shard_index_for_key (fst u) = i) us) idx)
      = Some (shards', map (shard_part (fold write_map us m)) idx, map (thash L) tries') \<and>
    shards_hold L (fold write_map us m) idx shards' tries' \<and>
    (\<forall>n. (\<forall>s \<in> set shards. length (sb_nodes s) \<le> n) \<longrightarrow> (\<forall>s \<in> set shards'. length (sb_nodes s) \<le> n + 257 * length us))"
  using assms
proof (induction L m idx shards tries rule: shards_hold.induct)
  case (2 L m i idx s shards t tries)
  let ?us = "filter (\<lambda>u. shard_index_for_key (fst u) = i) us"
  let ?m = "fold write_map us m"
  have len: "length ?us \<le> length us" by simp
  moreover have "length (sb_nodes s) + 257 * length us < 2 ^ 32" using 2(3) by simp
  ultimately have "length (sb_nodes s) + 257 * length ?us < 2 ^ 32" by linarith
  then obtain s1 t1 where s1: "apply_updates L ?us (s, shard_part m i) = Some (s1, shard_part ?m i)"
    "shard_holds L (shard_part ?m i) s1 t1" "length (sb_nodes s1) \<le> length (sb_nodes s) + 257 * length ?us"
    using apply_updates_holds [of L m i s t ?us] 2(2) unfolding shard_part_filter by auto
  obtain s2 where s2: "root_hash L s1 = Some (s2, thash L t1)" "shard_holds L (shard_part ?m i) s2 t1"
    "length (sb_nodes s2) = length (sb_nodes s1)" using shard_holds_root [OF s1(2)] by blast
  obtain shards' tries' where r: "apply_shards L shards (map (shard_part m) idx) (map (\<lambda>i. filter (\<lambda>u. shard_index_for_key (fst u) = i) us) idx)
      = Some (shards', map (shard_part ?m) idx, map (thash L) tries')" "shards_hold L ?m idx shards' tries'"
    "\<forall>n. (\<forall>s \<in> set shards. length (sb_nodes s) \<le> n) \<longrightarrow> (\<forall>s \<in> set shards'. length (sb_nodes s) \<le> n + 257 * length us)"
    using 2(1) 2(2,3) by auto
  have "apply_shards L (s # shards) (map (shard_part m) (i # idx)) (map (\<lambda>i. filter (\<lambda>u. shard_index_for_key (fst u) = i) us) (i # idx))
      = Some (s2 # shards', map (shard_part ?m) (i # idx), map (thash L) (t1 # tries'))" using s1(1) s2(1) r(1) by simp
  moreover have "length (sb_nodes s2) \<le> n + 257 * length us" if "length (sb_nodes s) \<le> n" for n
    using s1(3) s2(3) len that by linarith
  ultimately show ?case using s2(2) r(2,3) by (intro exI [of _ "s2 # shards'"] exI [of _ "t1 # tries'"]) auto
qed auto

lemma shard_roots_hold:
  assumes "shards_hold L m idx shards tries"
  shows "\<exists>shards'. shard_roots L shards = Some (shards', map (thash L) tries) \<and> shards_hold L m idx shards' tries \<and>
    (\<forall>n. (\<forall>s \<in> set shards. length (sb_nodes s) \<le> n) \<longrightarrow> (\<forall>s \<in> set shards'. length (sb_nodes s) \<le> n))"
  using assms
proof (induction L m idx shards tries rule: shards_hold.induct)
  case (2 L m i idx s shards t tries)
  obtain s1 where "root_hash L s = Some (s1, thash L t)" "shard_holds L (shard_part m i) s1 t" "length (sb_nodes s1) = length (sb_nodes s)"
    using shard_holds_root [of L "shard_part m i" s t] 2(2) by auto
  then show ?case using 2 by auto
qed auto

lemma shards_hold_unique:
  assumes "shards_hold L m idx shards tries" and "shards_hold L m idx shards' tries'"
  shows "tries = tries'"
proof -
  have "t = t'" if "shard_holds L kv s t" "shard_holds L kv s' t'" for kv s s' t t'
    using that trie_unique [of SHARD_BITS t t'] by (auto simp: shard_holds_def denotes_def fun_eq_iff)
  note eq = this
  show ?thesis using assms by (auto simp: shards_hold_iff intro!: nth_equalityI) (metis eq)
qed

section \<open>Applying a diff\<close>

text \<open>The updates of a whole diff, in order.\<close>

fun diff_updates :: "ext_lib \<Rightarrow> sharded_sbmt \<Rightarrow> (address \<times> account_diff) list \<Rightarrow> (apply_error, tree_update list) outcome" where
  "diff_updates L t [] = Ok []"
| "diff_updates L t (a # accounts) = bind_outcome (account_updates L t a) (\<lambda>xs.
     bind_outcome (diff_updates L t accounts) (\<lambda>ys. Ok (xs @ ys)))"

abbreviation by_shard :: "tree_update list \<Rightarrow> tree_update list list" where
  "by_shard us \<equiv> map (\<lambda>i. filter (\<lambda>u. shard_index_for_key (fst u) = i) us) [0..<SHARD_COUNT]"

lemma push_by_shard: "fold push_update xs (by_shard us) = by_shard (us @ xs)"
proof (induction xs arbitrary: us)
  case (Cons u xs)
  have "push_update u (by_shard us) = by_shard (us @ [u])"
    using shard_index_less [of "fst u"] by (auto simp: push_update_def Let_def intro!: nth_equalityI simp: nth_list_update)
  then show ?case using Cons.IH [of "us @ [u]"] by simp
qed simp

lemma prepare_by_shard: "prepare L diff t = bind_outcome (diff_updates L t (sd_accounts diff)) (\<lambda>us. Ok (by_shard us))"
proof -
  have "prepare_accounts L t as (by_shard us) = bind_outcome (diff_updates L t as) (\<lambda>xs. Ok (by_shard (us @ xs)))" for as us
  proof (induction as arbitrary: us)
    case (Cons a as)
    show ?case
    proof (cases "account_updates L t a")
      case (Ok xs)
      then show ?thesis
        using Cons.IH [of "us @ xs"] by (cases "diff_updates L t as") (simp_all add: push_by_shard del: map_eq_conv filter_append)
    qed simp_all
  qed simp
  from this [of "sd_accounts diff" "[]"] show ?thesis by (simp add: prepare_def map_replicate_const)
qed

lemma account_updates_no_panic: "account_updates L t a \<noteq> Panic"
  by (cases a) (auto simp: account_updates_def account_code_hash_def Let_def split: option.splits if_splits)

lemma diff_updates_no_panic: "diff_updates L t as \<noteq> Panic"
proof (induction as)
  case (Cons a as)
  then show ?case using account_updates_no_panic [of L t a]
    by (cases "account_updates L t a"; cases "diff_updates L t as") auto
qed simp

lemma tries_root:
  assumes "length tries = SHARD_COUNT"
  shows "\<exists>h. shard_tree_root L (map (thash L) tries) = Some h"
  using shard_tree_complete [of "map (thash L) tries" 4 0 L] assms by (auto simp: SHARD_COUNT_def)

lemma sharded_ok_length: "sharded_ok L m t tries \<Longrightarrow> length tries = SHARD_COUNT \<and> length (sh_shards t) = SHARD_COUNT"
  by (simp add: sharded_ok_def shards_hold_iff)

lemma apply_diff_refused:
  "diff_updates L t (sd_accounts diff) = Err e \<Longrightarrow> sharded_apply_diff L diff t = (t, Err e)"
  by (simp add: sharded_apply_diff_def prepare_by_shard)

lemma apply_diff_done:
  assumes "sharded_ok L m t tries" and "slots_within n t" and "diff_updates L t (sd_accounts diff) = Ok us"
    and "n + 257 * length us < 2 ^ 32"
  shows "\<exists>t' tries' h. sharded_apply_diff L diff t = (t', Ok (sh_version t + 1, h)) \<and> sharded_ok L (fold write_map us m) t' tries' \<and>
    slots_within (n + 257 * length us) t' \<and> sh_version t' = sh_version t + 1 \<and>
    shard_tree_root L (map (thash L) tries') = Some h"
proof -
  have room: "\<forall>s \<in> set (sh_shards t). length (sb_nodes s) + 257 * length us < 2 ^ 32"
    using assms(2,4) by (force simp: slots_within_def)
  have hold: "shards_hold L m [0..<SHARD_COUNT] (sh_shards t) tries" and v: "sh_values t = map (shard_part m) [0..<SHARD_COUNT]"
    using assms(1) by (simp_all add: sharded_ok_def)
  obtain shards' tries' where r: "apply_shards L (sh_shards t) (sh_values t) (by_shard us)
      = Some (shards', map (shard_part (fold write_map us m)) [0..<SHARD_COUNT], map (thash L) tries')"
    "shards_hold L (fold write_map us m) [0..<SHARD_COUNT] shards' tries'"
    "\<forall>s \<in> set shards'. length (sb_nodes s) \<le> n + 257 * length us"
    using apply_shards_hold [OF hold room] assms(2) unfolding v slots_within_def by blast
  obtain h where h: "shard_tree_root L (map (thash L) tries') = Some h"
    using tries_root r(2) by (fastforce simp: shards_hold_iff)
  have "sharded_apply_diff L diff t = (t\<lparr> sh_shards := shards', sh_values := map (shard_part (fold write_map us m)) [0..<SHARD_COUNT],
      sh_version := sh_version t + 1 \<rparr>, Ok (sh_version t + 1, h))"
    using r(1) h assms(3) by (simp add: sharded_apply_diff_def prepare_by_shard Let_def)
  then show ?thesis using r(2,3) h by (auto simp: sharded_ok_def slots_within_def)
qed

lemma sharded_root_ok:
  assumes "sharded_ok L m t tries"
  shows "\<exists>t' h. sharded_root_hash L t = Some (t', h) \<and> sharded_ok L m t' tries \<and> sh_version t' = sh_version t \<and>
    shard_tree_root L (map (thash L) tries) = Some h \<and> (\<forall>n. slots_within n t \<longrightarrow> slots_within n t')"
proof -
  have hold: "shards_hold L m [0..<SHARD_COUNT] (sh_shards t) tries" using assms by (simp add: sharded_ok_def)
  obtain shards' where r: "shard_roots L (sh_shards t) = Some (shards', map (thash L) tries)" "shards_hold L m [0..<SHARD_COUNT] shards' tries"
    "\<forall>n. (\<forall>s \<in> set (sh_shards t). length (sb_nodes s) \<le> n) \<longrightarrow> (\<forall>s \<in> set shards'. length (sb_nodes s) \<le> n)"
    using shard_roots_hold [OF hold] by blast
  obtain h where "shard_tree_root L (map (thash L) tries) = Some h"
    using tries_root sharded_ok_length [OF assms] by blast
  then show ?thesis using r assms by (auto simp: sharded_root_hash_def sharded_ok_def slots_within_def)
qed

lemma sharded_ok_unique: "sharded_ok L m t tries \<Longrightarrow> sharded_ok L m t' tries' \<Longrightarrow> tries = tries'"
  using shards_hold_unique by (auto simp: sharded_ok_def)

section \<open>Seeding, snapshots and proofs\<close>

lemma insert_raw_ok:
  assumes "sharded_ok L m t tries" and "slots_within n t" and "n + 257 < 2 ^ 32"
  shows "\<exists>t' tries'. insert_raw L k v t = Some t' \<and> sharded_ok L (m(k \<mapsto> v)) t' tries' \<and> slots_within (n + 257) t' \<and>
    sh_version t' = sh_version t"
proof -
  let ?i = "shard_index_for_key k"
  have i: "?i < SHARD_COUNT" by (rule shard_index_less)
  have len: "length (sh_shards t) = SHARD_COUNT" "length tries = SHARD_COUNT" using sharded_ok_length [OF assms(1)] by simp_all
  have hold: "\<And>j. j < SHARD_COUNT \<Longrightarrow> shard_holds L (shard_part m j) (sh_shards t ! j) (tries ! j)"
    and v: "sh_values t = map (shard_part m) [0..<SHARD_COUNT]" using assms(1) by (auto simp: sharded_ok_def shards_hold_iff)
  have "length (sb_nodes (sh_shards t ! ?i)) \<le> n" using assms(2) i len by (simp add: slots_within_def)
  then obtain s' t' where s': "sbmt_insert L k v (sh_shards t ! ?i) = Some s'"
    "shard_holds L (shard_part (write_map (k, Some v) m) ?i) s' t'" "length (sb_nodes s') \<le> n + 257"
    using shard_update [OF hold [OF i] refl, of "Some v"] assms(3) by fastforce
  have parts: "shard_part (write_map (k, Some v) m) j = (if j = ?i then (shard_part m j)(k \<mapsto> v) else shard_part m j)" for j
    by (auto simp: shard_part_def write_map_def fun_eq_iff)
  let ?t = "t\<lparr> sh_shards := (sh_shards t)[?i := s'], sh_values := (sh_values t)[?i := (sh_values t ! ?i)(k \<mapsto> v)] \<rparr>"
  have "shards_hold L (write_map (k, Some v) m) [0..<SHARD_COUNT] (sh_shards ?t) (tries[?i := t'])"
    using len hold s'(2) i by (auto simp: shards_hold_iff nth_list_update parts)
  moreover have "sh_values ?t = map (shard_part (write_map (k, Some v) m)) [0..<SHARD_COUNT]"
    using i unfolding v by (auto simp: parts nth_list_update intro!: nth_equalityI)
  ultimately have "sharded_ok L (m(k \<mapsto> v)) ?t (tries[?i := t'])" by (simp add: sharded_ok_def write_map_def)
  moreover have "slots_within (n + 257) ?t"
    using assms(2) s'(3) by (auto simp: slots_within_def dest!: set_update_subset_insert [THEN subsetD])
  ultimately show ?thesis using s'(1) by (auto simp: insert_raw_def Let_def)
qed

lemma insert_snapshot_entries_ok:
  assumes "sharded_ok L m t tries" and "slots_within n t" and "n + 257 * length entries < 2 ^ 32"
  shows "\<exists>t' tries'. insert_snapshot_entries L entries t = Some t' \<and> sharded_ok L (foldl (\<lambda>m (k, v). m(k \<mapsto> v)) m entries) t' tries' \<and>
    slots_within (n + 257 * length entries) t' \<and> sh_version t' = sh_version t"
  using assms
proof (induction entries arbitrary: m t tries n)
  case (Cons e entries)
  obtain k v where e: "e = (k, v)" by (cases e)
  have "n + 257 < 2 ^ 32" using Cons.prems(3) by simp
  from insert_raw_ok [OF Cons.prems(1,2) this, of k v] obtain t1 tries1 where
    t1: "insert_raw L k v t = Some t1" "sharded_ok L (m(k \<mapsto> v)) t1 tries1" "slots_within (n + 257) t1" "sh_version t1 = sh_version t" by blast
  have "n + 257 + 257 * length entries < 2 ^ 32" using Cons.prems(3) by simp
  from Cons.IH [OF t1(2,3) this] show ?case using t1(1,4) e by (auto simp: algebra_simps)
qed auto

fun storage_entries :: "ext_lib \<Rightarrow> address \<Rightarrow> (u256 \<times> u256) list \<Rightarrow> (b256 \<times> bytes) list" where
  "storage_entries L a [] = []"
| "storage_entries L a ((slot, value) # storage) =
     (if value = 0 then storage_entries L a storage
      else (storage_key L a slot, be_bytes 32 value) # storage_entries L a storage)"

lemma seed_storage_entries: "seed_storage L a storage t = insert_snapshot_entries L (storage_entries L a storage) t"
  by (induction storage arbitrary: t) (auto split: bind_splits)

lemma seed_genesis_entries:
  "seed_genesis_account L a balance nonce code_hash storage t =
     insert_snapshot_entries L ((account_key L a, encode_account_value balance nonce code_hash) # storage_entries L a storage) t"
  by (simp add: seed_genesis_account_def seed_storage_entries)

lemma storage_entries_length: "length (storage_entries L a storage) \<le> length storage"
  by (induction storage rule: storage_entries.induct) auto

lemma prove_ok:
  assumes "sharded_ok L m t tries"
  shows "\<exists>t' p h. sharded_prove L k t = Some (t', p) \<and> sharded_ok L m t' tries \<and> sh_version t' = sh_version t \<and>
    shard_tree_root L (map (thash L) tries) = Some h \<and> verify_for_key L p h k = Ok () \<and> sp_value p = m k"
proof -
  let ?i = "shard_index_for_key k" and ?tr = "tries ! shard_index_for_key k"
  have i: "?i < SHARD_COUNT" by (rule shard_index_less)
  have len: "length (sh_shards t) = SHARD_COUNT" "length tries = SHARD_COUNT" using sharded_ok_length [OF assms] by simp_all
  have hold: "\<And>j. j < SHARD_COUNT \<Longrightarrow> shard_holds L (shard_part m j) (sh_shards t ! j) (tries ! j)"
    and v: "sh_values t = map (shard_part m) [0..<SHARD_COUNT]" using assms by (auto simp: sharded_ok_def shards_hold_iff)
  let ?p = "proof_at k (tpath L k SHARD_BITS ?tr) (tend k SHARD_BITS ?tr)"
  obtain s' where s': "prove L k (sh_shards t ! ?i) = Some (s', ?p)" "shard_holds L (shard_part m ?i) s' ?tr"
    using prove_denotes [of L "sh_shards t ! ?i" ?tr k] hold [OF i] by (auto simp: shard_holds_def)
  have "shards_hold L m [0..<SHARD_COUNT] ((sh_shards t)[?i := s']) tries"
    using len hold s'(2) i by (auto simp: shards_hold_iff nth_list_update)
  from shard_roots_hold [OF this] obtain shards' where
    sh: "shard_roots L ((sh_shards t)[?i := s']) = Some (shards', map (thash L) tries)" "shards_hold L m [0..<SHARD_COUNT] shards' tries" by blast
  obtain h path where hp: "shard_tree_root L (map (thash L) tries) = Some h" "shard_tree_path L (map (thash L) tries) ?i = Some path"
    "length path = SHARD_BITS" "shard_tree_root_from_path L (thash L ?tr) ?i path = h"
    using shard_tree_complete [of "map (thash L) tries" SHARD_BITS ?i L] i len by (auto simp: SHARD_COUNT_def SHARD_BITS_def)
  have vh: "tlookup k SHARD_BITS ?tr = map_option (hash_value L) (m k)"
    using hold [OF i] by (simp add: shard_holds_def shard_part_def fun_eq_iff)
  have "twf SHARD_BITS ?tr" "SHARD_BITS \<le> 256" using hold [OF i] by (auto simp: shard_holds_def denotes_def)
  note ver = proof_at_verifies [OF this, of L k, unfolded vh]
  then have pv: "pf_value_hash ?p = map_option (hash_value L) (m k)" by (auto simp: bmt_verify_def split: if_splits)
  have idx: "unat (word_of_nat ?i :: u8) = ?i" using i by (simp add: unat_of_nat SHARD_COUNT_def)
  show ?thesis
    using s'(1) sh hp v i len idx ver pv
    by (auto simp: sharded_prove_def sharded_ok_def verify_for_key_def sharded_verify_def Let_def shard_part_def proof_at_def)
qed

text \<open>Restoring a snapshot gives a tree with the same contents, whatever the order of its entries.\<close>

lemma foldl_entries:
  "distinct (map fst xs) \<Longrightarrow> foldl (\<lambda>m (k, v). m(k \<mapsto> v)) m xs = m ++ map_of xs"
proof (induction xs arbitrary: m)
  case (Cons x xs)
  obtain k v where x: "x = (k, v)" by (cases x)
  have "map_of xs k = None" using Cons.prems x by (simp add: map_of_eq_None_iff)
  then show ?case using Cons x by (auto simp: map_add_def fun_eq_iff split: option.splits)
qed simp

definition lists_maps :: "((b256 \<rightharpoonup> bytes) \<Rightarrow> (b256 \<times> bytes) list) \<Rightarrow> bool" where
  "lists_maps iter \<longleftrightarrow> (\<forall>kv. finite (dom kv) \<longrightarrow> distinct (map fst (iter kv)) \<and> map_of (iter kv) = kv)"

lemma iter_part_keys:
  assumes "lists_maps iter" and "finite (dom (shard_part m i))" and "x \<in> fst ` set (iter (shard_part m i))"
  shows "shard_index_for_key x = i"
proof -
  have "fst ` set (iter (shard_part m i)) = dom (shard_part m i)"
    using assms(1,2) dom_map_of_conv_image_fst [of "iter (shard_part m i)"] by (simp add: lists_maps_def)
  then show ?thesis using assms(3) by (auto simp: shard_part_def split: if_splits)
qed

lemma concat_parts:
  assumes "lists_maps iter" and "\<forall>i \<in> set idx. finite (dom (shard_part m i))" and "distinct idx"
  shows "distinct (map fst (concat (map (\<lambda>i. iter (shard_part m i)) idx))) \<and>
    map_of (concat (map (\<lambda>i. iter (shard_part m i)) idx)) k = (if shard_index_for_key k \<in> set idx then m k else None)"
  using assms
proof (induction idx)
  case (Cons i idx)
  let ?xs = "iter (shard_part m i)" and ?ys = "concat (map (\<lambda>i. iter (shard_part m i)) idx)"
  have i: "distinct (map fst ?xs)" "map_of ?xs = shard_part m i" using Cons.prems by (auto simp: lists_maps_def)
  have ys: "distinct (map fst ?ys)" "map_of ?ys k = (if shard_index_for_key k \<in> set idx then m k else None)"
    using Cons by auto
  have "shard_index_for_key x \<in> set idx" if x: "x \<in> fst ` set ?ys" for x
  proof -
    obtain j where "j \<in> set idx" "x \<in> fst ` set (iter (shard_part m j))" using x by auto
    then show ?thesis using iter_part_keys [OF assms(1), of m j x] Cons.prems(2) by auto
  qed
  then have "fst ` set ?xs \<inter> fst ` set ?ys = {}"
    using iter_part_keys [OF assms(1), of m i] Cons.prems(2,3) by fastforce
  then show ?case using i ys Cons.prems(3) by (auto simp: map_add_def shard_part_def split: option.splits)
qed simp

lemma sharded_ok_version: "sharded_ok L m (t\<lparr> sh_version := v \<rparr>) tries = sharded_ok L m t tries"
  "slots_within n (t\<lparr> sh_version := v \<rparr>) = slots_within n t"
  by (simp_all add: sharded_ok_def slots_within_def)

lemma snapshot_restores:
  assumes "sharded_ok L m t tries" and "lists_maps iter" and "257 * length (concat (map iter (sh_values t))) < 2 ^ 32"
  shows "\<exists>t1 s t2. sharded_snapshot L iter t = Some (t1, s) \<and> from_snapshot L s = Ok t2 \<and> sharded_ok L m t1 tries \<and>
    sharded_ok L m t2 tries \<and> sh_version t2 = sh_version t \<and> shard_tree_root L (map (thash L) tries) = Some (js_root s)"
proof -
  let ?es = "concat (map iter (sh_values t))"
  have v: "sh_values t = map (shard_part m) [0..<SHARD_COUNT]" using assms(1) by (simp add: sharded_ok_def)
  have "\<forall>i \<in> set [0..<SHARD_COUNT]. finite (dom (shard_part m i))"
    using assms(1) shard_holds_keys tkeys_finite by (fastforce simp: sharded_ok_def shards_hold_iff)
  from concat_parts [OF assms(2) this] have es: "distinct (map fst ?es)" "map_of ?es = m"
    using shard_index_less unfolding v by (auto simp: comp_def fun_eq_iff)
  obtain t1 h where t1: "sharded_root_hash L t = Some (t1, h)" "sharded_ok L m t1 tries" "sh_version t1 = sh_version t"
    "shard_tree_root L (map (thash L) tries) = Some h" using sharded_root_ok [OF assms(1)] by blast
  have v1: "sh_values t1 = sh_values t" using t1(2) v by (simp add: sharded_ok_def)
  obtain t2 tries2 where t2: "insert_snapshot_entries L ?es sharded_new = Some t2" "sharded_ok L m t2 tries2"
    using insert_snapshot_entries_ok [OF sharded_new_ok, of 0 ?es L] foldl_entries [OF es(1), of Map.empty] es(2) assms(3) by auto
  have "tries2 = tries" using sharded_ok_unique [OF t2(2) assms(1)] .
  then have "sharded_ok L m (t2\<lparr> sh_version := sh_version t \<rparr>) tries" using t2(2) by (simp add: sharded_ok_version)
  from sharded_root_ok [OF this] t1(4) obtain t3 where t3: "sharded_root_hash L (t2\<lparr> sh_version := sh_version t \<rparr>) = Some (t3, h)"
    "sharded_ok L m t3 tries" "sh_version t3 = sh_version t" by auto
  show ?thesis using t1 t2(1) t3 v1 by (auto simp: sharded_snapshot_def from_snapshot_def)
qed

section \<open>What an accepted proof says of the tree\<close>

text \<open>The trie in the arena below an index, read off the nodes.\<close>

fun arena_trie :: "nat \<Rightarrow> node_idx \<Rightarrow> sbmt \<Rightarrow> trie" where
  "arena_trie 0 i s = TEmpty"
| "arena_trie (Suc n) i s =
     (if i = NIL then TEmpty
      else case node_at i s of
        None \<Rightarrow> TEmpty
      | Some (SLeaf k v) \<Rightarrow> TLeaf k v
      | Some (SInternal l r _) \<Rightarrow> TNode (arena_trie n l s) (arena_trie n r s))"

definition tries_of :: "sharded_sbmt \<Rightarrow> trie list" where
  "tries_of t = map (\<lambda>s. arena_trie SBMT_FUEL (sb_root s) s) (sh_shards t)"

lemma arena_trie_reps:
  assumes "reps L (sb_nodes s) i t S" and "twf d t" and "d \<le> 256" and "258 - d \<le> n"
  shows "arena_trie n i s = t"
  using assms
proof (induction n arbitrary: i d t S)
  case (Suc n)
  show ?case
  proof (cases t)
    case (TNode a b)
    then obtain l r c A B where r: "i \<noteq> NIL" "node_at i s = Some (SInternal l r c)"
      "reps L (sb_nodes s) l a A" "reps L (sb_nodes s) r b B" using Suc.prems(1) by (auto simp: node_at_def)
    have d: "Suc d \<le> 256" "258 - Suc d \<le> n" and wf: "twf (Suc d) a" "twf (Suc d) b" using Suc.prems TNode by auto
    show ?thesis using r(1,2) Suc.IH [OF r(3) wf(1) d] Suc.IH [OF r(4) wf(2) d] TNode by simp
  qed (use Suc.prems in \<open>auto simp: node_at_def\<close>)
qed simp

lemma tries_of_ok:
  assumes "sharded_ok L m t tries"
  shows "tries_of t = tries"
proof -
  have "arena_trie SBMT_FUEL (sb_root s) s = tr" if "shard_holds L kv s tr" for kv s tr
    using that arena_trie_reps [OF _ _ _ fuel_enough] by (auto simp: shard_holds_def denotes_def owns_def)
  note eq = this
  show ?thesis
    using assms by (auto simp: tries_of_def sharded_ok_def shards_hold_iff intro!: nth_equalityI) (metis eq)
qed

text \<open>The strings hashed for the tree, its shard roots and its values, and by the verifier.\<close>

definition state_strings :: "ext_lib \<Rightarrow> sharded_sbmt \<Rightarrow> bytes set" where
  "state_strings L t = (\<Union>tr \<in> set (tries_of t). tree_strings L tr) \<union>
     shard_strings L SHARD_BITS (map (thash L) (tries_of t)) \<union> (\<Union>kv \<in> set (sh_values t). ran kv)"

definition verifier_strings :: "ext_lib \<Rightarrow> sharded_bmt_proof \<Rightarrow> bytes set" where
  "verifier_strings L p = path_strings L (sp_shard_root p) (unat (sp_shard_index p)) (sp_shard_path p) \<union>
     proof_strings L (sp_inner p) SHARD_BITS \<union> set_option (sp_value p)"

lemma collision_free_mono: "collision_free L H \<Longrightarrow> H' \<subseteq> H \<Longrightarrow> collision_free L H'"
  by (auto simp: collision_free_def intro: inj_on_subset)

lemma verify_sound_aux:
  assumes ok: "sharded_ok L m t tries" and root: "shard_tree_root L (map (thash L) tries) = Some h"
    and acc: "verify_for_key L p h k = Ok ()" and cf: "collision_free L (state_strings L t \<union> verifier_strings L p)"
  shows "sp_value p = m k"
proof -
  let ?i = "shard_index_for_key k" and ?tr = "tries ! shard_index_for_key k"
  have i: "?i < SHARD_COUNT" by (rule shard_index_less)
  have len: "length tries = SHARD_COUNT" using sharded_ok_length [OF ok] by simp
  have hold: "shard_holds L (shard_part m ?i) (sh_shards t ! ?i) ?tr" using ok i by (simp add: sharded_ok_def shards_hold_iff)
  have acc': "pf_key (sp_inner p) = k" "unat (sp_shard_index p) = ?i" "length (sp_shard_path p) = SHARD_BITS"
    "shard_tree_root_from_path L (sp_shard_root p) ?i (sp_shard_path p) = h"
    "bmt_verify L (sp_inner p) (sp_shard_root p) (map_option (hash_value L) (sp_value p)) SHARD_BITS = Some True"
    using acc by (auto simp: verify_for_key_def sharded_verify_def Let_def split: if_splits option.splits)
  have sub: "shard_strings L SHARD_BITS (map (thash L) tries) \<subseteq> state_strings L t" "tree_strings L ?tr \<subseteq> state_strings L t"
    "path_strings L (sp_shard_root p) ?i (sp_shard_path p) \<subseteq> verifier_strings L p" "proof_strings L (sp_inner p) SHARD_BITS \<subseteq> verifier_strings L p"
    "set_option (sp_value p) \<subseteq> verifier_strings L p"
    using i len by (auto simp: state_strings_def verifier_strings_def tries_of_ok [OF ok] acc'(2))
  have "sp_shard_root p = map (thash L) tries ! ?i"
    using shard_tree_sound [OF cf, of SHARD_BITS "map (thash L) tries" "sp_shard_root p" ?i "sp_shard_path p"] sub acc'(3,4) root i len
    by (auto simp: SHARD_COUNT_def SHARD_BITS_def)
  then have "bmt_verify L (sp_inner p) (thash L ?tr) (map_option (hash_value L) (sp_value p)) SHARD_BITS = Some True"
    using acc'(5) i len by simp
  from bmt_verify_sound_aux [OF this collision_free_mono [OF cf]] sub acc'(1)
  have "tlookup k SHARD_BITS ?tr = map_option (hash_value L) (sp_value p)" by blast
  then have eq: "map_option (hash_value L) (m k) = map_option (hash_value L) (sp_value p)"
    using hold by (simp add: shard_holds_def shard_part_def fun_eq_iff)
  have "v \<in> state_strings L t" if "m k = Some v" for v
  proof -
    have "sh_values t ! ?i = shard_part m ?i" "length (sh_values t) = SHARD_COUNT" using ok i by (simp_all add: sharded_ok_def)
    then have "shard_part m ?i \<in> set (sh_values t)" using i nth_mem by metis
    moreover have "v \<in> ran (shard_part m ?i)" using that by (auto simp: shard_part_def ran_def)
    ultimately show ?thesis by (auto simp: state_strings_def)
  qed
  note mem = this
  show ?thesis
  proof (cases "m k")
    case None
    then show ?thesis using eq by simp
  next
    case (Some v)
    then obtain w where w: "sp_value p = Some w" "blake3 L v = blake3 L w" using eq by (cases "sp_value p") (auto simp: hash_value_def)
    have "v = w" using collision_freeD [OF cf _ _ w(2)] mem [OF Some] sub(5) w(1) by simp
    then show ?thesis using Some w(1) by simp
  qed
qed

section \<open>Trees in use\<close>

text \<open>
  The index of a node has 32 bits: an arena of that size is not reachable in memory. An operation
  is assumed to find room for its updates, each of which takes at most 257 nodes.
\<close>

definition room :: "nat \<Rightarrow> sharded_sbmt \<Rightarrow> bool" where
  "room k t \<longleftrightarrow> 257 * k < 2 ^ 32 \<and> (\<forall>s \<in> set (sh_shards t). length (sb_nodes s) + 257 * k < 2 ^ 32)"

definition diff_size :: "state_diff \<Rightarrow> nat" where
  "diff_size diff = diff_len diff + total_storage_changes diff"

inductive sharded_run :: "ext_lib \<Rightarrow> sharded_sbmt \<Rightarrow> bool" for L where
  run_new: "sharded_run L sharded_new"
| run_seed: "sharded_run L t \<Longrightarrow> room (Suc (length storage)) t \<Longrightarrow>
    seed_genesis_account L a balance nonce code_hash storage t = Some t' \<Longrightarrow> sharded_run L t'"
| run_diff: "sharded_run L t \<Longrightarrow> room (diff_size diff) t \<Longrightarrow> sharded_apply_diff L diff t = (t', r) \<Longrightarrow> sharded_run L t'"
| run_root: "sharded_run L t \<Longrightarrow> sharded_root_hash L t = Some (t', h) \<Longrightarrow> sharded_run L t'"
| run_prove: "sharded_run L t \<Longrightarrow> sharded_prove L k t = Some (t', p) \<Longrightarrow> sharded_run L t'"
| run_restore: "257 * length (js_entries s) < 2 ^ 32 \<Longrightarrow> from_snapshot L s = Ok t \<Longrightarrow> sharded_run L t"

lemma account_updates_length: "account_updates L t a = Ok us \<Longrightarrow> length us = Suc (length (ad_storage (snd a)))"
  by (cases a) (auto simp: account_updates_def Let_def split: if_splits elim!: bind_outcome_OkE)

lemma diff_updates_length:
  "diff_updates L t as = Ok us \<Longrightarrow> length us = length as + sum_list (map (\<lambda>a. length (ad_storage (snd a))) as)"
proof (induction as arbitrary: us)
  case (Cons a as)
  then show ?case using account_updates_length [of L t a] by (auto elim!: bind_outcome_OkE)
qed simp

lemma roomD:
  assumes "room k t" and "n \<le> k"
  shows "\<exists>b. slots_within b t \<and> b + 257 * n < 2 ^ 32"
proof (intro exI conjI)
  let ?b = "2 ^ 32 - 1 - 257 * k :: nat"
  show "slots_within ?b t" using assms(1) by (fastforce simp: slots_within_def room_def)
  have "257 * k < 2 ^ 32" using assms(1) by (simp add: room_def)
  then show "?b + 257 * n < 2 ^ 32" using assms(2) by simp
qed

lemma diff_room:
  assumes "room (diff_size diff) t" and "diff_updates L t (sd_accounts diff) = Ok us"
  shows "\<exists>b. slots_within b t \<and> b + 257 * length us < 2 ^ 32"
proof (rule roomD [OF assms(1)])
  show "length us \<le> diff_size diff"
    using diff_updates_length [OF assms(2)] by (simp add: diff_size_def diff_len_def total_storage_changes_def)
qed

lemma sharded_run_ok:
  assumes "sharded_run L t"
  shows "\<exists>tries. sharded_ok L (\<lambda>k. sharded_get k t) t tries"
proof -
  have "\<exists>m tries. sharded_ok L m t tries" using assms
  proof (induction rule: sharded_run.induct)
    case run_new
    then show ?case using sharded_new_ok by blast
  next
    case (run_seed t storage a balance nonce code_hash t')
    then obtain m tries where ok: "sharded_ok L m t tries" by blast
    let ?es = "(account_key L a, encode_account_value balance nonce code_hash) # storage_entries L a storage"
    obtain b where "slots_within b t" "b + 257 * length ?es < 2 ^ 32"
      using roomD [OF run_seed(2), of "length ?es"] storage_entries_length [of L a storage] by auto
    from insert_snapshot_entries_ok [OF ok this] run_seed(3) show ?case by (auto simp: seed_genesis_entries)
  next
    case (run_diff t diff t' r)
    then obtain m tries where ok: "sharded_ok L m t tries" by blast
    show ?case
    proof (cases "diff_updates L t (sd_accounts diff)")
      case (Ok us)
      obtain b where b: "slots_within b t" "b + 257 * length us < 2 ^ 32" using diff_room [OF run_diff(2) Ok] by blast
      from apply_diff_done [OF ok b(1) Ok b(2)] run_diff(3) show ?thesis by auto
    next
      case (Err e)
      then show ?thesis using apply_diff_refused run_diff(3) ok by auto
    qed (use diff_updates_no_panic in blast)
  next
    case (run_root t t' h)
    then obtain m tries where "sharded_ok L m t tries" by blast
    from sharded_root_ok [OF this] run_root(2) show ?case by auto
  next
    case (run_prove t k t' p)
    then obtain m tries where "sharded_ok L m t tries" by blast
    from prove_ok [OF this, of k] run_prove(2) show ?case by auto
  next
    case (run_restore s t)
    obtain t1 tries m where t1: "insert_snapshot_entries L (js_entries s) sharded_new = Some t1" "sharded_ok L m t1 tries"
      using insert_snapshot_entries_ok [OF sharded_new_ok, of 0 "js_entries s" L] run_restore(1) by auto
    then have "sharded_ok L m (t1\<lparr> sh_version := js_version s \<rparr>) tries" by (simp add: sharded_ok_version)
    from sharded_root_ok [OF this] obtain t2 h where
      "sharded_root_hash L (t1\<lparr> sh_version := js_version s \<rparr>) = Some (t2, h)" "sharded_ok L m t2 tries" by blast
    moreover from this(1) have "t2 = t" using run_restore(2) t1(1) by (simp add: from_snapshot_def split: if_splits)
    ultimately show ?case by blast
  qed
  then obtain m tries where ok: "sharded_ok L m t tries" by blast
  have "(\<lambda>k. sharded_get k t) = m" using sharded_get_ok [OF ok] by (simp add: fun_eq_iff)
  then show ?thesis using ok by auto
qed

section \<open>The reference root and histories of writes\<close>

text \<open>The root of the canonical tries of a list of entries.\<close>

definition reference_root :: "ext_lib \<Rightarrow> (b256 \<times> bytes) list \<Rightarrow> b256 option" where
  "reference_root L xs = shard_tree_root L (map (\<lambda>i. thash L (tcanon SHARD_BITS
     (map (\<lambda>(k, v). (k, hash_value L v)) (filter (\<lambda>(k, v). shard_index_for_key k = i) xs)))) [0..<SHARD_COUNT])"

lemma canonical_shard:
  assumes "shard_holds L (shard_part m i) s t" and "distinct (map fst xs)" and "map_of xs = m"
  shows "t = tcanon SHARD_BITS (map (\<lambda>(k, v). (k, hash_value L v)) (filter (\<lambda>(k, v). shard_index_for_key k = i) xs))"
proof -
  let ?f = "filter (\<lambda>(k, v). shard_index_for_key k = i) xs"
  let ?ys = "map (\<lambda>(k, v). (k, hash_value L v)) ?f"
  have fst: "map fst ?ys = map fst ?f" by (induction xs) auto
  have d: "distinct (map fst ?ys)" unfolding fst using assms(2) by (simp add: distinct_map_filter)
  have al: "aligned SHARD_BITS (fst ` set ?ys)" by (rule aligned_shard [of _ i]) auto
  note canon = tcanon_facts [OF d al]
  have "map_of ?ys k = map_option (hash_value L) (shard_part m i k)" for k
    unfolding assms(3) [symmetric] by (induction xs) (auto simp: shard_part_def)
  then have "tlookup k SHARD_BITS t = tlookup k SHARD_BITS (tcanon SHARD_BITS ?ys)" for k
    using canon [of k] shard_holds_lookup [OF assms(1), of k] by simp
  moreover have "twf SHARD_BITS t" using assms(1) by (auto simp: shard_holds_def denotes_def)
  ultimately show ?thesis using trie_unique canon by blast
qed

lemma canonical_tries:
  assumes "sharded_ok L m t tries" and "distinct (map fst xs)" and "map_of xs = m"
  shows "tries = map (\<lambda>i. tcanon SHARD_BITS (map (\<lambda>(k, v). (k, hash_value L v)) (filter (\<lambda>(k, v). shard_index_for_key k = i) xs))) [0..<SHARD_COUNT]"
proof (rule nth_equalityI)
  show "tries ! i = map (\<lambda>i. tcanon SHARD_BITS (map (\<lambda>(k, v). (k, hash_value L v))
      (filter (\<lambda>(k, v). shard_index_for_key k = i) xs))) [0..<SHARD_COUNT] ! i" if "i < length tries" for i
  proof -
    have i: "i < SHARD_COUNT" using that sharded_ok_length [OF assms(1)] by simp
    then have "shard_holds L (shard_part m i) (sh_shards t ! i) (tries ! i)"
      using assms(1) by (simp add: sharded_ok_def shards_hold_iff)
    from canonical_shard [OF this assms(2,3)] i show ?thesis by simp
  qed
qed (use sharded_ok_length [OF assms(1)] in simp)

lemma reference_root_tries:
  assumes "sharded_ok L m t tries" and "distinct (map fst xs)" and "map_of xs = m"
  shows "reference_root L xs = shard_tree_root L (map (thash L) tries)"
  unfolding canonical_tries [OF assms] by (simp add: reference_root_def comp_def)

lemma fold_write_other: "k \<notin> fst ` set us \<Longrightarrow> fold write_map us m k = m k"
  by (induction us arbitrary: m) (auto simp: write_map_def)

lemma fold_write_unique:
  assumes "(k, v) \<in> set us" and "\<And>v'. (k, v') \<in> set us \<Longrightarrow> v' = v"
  shows "fold write_map us m k = v"
  using assms
proof (induction us arbitrary: m)
  case (Cons u us)
  show ?case
  proof (cases "k \<in> fst ` set us")
    case True
    then obtain v' where "(k, v') \<in> set us" by auto
    then show ?thesis using Cons.IH [of "write_map u m"] Cons.prems(2) by auto
  next
    case False
    then have "u = (k, v)" using Cons.prems(1) by force
    then show ?thesis using fold_write_other [OF False, of "write_map u m"] by simp (simp add: write_map_def)
  qed
qed simp

end
