(* ===== verification/N42_StateTree.thy ===== *)
theory N42_StateTree
  imports N42_ShardedSbmt
begin

text \<open>
  What the state tree promises: it is a map whose combined root is a function of its contents,
  its proofs verify and verified proofs are true, a snapshot restores it, and applying the diff of
  a block makes it hold the accounts the block left behind.
\<close>

section \<open>The tree is a map with a canonical root\<close>

text \<open>
  Applying a state diff never panics. If the updates of the diff can be determined, the new version and root are
  returned, every key reads as after the updates in order, and the root returned is the root hash of
  the new tree. If an account leaf is missing or corrupt, the error is returned and nothing changes.
\<close>

lemma apply_diff_refines:
  assumes "sharded_run L t" and "room (diff_size diff) t"
  shows "case diff_updates L t (sd_accounts diff) of
      Ok us \<Rightarrow> (\<exists>t' h. sharded_apply_diff L diff t = (t', Ok (sh_version t + 1, h)) \<and> sh_version t' = sh_version t + 1 \<and>
        (\<forall>k. sharded_get k t' = fold write_map us (\<lambda>k. sharded_get k t) k) \<and> (\<exists>t''. sharded_root_hash L t' = Some (t'', h)))
    | Err e \<Rightarrow> sharded_apply_diff L diff t = (t, Err e)
    | Panic \<Rightarrow> False"
proof -
  obtain tries where ok: "sharded_ok L (\<lambda>k. sharded_get k t) t tries" using sharded_run_ok [OF assms(1)] by blast
  show ?thesis
  proof (cases "diff_updates L t (sd_accounts diff)")
    case (Ok us)
    obtain b where b: "slots_within b t" "b + 257 * length us < 2 ^ 32" using diff_room [OF assms(2) Ok] by blast
    obtain t' tries' h where t': "sharded_apply_diff L diff t = (t', Ok (sh_version t + 1, h))"
      "sharded_ok L (fold write_map us (\<lambda>k. sharded_get k t)) t' tries'" "sh_version t' = sh_version t + 1"
      "shard_tree_root L (map (thash L) tries') = Some h"
      using apply_diff_done [OF ok b(1) Ok b(2)] by blast
    then show ?thesis using Ok sharded_get_ok [OF t'(2)] sharded_root_ok [OF t'(2)] by auto
  next
    case (Err e)
    then show ?thesis using apply_diff_refused by simp
  qed (use diff_updates_no_panic in blast)
qed

text \<open>
  C30. The combined root depends on the contents of the tree alone: it is the root of the canonical tries
  of any listing of its entries, whatever insertions, removals, restorations and reads led to it.
\<close>

theorem combined_root_canonical:
  assumes "sharded_run L t" and "distinct (map fst xs)" and "map_of xs = (\<lambda>k. sharded_get k t)"
  shows "\<exists>t' h. sharded_root_hash L t = Some (t', h) \<and> reference_root L xs = Some h"
proof -
  obtain tries where ok: "sharded_ok L (\<lambda>k. sharded_get k t) t tries" using sharded_run_ok [OF assms(1)] by blast
  then show ?thesis using sharded_root_ok [OF ok] reference_root_tries [OF ok assms(2,3)] by auto
qed

section \<open>Proofs and snapshots\<close>

text \<open>
  C32. The tree proves what it holds: the proof it makes for a key, present or absent, carries the value of
  the key and is accepted for that key against the root hash of the tree.
\<close>

theorem proof_verifies:
  assumes "sharded_run L t"
  shows "\<exists>t1 h t2 p. sharded_root_hash L t = Some (t1, h) \<and> sharded_prove L k t1 = Some (t2, p) \<and>
    sp_value p = sharded_get k t \<and> verify_for_key L p h k = Ok ()"
proof -
  obtain tries where ok: "sharded_ok L (\<lambda>k. sharded_get k t) t tries" using sharded_run_ok [OF assms] by blast
  obtain t1 h where t1: "sharded_root_hash L t = Some (t1, h)" "sharded_ok L (\<lambda>k. sharded_get k t) t1 tries"
    "shard_tree_root L (map (thash L) tries) = Some h" using sharded_root_ok [OF ok] by blast
  then show ?thesis using prove_ok [OF t1(2), of k] by auto
qed

text \<open>
  C31. A proof that a light client accepts for a key against the root hash of a tree states the value the
  tree holds for the key, or its absence, whoever made the proof: as long as no two of the strings
  hashed for the tree and by the verifier have the same hash, and none hashes to the empty value.
\<close>

theorem accepted_proof_true:
  assumes "sharded_run L t" and "sharded_root_hash L t = Some (t', h)" and "verify_for_key L p h k = Ok ()"
    and "collision_free L (state_strings L t \<union> verifier_strings L p)"
  shows "sp_value p = sharded_get k t"
proof -
  obtain tries where ok: "sharded_ok L (\<lambda>k. sharded_get k t) t tries" using sharded_run_ok [OF assms(1)] by blast
  have "shard_tree_root L (map (thash L) tries) = Some h" using sharded_root_ok [OF ok] assms(2) by auto
  from verify_sound_aux [OF ok this assms(3,4)] show ?thesis .
qed

text \<open>
  C33. A snapshot restores the tree: whatever the order in which the hash maps are iterated, it passes the
  check of its root, and the restored tree has the version, the entries and the root hash of the original.
\<close>

theorem snapshot_roundtrip:
  assumes "sharded_run L t" and "lists_maps iter" and "257 * length (concat (map iter (sh_values t))) < 2 ^ 32"
  shows "\<exists>t1 s t2 t3. sharded_snapshot L iter t = Some (t1, s) \<and> from_snapshot L s = Ok t2 \<and> sh_version t2 = sh_version t \<and>
    (\<forall>k. sharded_get k t2 = sharded_get k t) \<and> sharded_root_hash L t2 = Some (t3, js_root s)"
proof -
  obtain tries where ok: "sharded_ok L (\<lambda>k. sharded_get k t) t tries" using sharded_run_ok [OF assms(1)] by blast
  obtain t1 s t2 where r: "sharded_snapshot L iter t = Some (t1, s)" "from_snapshot L s = Ok t2"
    "sharded_ok L (\<lambda>k. sharded_get k t) t2 tries" "sh_version t2 = sh_version t" "shard_tree_root L (map (thash L) tries) = Some (js_root s)"
    using snapshot_restores [OF ok assms(2,3)] by blast
  then show ?thesis using sharded_get_ok [OF r(3)] sharded_root_ok [OF r(3)] by auto
qed

section \<open>Applying the diff of a block\<close>

definition account_leaf :: "account_info \<Rightarrow> bytes" where
  "account_leaf i = encode_account_value (ai_balance i) (ai_nonce i) (ai_code_hash i)"

definition empty_account :: account_info where
  "empty_account = \<lparr> ai_balance = 0, ai_nonce = 0, ai_code_hash = EMPTY_CODE_HASH \<rparr>"

text \<open>An account without balance, nonce and code is as good as none.\<close>

definition same_account :: "account_info option \<Rightarrow> account_info option \<Rightarrow> bool" where
  "same_account i j \<longleftrightarrow> i = j \<or> {i, j} \<subseteq> {None, Some empty_account}"

definition entry_keys :: "ext_lib \<Rightarrow> address \<times> bundle_account \<Rightarrow> b256 list" where
  "entry_keys L e = account_key L (fst e) # map (\<lambda>s. storage_key L (fst e) (fst s)) (ba_storage (snd e))"

definition bundle_keys :: "ext_lib \<Rightarrow> (address \<times> bundle_account) list \<Rightarrow> b256 list" where
  "bundle_keys L bundle = concat (map (entry_keys L) bundle)"

definition holds_before :: "ext_lib \<Rightarrow> (address \<times> bundle_account) list \<Rightarrow> sharded_sbmt \<Rightarrow> bool" where
  "holds_before L bundle t \<longleftrightarrow>
     (\<forall>e \<in> set bundle. sharded_get (account_key L (fst e)) t = map_option account_leaf (ba_original_info (snd e)))"

definition slot_leaf :: "bundle_account \<Rightarrow> u256 \<Rightarrow> bytes option" where
  "slot_leaf ba present = (if ba_info ba = None \<or> present = 0 then None else Some (be_bytes 32 present))"

definition holds_after :: "ext_lib \<Rightarrow> (address \<times> bundle_account) list \<Rightarrow> sharded_sbmt \<Rightarrow> bool" where
  "holds_after L bundle t \<longleftrightarrow> (\<forall>e \<in> set bundle.
     (\<exists>i. sharded_get (account_key L (fst e)) t = map_option account_leaf i \<and> same_account i (ba_info (snd e))) \<and>
     (\<forall>(slot, prev, present) \<in> set (ba_storage (snd e)). prev \<noteq> present \<longrightarrow>
        sharded_get (storage_key L (fst e) slot) t = slot_leaf (snd e) present))"

text \<open>The updates of one account of the bundle, as the tree should see them.\<close>

definition entry_updates :: "ext_lib \<Rightarrow> address \<times> bundle_account \<Rightarrow> tree_update list" where
  "entry_updates L e = (account_key L (fst e), map_option account_leaf (ba_info (snd e))) #
     map (\<lambda>sc. (storage_key L (fst e) (fst sc), slot_leaf (snd e) (vc_to (snd sc)))) (storage_changes_of (snd e))"

lemma entry_updates_sound:
  assumes "sharded_get (account_key L a) t = map_option account_leaf (ba_original_info ba)" and "account_diff_of ba = Some ad"
  shows "account_updates L t (a, ad) = Ok (entry_updates L (a, ba))"
proof -
  have ad: "ad = \<lparr> ad_change_type = change_type_of ba, ad_balance = info_change ai_balance 0 ba,
      ad_nonce = info_change ai_nonce 0 ba, ad_code_change = code_change_of ba, ad_storage = storage_changes_of ba \<rparr>"
    using assms(2) by (auto simp: account_diff_of_def Let_def split: if_splits)
  show ?thesis
  proof (cases "ba_info ba")
    case None
    then have "change_type_of ba = AccountDestroyed" by (simp add: change_type_of_def split: bool.split)
    then show ?thesis using None unfolding ad by (simp add: account_updates_def entry_updates_def slot_leaf_def)
  next
    case (Some cur)
    have code: "account_code_hash L t a ad = Ok (ai_code_hash cur)"
      using Some assms(1) unfolding ad
      by (cases "ba_original_info ba") (auto simp: account_code_hash_def code_change_of_def change_type_of_def account_leaf_def)
    have "ad_change_type ad \<noteq> AccountDestroyed" "ad_storage ad = storage_changes_of ba"
      "(case ad_balance ad of Some v \<Rightarrow> vc_to v | None \<Rightarrow> 0) = ai_balance cur"
      "(case ad_nonce ad of Some v \<Rightarrow> vc_to v | None \<Rightarrow> 0) = ai_nonce cur"
      using Some unfolding ad by (cases "ba_original_info ba"; simp add: change_type_of_def info_change_def)+
    then show ?thesis
      using code Some by (simp add: account_updates_def entry_updates_def storage_update_def slot_leaf_def account_leaf_def Let_def)
  qed
qed

lemma skipped_account:
  assumes "account_diff_of ba = None"
  shows "same_account (ba_original_info ba) (ba_info ba)" and "storage_changes_of ba = []"
proof -
  show "same_account (ba_original_info ba) (ba_info ba)"
    using assms by (cases "ba_original_info ba"; cases "ba_info ba")
      (auto simp: account_diff_of_def Let_def has_changed_def info_change_def code_change_of_def same_account_def
        empty_account_def split: if_splits)
  show "storage_changes_of ba = []" using assms by (auto simp: account_diff_of_def Let_def split: if_splits)
qed

lemma diff_updates_all:
  "(\<And>a. a \<in> set as \<Longrightarrow> account_updates L t a = Ok (f a)) \<Longrightarrow> diff_updates L t as = Ok (concat (map f as))"
  by (induction as) auto

lemma distinct_concat_same:
  assumes "distinct (concat (map f xs))" and "x \<in> set xs" and "y \<in> set xs" and "k \<in> set (f x)" and "k \<in> set (f y)"
  shows "x = y"
  using assms by (induction xs) auto

lemma storage_change_in:
  "(slot, prev, present) \<in> set (ba_storage ba) \<Longrightarrow> prev \<noteq> present \<Longrightarrow>
    (slot, \<lparr> vc_from = prev, vc_to = present \<rparr>) \<in> set (storage_changes_of ba)"
  by (force simp: storage_changes_of_def)

lemma sd_accounts_bundle:
  "set (sd_accounts (from_bundle_state bundle)) = {(a, ad). \<exists>ba. (a, ba) \<in> set bundle \<and> account_diff_of ba = Some ad}"
  by (force simp: from_bundle_state_def List.map_filter_def split: option.splits)

lemma entry_updates_keys:
  assumes "distinct (entry_keys L e)"
  shows "fst ` set (entry_updates L e) \<subseteq> set (entry_keys L e)" and "distinct (map fst (entry_updates L e))"
proof -
  let ?g = "\<lambda>s. storage_key L (fst e) s"
  have st: "set (map fst (storage_changes_of (snd e))) \<subseteq> set (map fst (ba_storage (snd e)))"
    by (force simp: storage_changes_of_def image_iff)
  have d: "distinct (map ?g (map fst (ba_storage (snd e))))" "account_key L (fst e) \<notin> ?g ` set (map fst (ba_storage (snd e)))"
    using assms by (auto simp: entry_keys_def comp_def)
  have fsts: "map fst (map (\<lambda>(slot, prev, present). (slot, \<lparr> vc_from = prev, vc_to = present \<rparr>)) xs) = map fst xs"
    for xs :: "(u256 \<times> u256 \<times> u256) list" by (induction xs) auto
  have sd: "distinct (map fst (ba_storage (snd e)))" and inj: "inj_on ?g (set (map fst (ba_storage (snd e))))"
    using d(1) unfolding distinct_map [of ?g] by blast+
  have "distinct (map fst (storage_changes_of (snd e)))"
    unfolding storage_changes_of_def distinct_map [of fst "sort_key _ _"] distinct_sort set_sort distinct_map [symmetric] fsts
    by (rule distinct_map_filter [OF sd])
  then have "distinct (map ?g (map fst (storage_changes_of (snd e))))"
    unfolding distinct_map [of ?g] using inj_on_subset [OF inj st] by blast
  moreover have eu: "map fst (entry_updates L e) = account_key L (fst e) # map ?g (map fst (storage_changes_of (snd e)))"
    by (simp add: entry_updates_def comp_def)
  ultimately show "distinct (map fst (entry_updates L e))" using st d(2) by auto
  have "set (map fst (entry_updates L e)) \<subseteq> insert (account_key L (fst e)) (?g ` set (map fst (ba_storage (snd e))))"
    unfolding eu using st by auto
  then show "fst ` set (entry_updates L e) \<subseteq> set (entry_keys L e)" by (simp add: entry_keys_def image_image)
qed

text \<open>The updates of a bundle touch each key once, with the value the account has after the block.\<close>

lemma bundle_updates:
  assumes "distinct (bundle_keys L bundle)" and "holds_before L bundle t"
  obtains us where "diff_updates L t (sd_accounts (from_bundle_state bundle)) = Ok us"
    "\<And>e k v m. e \<in> set bundle \<Longrightarrow> account_diff_of (snd e) \<noteq> None \<Longrightarrow> (k, v) \<in> set (entry_updates L e) \<Longrightarrow> fold write_map us m k = v"
    "\<And>e k m. e \<in> set bundle \<Longrightarrow> account_diff_of (snd e) = None \<Longrightarrow> k \<in> set (entry_keys L e) \<Longrightarrow> fold write_map us m k = m k"
proof -
  let ?as = "sd_accounts (from_bundle_state bundle)"
  define f where "f a = entry_updates L (fst a, the (map_of bundle (fst a)))" for a :: "address \<times> account_diff"
  have same: "e = e'" if "e \<in> set bundle" "e' \<in> set bundle" "k \<in> set (entry_keys L e)" "k \<in> set (entry_keys L e')" for e e' and k :: b256
    using distinct_concat_same [of "entry_keys L" "bundle"] assms(1) that by (auto simp: bundle_keys_def)
  have lookup_e: "map_of bundle a = Some ba" if e: "(a, ba) \<in> set bundle" for a ba
  proof -
    obtain ba' where "map_of bundle a = Some ba'" using weak_map_of_SomeI [OF e] by blast
    then have "(a, ba') \<in> set bundle" by (rule map_of_SomeD)
    then have "(a, ba') = (a, ba)" using e same [of "(a, ba')" "(a, ba)" "account_key L a"] by (simp add: entry_keys_def)
    then show ?thesis using \<open>map_of bundle a = Some ba'\<close> by simp
  qed
  have own: "distinct (entry_keys L e)" if "e \<in> set bundle" for e
    using assms(1) that by (auto simp: bundle_keys_def distinct_concat_iff)
  have src: "\<exists>ba. (a, ba) \<in> set bundle \<and> account_diff_of ba = Some ad \<and> f (a, ad) = entry_updates L (a, ba)"
    if "(a, ad) \<in> set ?as" for a ad
    using that lookup_e by (fastforce simp: sd_accounts_bundle f_def)
  have upd: "account_updates L t a = Ok (f a)" if "a \<in> set ?as" for a
    using src [of "fst a" "snd a"] that entry_updates_sound assms(2) by (fastforce simp: holds_before_def)
  let ?us = "concat (map f ?as)"
  have from_e: "\<exists>e \<in> set bundle. account_diff_of (snd e) \<noteq> None \<and> (k, v) \<in> set (entry_updates L e)" if kv: "(k, v) \<in> set ?us" for k v
  proof -
    obtain a where a: "a \<in> set ?as" "(k, v) \<in> set (f a)" using kv by auto
    then show ?thesis using src [of "fst a" "snd a"] by force
  qed
  have to_e: "(k, v) \<in> set ?us" if e: "e \<in> set bundle" "account_diff_of (snd e) \<noteq> None" "(k, v) \<in> set (entry_updates L e)" for e k v
  proof -
    obtain a ba ad where "e = (a, ba)" "account_diff_of ba = Some ad" using e(2) by (cases e) auto
    then have "(fst e, ad) \<in> set ?as" "f (fst e, ad) = entry_updates L e"
      using e(1) lookup_e [of a ba] by (auto simp: sd_accounts_bundle f_def)
    then show ?thesis using e(3) by force
  qed
  have key: "k \<in> set (entry_keys L e)" if "e \<in> set bundle" "(k, v) \<in> set (entry_updates L e)" for e k v
    using entry_updates_keys(1) [OF own [OF that(1)]] that(2) by force
  show thesis
  proof (rule that)
    show "diff_updates L t ?as = Ok ?us" using upd by (rule diff_updates_all)
    show "fold write_map ?us m k = v"
      if e: "e \<in> set bundle" "account_diff_of (snd e) \<noteq> None" "(k, v) \<in> set (entry_updates L e)" for e k v m
    proof (rule fold_write_unique [OF to_e [OF e]])
      fix v' assume "(k, v') \<in> set ?us"
      then obtain e' where e': "e' \<in> set bundle" "(k, v') \<in> set (entry_updates L e')" using from_e by blast
      then have "e' = e" using same key e by blast
      then show "v' = v" using e'(2) e(3) entry_updates_keys(2) [OF own [OF e(1)]] by (simp add: eq_key_imp_eq_value)
    qed
    show "fold write_map ?us m k = m k"
      if e: "e \<in> set bundle" "account_diff_of (snd e) = None" "k \<in> set (entry_keys L e)" for e k m
    proof (rule fold_write_other)
      show "k \<notin> fst ` set ?us"
      proof
        assume "k \<in> fst ` set ?us"
        then obtain x where x: "k = fst x" "x \<in> set ?us" by (rule imageE)
        define v where "v = snd x"
        have "(k, v) \<in> set ?us" unfolding v_def x(1) prod.collapse by (rule x(2))
        from from_e [OF this] obtain e' where e': "e' \<in> set bundle" "account_diff_of (snd e') \<noteq> None"
          "(k, v) \<in> set (entry_updates L e')" by blast
        have "e' = e" by (rule same [OF e'(1) e(1) key [OF e'(1,3)] e(3)])
        then show False using e'(2) e(2) by simp
      qed
    qed
  qed
qed

text \<open>
  C29. Applying the diff of a block keeps the tree in step with the accounts: if the tree holds the accounts
  of the bundle as they were before the block, and no two keys of the bundle collide, the diff is
  applied without error, and the tree holds every account and every changed slot as the block left
  them. An account without balance, nonce and code counts as absent.
\<close>

theorem bundle_applied:
  assumes "sharded_run L t" and "room (diff_size (from_bundle_state bundle)) t" and "distinct (bundle_keys L bundle)"
    and "holds_before L bundle t"
  shows "\<exists>t' h. sharded_apply_diff L (from_bundle_state bundle) t = (t', Ok (sh_version t + 1, h)) \<and> holds_after L bundle t'"
proof -
  obtain tries where ok: "sharded_ok L (\<lambda>k. sharded_get k t) t tries" using sharded_run_ok [OF assms(1)] by blast
  obtain us where us: "diff_updates L t (sd_accounts (from_bundle_state bundle)) = Ok us"
    and hit: "\<And>e k v m. e \<in> set bundle \<Longrightarrow> account_diff_of (snd e) \<noteq> None \<Longrightarrow> (k, v) \<in> set (entry_updates L e) \<Longrightarrow> fold write_map us m k = v"
    and miss: "\<And>e k m. e \<in> set bundle \<Longrightarrow> account_diff_of (snd e) = None \<Longrightarrow> k \<in> set (entry_keys L e) \<Longrightarrow> fold write_map us m k = m k"
    by (rule bundle_updates [OF assms(3,4)], rule that, assumption+)
  obtain b where b: "slots_within b t" "b + 257 * length us < 2 ^ 32" using diff_room [OF assms(2) us] by blast
  obtain t' tries' h where t': "sharded_apply_diff L (from_bundle_state bundle) t = (t', Ok (sh_version t + 1, h))"
    "sharded_ok L (fold write_map us (\<lambda>k. sharded_get k t)) t' tries'"
    using apply_diff_done [OF ok b(1) us b(2)] by blast
  have get: "sharded_get k t' = fold write_map us (\<lambda>k. sharded_get k t) k" for k using sharded_get_ok [OF t'(2)] .
  have "(\<exists>i. sharded_get (account_key L (fst e)) t' = map_option account_leaf i \<and> same_account i (ba_info (snd e))) \<and>
      (\<forall>(slot, prev, present) \<in> set (ba_storage (snd e)). prev \<noteq> present \<longrightarrow>
        sharded_get (storage_key L (fst e) slot) t' = slot_leaf (snd e) present)" if e: "e \<in> set bundle" for e
  proof (cases "account_diff_of (snd e)")
    case None
    have "sharded_get (account_key L (fst e)) t' = map_option account_leaf (ba_original_info (snd e))"
      using miss [OF e None] assms(4) e by (simp add: get entry_keys_def holds_before_def)
    moreover have "prev = present" if "(slot, prev, present) \<in> set (ba_storage (snd e))" for slot prev present
      using skipped_account(2) [OF None] storage_change_in [OF that] by auto
    ultimately show ?thesis using skipped_account(1) [OF None] by blast
  next
    case (Some ad)
    have "sharded_get (account_key L (fst e)) t' = map_option account_leaf (ba_info (snd e))"
      using hit [OF e, of "account_key L (fst e)"] Some by (simp add: get entry_updates_def)
    moreover have "sharded_get (storage_key L (fst e) slot) t' = slot_leaf (snd e) present"
      if "(slot, prev, present) \<in> set (ba_storage (snd e))" "prev \<noteq> present" for slot prev present
    proof -
      have "(storage_key L (fst e) slot, slot_leaf (snd e) present) \<in> set (entry_updates L e)"
        using storage_change_in [OF that] by (force simp: entry_updates_def)
      then show ?thesis using hit [OF e] Some by (simp add: get)
    qed
    ultimately show ?thesis by (auto simp: same_account_def)
  qed
  then show ?thesis using t'(1) by (auto simp: holds_after_def)
qed

section \<open>A concrete tree\<close>

text \<open>A hash that tells the strings of a small tree apart, and a block that creates one account.\<close>

definition tree_lib :: ext_lib where
  "tree_lib = (toy_lib (\<lambda>_. True))\<lparr> blake3 := \<lambda>x.
     if length x = 64 then from_be_bytes (take 32 x) + 1 else if length x = 65 then 201 else 101 \<rparr>"

definition toy_account :: account_info where
  "toy_account = \<lparr> ai_balance = 5, ai_nonce = 1, ai_code_hash = EMPTY_CODE_HASH \<rparr>"

definition toy_bundle :: "(address \<times> bundle_account) list" where
  "toy_bundle = [(7, \<lparr> ba_info = Some toy_account, ba_original_info = None, ba_storage = [], ba_was_destroyed = False \<rparr>)]"

definition toy_tree :: sharded_sbmt where
  "toy_tree = fst (sharded_apply_diff tree_lib (from_bundle_state toy_bundle) sharded_new)"

lemma tree_lib_hashes:
  "account_key tree_lib a = 101" "hash_value tree_lib (account_leaf i) = 101" "hash_leaf tree_lib k v = 201"
  "hash_pair tree_lib x y = x + 1" "blake3 tree_lib (account_leaf i) = 101" "blake3 tree_lib (leaf_string k v) = 201"
  "blake3 tree_lib (pair_string x y) = x + 1"
  by (simp_all add: tree_lib_def account_key_def ACCOUNT_DOMAIN_def hash_value_def account_leaf_def encode_account_value_def
      hash_leaf_def hash_pair_def leaf_string_def pair_string_def)

lemma shard_of_101: "shard_index_for_key 101 = 0"
  by (simp add: shard_index_for_key_def nth_be_bytes)

lemma room_new: "257 * k < 2 ^ 32 \<Longrightarrow> room k sharded_new"
  by (simp add: room_def sharded_new_def with_base_depth_def)

lemma toy_diff:
  "sd_accounts (from_bundle_state toy_bundle) = [(7, \<lparr> ad_change_type = AccountCreated,
     ad_balance = Some \<lparr> vc_from = 0, vc_to = 5 \<rparr>, ad_nonce = Some \<lparr> vc_from = 0, vc_to = 1 \<rparr>, ad_code_change = None, ad_storage = [] \<rparr>)]"
  by (simp add: from_bundle_state_def toy_bundle_def toy_account_def List.map_filter_def account_diff_of_def change_type_of_def
      info_change_def code_change_of_def storage_changes_of_def has_changed_def)

lemma toy_room: "room (diff_size (from_bundle_state toy_bundle)) sharded_new"
  by (rule room_new) (simp add: diff_size_def diff_len_def total_storage_changes_def toy_diff)

lemma version_new: "sh_version sharded_new = 0"
  by (simp add: sharded_new_def)

lemma get_new: "sharded_get k sharded_new = None"
  using sharded_get_ok [OF sharded_new_ok(1)] by simp

lemma toy_updates:
  "diff_updates tree_lib sharded_new (sd_accounts (from_bundle_state toy_bundle)) = Ok [(101, Some (account_leaf toy_account))]"
  by (simp add: toy_diff account_updates_def account_code_hash_def get_new tree_lib_hashes account_leaf_def toy_account_def)

lemma toy_tree_run: "sharded_run tree_lib toy_tree"
  unfolding toy_tree_def by (rule run_diff [OF run_new toy_room]) (rule prod.collapse [symmetric])

lemma toy_tree_ok:
  "\<exists>tries. sharded_ok tree_lib [101 \<mapsto> account_leaf toy_account] toy_tree tries \<and>
     tries = TLeaf 101 101 # replicate 15 TEmpty"
proof -
  obtain t' tries h where t': "sharded_apply_diff tree_lib (from_bundle_state toy_bundle) sharded_new = (t', Ok (sh_version sharded_new + 1, h))"
    "sharded_ok tree_lib (fold write_map [(101, Some (account_leaf toy_account))] Map.empty) t' tries"
    using apply_diff_done [OF sharded_new_ok(1) sharded_new_ok(2) toy_updates, of 0] by auto
  then have ok: "sharded_ok tree_lib [101 \<mapsto> account_leaf toy_account] toy_tree tries"
    by (simp add: toy_tree_def write_map_def)
  have "[0..<SHARD_COUNT] = 0 # [1..<SHARD_COUNT]" by (simp add: SHARD_COUNT_def upt_conv_Cons)
  then have "tries = TLeaf 101 101 # map (\<lambda>i. TEmpty) [1..<SHARD_COUNT]"
    using canonical_tries [OF ok, of "[(101, account_leaf toy_account)]"] by (auto simp: shard_of_101 tree_lib_hashes)
  then show ?thesis using ok by (simp add: map_replicate_const SHARD_COUNT_def)
qed

lemma toy_get: "sharded_get k toy_tree = [101 \<mapsto> account_leaf toy_account] k"
  using toy_tree_ok sharded_get_ok by blast

theorem combined_root_canonical_witness:
  "\<exists>t' h. sharded_root_hash tree_lib toy_tree = Some (t', h) \<and> reference_root tree_lib [(101, account_leaf toy_account)] = Some h"
  by (rule combined_root_canonical [OF toy_tree_run]) (simp_all add: fun_eq_iff toy_get)

theorem proof_verifies_witness:
  "\<exists>t1 h t2 p. sharded_root_hash tree_lib toy_tree = Some (t1, h) \<and> sharded_prove tree_lib 101 t1 = Some (t2, p) \<and>
     sp_value p = Some (account_leaf toy_account) \<and> verify_for_key tree_lib p h 101 = Ok ()"
  using proof_verifies [OF toy_tree_run, of 101] by (simp add: toy_get)

theorem snapshot_roundtrip_witness:
  "\<exists>t1 s t2 t3. sharded_snapshot tree_lib (\<lambda>kv. map (\<lambda>k. (k, the (kv k))) (sorted_list_of_set (dom kv))) toy_tree = Some (t1, s) \<and>
     from_snapshot tree_lib s = Ok t2 \<and> sharded_get 101 t2 = Some (account_leaf toy_account) \<and>
     sharded_root_hash tree_lib t2 = Some (t3, js_root s)"
proof -
  let ?iter = "\<lambda>kv :: b256 \<rightharpoonup> bytes. map (\<lambda>k. (k, the (kv k))) (sorted_list_of_set (dom kv))"
  have lists: "lists_maps ?iter"
    by (auto simp: lists_maps_def comp_def map_of_tabulate fun_eq_iff) (metis option.exhaust)
  have "257 * length (concat (map ?iter (sh_values toy_tree))) < 2 ^ 32"
  proof -
    have "sh_values toy_tree = map (shard_part [101 \<mapsto> account_leaf toy_account]) [0..<SHARD_COUNT]"
      using toy_tree_ok by (auto simp: sharded_ok_def)
    moreover have "card (dom (shard_part [101 \<mapsto> account_leaf toy_account] i)) \<le> 1" for i
      by (rule le_trans [OF card_mono [of "{101}"]]) (auto simp: shard_part_def split: if_splits)
    then have "length (?iter (shard_part [101 \<mapsto> account_leaf toy_account] i)) \<le> 1" for i by simp
    then have "length (concat (map ?iter (map (shard_part [101 \<mapsto> account_leaf toy_account]) xs))) \<le> length xs" for xs
    proof (induction xs)
      case (Cons i xs)
      from Cons.IH [OF Cons.prems] Cons.prems [of i] show ?case unfolding list.map concat.simps length_append list.size by linarith
    qed simp
    from this [of "[0..<SHARD_COUNT]"] show ?thesis unfolding calculation by (simp add: SHARD_COUNT_def)
  qed
  from snapshot_roundtrip [OF toy_tree_run lists this] obtain t1 s t2 t3 where
    "sharded_snapshot tree_lib ?iter toy_tree = Some (t1, s)" "from_snapshot tree_lib s = Ok t2"
    "sharded_get 101 t2 = sharded_get 101 toy_tree" "sharded_root_hash tree_lib t2 = Some (t3, js_root s)" by blast
  moreover have "sharded_get 101 toy_tree = Some (account_leaf toy_account)" by (simp add: toy_get)
  ultimately show ?thesis by metis
qed

theorem bundle_applied_witness:
  "\<exists>t' h. sharded_apply_diff tree_lib (from_bundle_state toy_bundle) sharded_new = (t', Ok (1, h)) \<and> holds_after tree_lib toy_bundle t'"
proof -
  have "distinct (bundle_keys tree_lib toy_bundle)" "holds_before tree_lib toy_bundle sharded_new" "sh_version sharded_new = 0"
    by (simp_all add: bundle_keys_def entry_keys_def toy_bundle_def holds_before_def get_new version_new)
  then show ?thesis using bundle_applied [OF run_new toy_room, of tree_lib] by simp
qed

text \<open>The proof for the account, as a server would send it.\<close>

definition toy_proof :: sharded_bmt_proof where
  "toy_proof = \<lparr> sp_shard_index = 0, sp_shard_root = 201, sp_shard_path = [0, 1, 2, 3],
     sp_inner = \<lparr> pf_key = 101, pf_value_hash = Some 101, pf_siblings = [], pf_other_leaf = None \<rparr>,
     sp_value = Some (account_leaf toy_account) \<rparr>"

lemma toy_shard_root: "shard_tree_root tree_lib (201 # replicate 15 0) = Some 205"
  by (simp add: numeral_eq_Suc shard_tree_root.simps tree_lib_hashes)

lemma toy_proof_accepted: "verify_for_key tree_lib toy_proof 205 101 = Ok ()"
  by (simp add: verify_for_key_def sharded_verify_def toy_proof_def shard_of_101 SHARD_COUNT_def SHARD_BITS_def from_path_Cons
      tree_lib_hashes bmt_verify_def del: shard_tree_root_from_path.simps(2))

definition toy_strings :: "bytes list" where
  "toy_strings = [account_leaf toy_account, leaf_string 101 101, pair_string 201 0, pair_string 0 0, pair_string 202 1,
     pair_string 1 1, pair_string 203 2, pair_string 2 2, pair_string 204 3]"

lemma toy_strings_free: "collision_free tree_lib (set toy_strings)"
proof -
  have "map (blake3 tree_lib) toy_strings = [101, 201, 202, 1, 203, 2, 204, 3, 205]"
    by (simp add: toy_strings_def tree_lib_hashes)
  moreover have "distinct [101, 201, 202, 1, 203, 2, 204, 3, 205 :: b256]" "0 \<notin> set [101, 201, 202, 1, 203, 2, 204, 3, 205 :: b256]"
    by simp_all
  ultimately show ?thesis unfolding collision_free_def EMPTY_HASH_def by (metis distinct_map image_set)
qed

lemma toy_state_strings: "state_strings tree_lib toy_tree \<union> verifier_strings tree_lib toy_proof \<subseteq> set toy_strings"
proof -
  have t: "tries_of toy_tree = TLeaf 101 101 # replicate 15 TEmpty"
    and v: "sh_values toy_tree = map (shard_part [101 \<mapsto> account_leaf toy_account]) [0..<SHARD_COUNT]"
    using toy_tree_ok tries_of_ok by (auto simp: sharded_ok_def)
  have "(\<Union>kv \<in> set (sh_values toy_tree). ran kv) \<subseteq> {account_leaf toy_account}"
    unfolding v by (auto simp: shard_part_def ran_def split: if_splits)
  moreover have "(\<Union>tr \<in> set (tries_of toy_tree). tree_strings tree_lib tr) \<subseteq> {leaf_string 101 101}"
    unfolding t by auto
  moreover have "shard_strings tree_lib SHARD_BITS (map (thash tree_lib) (tries_of toy_tree)) \<subseteq> set toy_strings"
    unfolding t by (simp add: SHARD_BITS_def numeral_eq_Suc tree_lib_hashes EMPTY_HASH_def toy_strings_def)
  moreover have "verifier_strings tree_lib toy_proof \<subseteq> set toy_strings"
    by (simp add: verifier_strings_def toy_proof_def proof_strings_def claimed_def tree_lib_hashes toy_strings_def)
  ultimately show ?thesis by (auto simp: state_strings_def toy_strings_def)
qed

theorem accepted_proof_true_witness:
  "sp_value toy_proof = sharded_get 101 toy_tree \<and> sharded_get 101 toy_tree = Some (account_leaf toy_account)"
proof -
  obtain t' where "sharded_root_hash tree_lib toy_tree = Some (t', 205)"
    using toy_tree_ok sharded_root_ok toy_shard_root by (fastforce simp: tree_lib_hashes EMPTY_HASH_def)
  from accepted_proof_true [OF toy_tree_run this toy_proof_accepted collision_free_mono [OF toy_strings_free toy_state_strings]]
  show ?thesis by (simp add: toy_get)
qed

end
