(* ===== verification/Spec2Isabelle.thy ===== *)
theory Spec2Isabelle
  imports N42_Node N42_StateTree
begin

text \<open>
  The consensus of the N42 node: a HotStuff-style two-round protocol with BLS quorum certificates,
  verified from the engine down to the files it survives crashes with; and the state tree of its blocks.

  \<^bold>\<open>The program.\<close> A validator runs one consensus engine (\<^verbatim>\<open>n42-consensus/src/protocol\<close>). Views are
  numbered; the leader of a view proposes a block, validators vote for it (round one), the votes form
  a PrepareQC, validators lock on it and commit-vote (round two), the commit votes form a CommitQC and
  a Decide message. A view that makes no progress times out; timeouts form a TC with which the next
  leader proposes. Before the engine signs a vote it records the view in a durable vote log, and
  before a commit vote also its lock (\<^verbatim>\<open>n42-consensus-service/src/persistence.rs\<close>). The validator set
  of a view is given by the epoch manager (\<^verbatim>\<open>n42-consensus/src/validator\<close>). A restarted node
  (\<^verbatim>\<open>bin/n42-node/src/main.rs\<close>) rebuilds the engine from its snapshot, vote log and lock file.

  \<^bold>\<open>Primitives.\<close> \<^verbatim>\<open>N42_Prelude\<close> has the machine integers, the outcome of a call (a value, an error or
  a panic) and the sequencing of calls that change a state and may fail. \<^verbatim>\<open>N42_Messages\<close> is
  \<^verbatim>\<open>n42-primitives/src/consensus/messages.rs\<close> with the packed signer bitmap; \<^verbatim>\<open>N42_Bls\<close> is
  \<^verbatim>\<open>n42-primitives/src/bls\<close>; \<^verbatim>\<open>N42_Signing\<close> the signed payloads of \<^verbatim>\<open>h2_v4.rs\<close> and \<^verbatim>\<open>quorum.rs\<close>, and
  that they separate kinds, views and blocks.

  \<^bold>\<open>Validators and certificates.\<close> \<^verbatim>\<open>N42_Validators\<close> is \<^verbatim>\<open>validator/set.rs\<close> and \<^verbatim>\<open>selection.rs\<close> with the
  intersection of quorums and the rotation of leaders; \<^verbatim>\<open>N42_Epoch\<close> is \<^verbatim>\<open>validator/epoch.rs\<close> with its
  invariant, the staging rule and the look-up of sets; \<^verbatim>\<open>N42_Quorum\<close> is \<^verbatim>\<open>protocol/quorum.rs\<close>: what the
  collectors build verifies, and whom a certificate that verifies names.

  \<^bold>\<open>Engine.\<close> \<^verbatim>\<open>N42_Round\<close>, \<^verbatim>\<open>N42_Pacemaker\<close> and \<^verbatim>\<open>N42_BoundedFifo\<close> are the files of the same names;
  \<^verbatim>\<open>N42_EngineState\<close>, \<^verbatim>\<open>N42_Voting\<close>, \<^verbatim>\<open>N42_Proposal\<close>, \<^verbatim>\<open>N42_Timeout\<close> and \<^verbatim>\<open>N42_Engine\<close> are
  \<^verbatim>\<open>state_machine.rs\<close>, \<^verbatim>\<open>voting.rs\<close>, \<^verbatim>\<open>proposal.rs\<close>, \<^verbatim>\<open>timeout.rs\<close> and \<^verbatim>\<open>decision.rs\<close>. The record
  \<open>engine\<close> has the fields of \<^verbatim>\<open>ConsensusEngine\<close>; a method with \<open>&mut self\<close> returns the new engine and an
  outcome. Its environment is three scripts: whether the output channel accepts a message, whether a
  write of the vote log succeeds, and the readings of the clock. The field \<open>trace\<close> is a history
  variable: what was signed, recorded, delivered and accepted, in order.
  \<^verbatim>\<open>N42_Steps\<close> lifts a relation respected by every primitive state change to all handlers and events;
  \<^verbatim>\<open>N42_VoteSafety\<close> (one vote per view, recorded first), \<^verbatim>\<open>N42_LogOrder\<close> (durable writes only rise),
  \<^verbatim>\<open>N42_LockSafety\<close> (the lock rule) and \<^verbatim>\<open>N42_Bounds\<close> (termination, bounded buffers) are its instances.
  \<^verbatim>\<open>N42_Handlers\<close> and \<^verbatim>\<open>N42_Progress\<close> show what single handlers do. \<^verbatim>\<open>N42_Agreement\<close> joins the lifetimes
  of validators that crash and restart into agreement, and \<^verbatim>\<open>N42_Instance\<close> exhibits a running system.

  \<^bold>\<open>Durable state.\<close> \<^verbatim>\<open>N42_Files\<close> is the part of the file system the node uses: every call may fail,
  a failed write may be partial, and a crash keeps any content between the last synchronised one and
  the current one, cut at a sector boundary, and a directory entry only once the directory is
  synchronised. \<^verbatim>\<open>N42_Schedule\<close> is \<^verbatim>\<open>epoch_schedule.rs\<close> and the epoch part of the start-up;
  \<^verbatim>\<open>N42_Persistence\<close> is \<^verbatim>\<open>persistence.rs\<close>; \<^verbatim>\<open>N42_Lineage\<close> follows the execution lineage through crashes.
  \<^verbatim>\<open>N42_Recovery\<close> is the start-up of \<^verbatim>\<open>main.rs\<close> that reads these files and assembles the engine, with
  \<^verbatim>\<open>build_snapshot\<close> of \<^verbatim>\<open>state_mgmt.rs\<close>: the relation \<open>node\<close> interleaves start-ups, engine events, saved
  snapshots, stops and power losses at any moment. Its invariant says that the files cover every
  recorded vote and lock; \<^verbatim>\<open>N42_Node\<close> concludes that a node on its disk is a sequence of lifetimes and
  that certificates of such nodes agree, and exhibits a node.

  \<^bold>\<open>State tree.\<close> Committed blocks update a state tree whose root light clients trust. \<^verbatim>\<open>N42_StateDiff\<close> is
  \<^verbatim>\<open>n42-execution/src/state_diff.rs\<close>; \<^verbatim>\<open>N42_Sbmt\<close> is the sparse binary Merkle tree of \<^verbatim>\<open>n42-bmt-core\<close>: an
  arena of nodes with a free list and cached hashes. It refines the tries of \<^verbatim>\<open>N42_Trie\<close>, which are canonical
  for the map they hold: \<open>reps\<close> gives the slots a trie occupies, and every operation touches only
  those, free ones and new ones. \<^verbatim>\<open>N42_SbmtProof\<close> has the proofs of membership and absence and their
  verifier; \<^verbatim>\<open>N42_ShardedSbmt\<close> is \<^verbatim>\<open>n42-jmt/src/sharded_bmt.rs\<close>; \<^verbatim>\<open>N42_StateTree\<close> states what the tree
  promises, and that the diff of a block carries the accounts before it into those after it.

  \<^bold>\<open>Parameters.\<close> Code outside the repository is a parameter: the pairing library, hashes and random
  scalars (\<open>ext_lib\<close>), the serializers (\<open>codec\<close>), the reader of the schedule. Where a property
  relies on one, the hypothesis is named in its statement: an aggregate signature that verifies was
  made by its signers (\<open>aggregate_unforgeable\<close>), what a serializer writes it reads back
  (\<open>qc_codec_ok\<close>, \<open>json_codec_ok\<close>), the strings hashed do not collide (\<open>collision_free\<close>), a hash map is
  iterated in some order (\<open>lists_maps\<close>). The witnesses instantiate them.

  \<^bold>\<open>Fuel and bounds.\<close> The mutual recursion of \<open>advance_to_view\<close> with the replay of buffered messages
  carries fuel computed from the buffer; \<open>advance_to_view_unfold\<close> shows that it never runs out. The
  retry loop of \<open>emit\<close> is bounded by its constant as in the code. The recursions of the state tree have
  the fuel \<open>SBMT_FUEL\<close>: a path has 256 levels and an insertion visits a node twice, and the refinement
  lemmas show that the fuel is enough and no index is out of range. A node index has 32 bits; the
  operations are assumed to find room below that (\<open>room\<close>). No other definition has fuel.
  A \<open>usize\<close> is a natural number, since only lengths of existing collections are counted in it; all
  other integers have their width. An \<open>Instant\<close> is a number of nanoseconds.

  \<^bold>\<open>Not modelled.\<close> Tracing and metrics. The derived serializers. The asynchronous service around the
  engine (\<^verbatim>\<open>orchestrator\<close>, \<^verbatim>\<open>observer.rs\<close>, \<^verbatim>\<open>bootstrap.rs\<close>), whose behaviour is that of channels, peers and
  the execution client; its calls into the engine are the events of \<open>run\<close>. The adapter to the execution
  client, execution and the parallel EVM, the network, mobile verification, zero-knowledge proofs and
  the tools, which are built on third-party interfaces. The Jellyfish and twig trees, whose nodes live
  in third-party stores.
\<close>

section \<open>Agreement\<close>

text \<open>
  C1. Agreement. Among validators of which at most the tolerated number are faulty and the others
  follow the engine, crash and restart any number of times, two CommitQCs of one view that verify
  against the view's validator set certify the same block, and in the native profile the same
  validator-set changes.
\<close>

theorem commit_agreement:
  assumes "vset_wf vs" and "finite F" and "card F \<le> vset_tolerance vs"
    and "\<forall>i. i \<notin> F \<longrightarrow> lifetimes L pr False (h i)"
    and "aggregate_unforgeable L pr vs F h"
    and "verify_commit_qc_with_profile L qc vs ch pr = Ok ()"
    and "verify_commit_qc_with_profile L qc' vs ch' pr = Ok ()"
    and "qc_view qc = qc_view qc'"
  shows "qc_block_hash qc = qc_block_hash qc' \<and> (pr = Native \<longrightarrow> ch = ch')"
  using assms by (rule commit_agreement_aux)

theorem commit_agreement_witness:
  "verify_commit_qc_with_profile (toy_lib toy_messages) (toy_qc 8 77) solo_set 0 Native = Ok () \<and>
   verify_commit_qc_with_profile (toy_lib toy_messages) ((toy_qc 8 77)\<lparr> qc_aggregate_signature := [1] \<rparr>) solo_set 0 Native
     = Ok () \<and>
   qc_block_hash (toy_qc 8 77) = qc_block_hash ((toy_qc 8 77)\<lparr> qc_aggregate_signature := [1] \<rparr>)"
proof -
  let ?qc = "(toy_qc 8 77)\<lparr> qc_aggregate_signature := [1] \<rparr>"
  obtain h where h: "lifetimes (toy_lib toy_messages) Native False h"
    "aggregate_unforgeable (toy_lib toy_messages) Native solo_set {} (\<lambda>_. h)" using toy_system by blast
  have other: "verify_commit_qc_with_profile (toy_lib toy_messages) ?qc solo_set 0 Native = Ok ()"
    using toy_certificates(1) by (simp add: verify_commit_qc_Ok profile_verify_aggregate_iff)
  have "qc_block_hash (toy_qc 8 77) = qc_block_hash ?qc"
    using commit_agreement [OF solo_set_facts(7) finite.emptyI _ _ h(2) toy_certificates(1) other] h(1) by simp
  then show ?thesis using toy_certificates(1) other by blast
qed

text \<open>
  C5. One PrepareQC per view: under the same conditions and outside the legacy profile, in which a
  proposal and a vote have one signing payload, two QCs of round-one votes for one view certify the
  same block.
\<close>

theorem prepare_agreement:
  assumes "vset_wf vs" and "finite F" and "card F \<le> vset_tolerance vs" and "pr \<noteq> Gov5Legacy"
    and "\<forall>i. i \<notin> F \<longrightarrow> lifetimes L pr False (h i)"
    and "aggregate_unforgeable L pr vs F h"
    and "verify_qc_with_profile L qc vs pr = Ok ()"
    and "verify_qc_with_profile L qc' vs pr = Ok ()"
    and "qc_view qc = qc_view qc'"
  shows "qc_block_hash qc = qc_block_hash qc'"
proof -
  have "recorded (votes_of pr) LogVote (h i)" if "i \<notin> F" for i
    using assms(5) that lifetimes_recorded(1) by blast
  then have "vote_message pr (qc_view qc) (qc_block_hash qc)
      = vote_message pr (qc_view qc') (qc_block_hash qc')"
    by (rule certified_once [OF assms(1-3) _ assms(6)])
      (use assms(4,7-9) in \<open>auto simp: verified_certified votes_of_def\<close>)
  then show ?thesis by simp
qed

theorem prepare_agreement_witness:
  "verify_qc_with_profile (toy_lib toy_messages) (toy_qc 9 88) solo_set Native = Ok () \<and>
   verify_qc_with_profile (toy_lib toy_messages) ((toy_qc 9 88)\<lparr> qc_aggregate_signature := [1] \<rparr>) solo_set Native = Ok () \<and>
   qc_block_hash (toy_qc 9 88) = qc_block_hash ((toy_qc 9 88)\<lparr> qc_aggregate_signature := [1] \<rparr>)"
proof -
  let ?qc = "(toy_qc 9 88)\<lparr> qc_aggregate_signature := [1] \<rparr>"
  obtain h where h: "lifetimes (toy_lib toy_messages) Native False h"
    "aggregate_unforgeable (toy_lib toy_messages) Native solo_set {} (\<lambda>_. h)" using toy_system by blast
  have other: "verify_qc_with_profile (toy_lib toy_messages) ?qc solo_set Native = Ok ()"
    using toy_certificates(3) by (simp add: verify_qc_Ok profile_verify_aggregate_iff)
  have "qc_block_hash (toy_qc 9 88) = qc_block_hash ?qc"
    using prepare_agreement [OF solo_set_facts(7) finite.emptyI _ _ _ h(2) toy_certificates(3) other] h(1) by simp
  then show ?thesis using toy_certificates(3) other by blast
qed

text \<open>
  C3. The lock holds across views. If a block was committed in a view and a quorum of votes
  certifies a block of a later view, then a correct validator that signed both certificates accepted
  the later block on a justification at least as recent as the commit. Restarts must resume at a
  view no lower than the last recorded vote.
\<close>

theorem lock_safety:
  assumes "vset_wf vs" and "finite F" and "card F \<le> vset_tolerance vs" and "pr \<noteq> Gov5Legacy"
    and "\<forall>i. i \<notin> F \<longrightarrow> lifetimes L pr True (h i)"
    and "aggregate_unforgeable L pr vs F h"
    and "verify_commit_qc_with_profile L qc vs ch pr = Ok ()"
    and "verify_qc_with_profile L qc' vs pr = Ok ()"
    and "qc_view qc < qc_view qc'"
  shows "\<exists>i p. i \<in> signer_set (qc_signers qc) \<inter> signer_set (qc_signers qc') - F \<and>
    Accepted p \<in> set (h i) \<and> p_view p = qc_view qc' \<and> p_block_hash p = qc_block_hash qc' \<and>
    qc_view qc \<le> qc_view (p_justify_qc p)"
proof -
  obtain i where i: "i \<in> signer_set (qc_signers qc)" "i \<in> signer_set (qc_signers qc')" "i \<notin> F"
    "Signed (commit_message pr (qc_view qc) (qc_block_hash qc) ch) \<in> set (h i)"
    "Signed (vote_message pr (qc_view qc') (qc_block_hash qc')) \<in> set (h i)"
    using certified_both_signed [OF assms(1-3,6) assms(7) [unfolded verified_certified]
        assms(8) [unfolded verified_certified]] by blast
  have "lock_respected pr (h i)" using assms(4,5) i(3) lifetimes_lock_respected by blast
  then have "justified_above (set (h i)) (qc_view qc) (qc_view qc') (qc_block_hash qc')"
    using i(4,5) assms(9) unfolding lock_respected_def by blast
  then show ?thesis using i(1-3) unfolding justified_above_def by blast
qed

theorem lock_safety_witness:
  "\<exists>h p. lifetimes (toy_lib toy_messages) Native True h \<and> Accepted p \<in> set h \<and> p_view p = 9 \<and>
     p_block_hash p = 88 \<and> 8 \<le> qc_view (p_justify_qc p)"
proof -
  obtain h where h: "lifetimes (toy_lib toy_messages) Native True h"
    "aggregate_unforgeable (toy_lib toy_messages) Native solo_set {} (\<lambda>_. h)" using toy_system by blast
  have "qc_view (toy_qc 8 77) < qc_view (toy_qc 9 88)" by (simp add: toy_qc_def)
  then show ?thesis
    using lock_safety [OF solo_set_facts(7) finite.emptyI _ _ _ h(2) toy_certificates(1,3)] h(1)
    by (auto simp: toy_qc_def)
qed


section \<open>Runs of one engine\<close>

text \<open>
  C4. One vote per view and round, recorded first. Along every run of the engine, whatever events
  arrive in whatever order and whatever sends and log writes fail, the history only grows and the
  round state never falls back: in each round every signed vote is for a view above the earlier
  watermark, two votes of one view are the same message, and the durable record of the view precedes
  the signature.
\<close>

theorem run_signs_once:
  assumes "run L s t"
  shows "trace t = trace s @ new_effects s t \<and> round_le (round_state s) (round_state t) \<and>
    signing_discipline (votes_of (signing_profile s)) LogVote
      (last_voted_view (round_state s)) (last_voted_view (round_state t)) (new_effects s t) \<and>
    signing_discipline (commit_votes_of (signing_profile s)) LogCommitVote
      (last_commit_voted_view (round_state s)) (last_commit_voted_view (round_state t)) (new_effects s t)"
  using run_effects [OF assms] by simp

theorem run_signs_once_witness:
  "\<exists>t. Signed (vote_message Native 8 77) \<in> set (trace t) \<and> 8 \<le> last_voted_view (round_state t) \<and>
     run (toy_lib toy_messages) (solo (toy_lib toy_messages) 8 (toy_qc 0 0) 0 0) t"
proof -
  let ?s = "solo (toy_lib toy_messages) 8 (toy_qc 0 0) 0 0"
  obtain t where t: "run (toy_lib toy_messages) ?s t" "Signed (vote_message Native 8 77) \<in> set (trace t)"
    using solo_votes [of 0 8 "toy_qc 0 0" "toy_qc 0 0" toy_messages 0 77] by fastforce
  have "signing_discipline (votes_of Native) LogVote 0 (last_voted_view (round_state t)) (trace t)"
    using run_signs_once [OF t(1)] by (simp add: solo_facts new_effects_def)
  moreover have "votes_of Native 8 (vote_message Native 8 77)" by (auto simp: votes_of_def)
  ultimately have "8 \<le> last_voted_view (round_state t)"
    using t(2) unfolding signing_discipline_def by blast
  then show ?thesis using t by blast
qed



text \<open>
  C11. Entering a view terminates and does what the code's mutual recursion says: the fuel of the
  model never runs out, so entering a view is entering it once and dispatching the buffered messages
  of that view, with the nested calls being the same function.
\<close>

theorem advance_to_view_unfold:
  "advance_to_view L v s = advance_body (\<lambda>m t. dispatch_message L (advance_to_view L) m None t) v s"
  by (rule advance_to_view_unfold_aux)

section \<open>Handlers\<close>

text \<open>
  C6. The voting rule. Whenever the proposal handler signs anything, it signs the round-one vote for
  the proposal's block and view, and everything the rule asks for held before: the proposal is of the
  current view, from its leader, with a valid signature; its justification verifies or is genesis and
  is at least as recent as the lock; the local validator belongs to the view's set and has not voted
  in this view or a later one.
\<close>

theorem proposal_vote_guarded:
  assumes "Signed m \<in> set (new_effects s (fst (process_proposal L p s)))"
  shows "m = vote_message (signing_profile s) (p_view p) (p_block_hash p) \<and>
    p_view p = view_of s \<and> leader_for_view (view_of s) (set_for_view (view_of s) s) = Ok (p_proposer p) \<and>
    (\<exists>pk. get_public_key (set_for_view (view_of s) s) (p_proposer p) = Ok pk \<and>
       verify_single L (signing_profile s) pk (proposal_message L (signing_profile s) (p_view p)
         (p_block_hash p) (p_validator_changes p)) (p_signature p)) \<and>
    (qc_view (p_justify_qc p) = 0 \<or> verify_qc_any_domain_or_known L (p_justify_qc p) s = Ok ()) \<and>
    qc_view (locked_qc (round_state s)) \<le> qc_view (p_justify_qc p) \<and>
    is_local_validator_active_for_view (view_of s) s \<and> last_voted_view (round_state s) < view_of s"
proof -
  have "proposal_guards L p s \<and> m = vote_message (signing_profile s) (p_view p) (p_block_hash p)"
    using signs_new_effects [OF signs_proposal assms] .
  then show ?thesis
    by (auto simp: proposal_guards_def check_proposal_def is_safe_to_vote_def may_vote_in_def Let_def
        split: if_splits elim!: is_ok.elims bind_outcome_OkE)
qed

theorem proposal_vote_guarded_witness:
  "leader_for_view 8 (set_for_view 8 (solo (toy_lib toy_messages) 8 (toy_qc 0 0) 0 0)) = Ok 0"
proof -
  let ?L = "toy_lib toy_messages" let ?s = "solo ?L 8 (toy_qc 0 0) 0 0" and ?p = "toy_proposal 8 77 (toy_qc 0 0)"
  obtain x where "trace (fst (process_proposal ?L ?p ?s)) = [Accepted ?p, Delivered (ExecuteBlock 77),
      Logged (LogVote 8), Signed (vote_message Native 8 77), Delivered x]"
    using solo_proposal [of 0 8 "toy_qc 0 0" "toy_qc 0 0" toy_messages 77 0] by auto
  then have "Signed (vote_message Native 8 77) \<in> set (new_effects ?s (fst (process_proposal ?L ?p ?s)))"
    by (simp add: new_effects_def solo_facts)
  from proposal_vote_guarded [OF this] show ?thesis by (simp add: solo_facts toy_proposal_def)
qed



text \<open>
  C7. The commit rule. Whenever the PrepareQC handler signs anything, it signs a commit vote for the
  message's block in the current view, the QC is of this view and block and verifies against the set
  known for it, and the local validator belongs to the set and has not commit-voted in this view or
  a later one.
\<close>

theorem commit_vote_guarded:
  assumes "Signed m \<in> set (new_effects s (fst (process_prepare_qc L pqc s)))"
  shows "(\<exists>h. m = commit_message (signing_profile s) (view_of s) (pqc_block_hash pqc) h) \<and>
    qc_view (pqc_qc pqc) = view_of s \<and> qc_block_hash (pqc_qc pqc) = pqc_block_hash pqc \<and>
    (\<exists>vs. resolve_qc_validator_set (pqc_qc pqc) s = Ok vs \<and>
       verify_qc_with_profile L (pqc_qc pqc) vs (signing_profile s) = Ok ()) \<and>
    is_local_validator_active_for_view (view_of s) s \<and> last_commit_voted_view (round_state s) < view_of s"
proof -
  have "prepare_guards L pqc s \<and>
      (\<exists>h. m = commit_message (signing_profile s) (pqc_view pqc) (pqc_block_hash pqc) h)"
    using signs_new_effects [OF signs_prepare assms] .
  then show ?thesis by (auto simp: prepare_guards_def may_commit_vote_in_def)
qed

theorem commit_vote_guarded_witness:
  "last_commit_voted_view (round_state (solo (toy_lib toy_messages) 8 (toy_qc 0 0) 8 0)) < 8"
proof -
  let ?L = "toy_lib toy_messages" let ?s = "solo ?L 8 (toy_qc 0 0) 8 0" and ?m = "toy_prepare_qc 8 77"
  obtain x where "trace (fst (process_prepare_qc ?L ?m ?s)) = [Logged (LogLock (toy_qc 8 77)), Logged (LogCommitVote 8),
      Signed (commit_message Native 8 77 0), Delivered x]"
    using solo_prepare [of 0 8 "toy_qc 0 0" toy_messages 77 8] by (auto simp: toy_messages_def toy_qc_def)
  then have "Signed (commit_message Native 8 77 0) \<in> set (new_effects ?s (fst (process_prepare_qc ?L ?m ?s)))"
    by (simp add: new_effects_def solo_facts)
  from commit_vote_guarded [OF this] show ?thesis by (simp add: solo_facts)
qed




definition toy_decide :: decide where
  "toy_decide = \<lparr> d_view = 8, d_block_hash = 77, d_commit_qc = toy_qc 8 77, d_validator_changes_hash = 0 \<rparr>"




end
